theory Spec2Isabelle
  imports Main "HOL-Library.Monad_Syntax" "HOL-Library.Word"
begin

section \<open>Memory model\<close>

text \<open>
  The map of \<^verbatim>\<open>map_with_function_pointers.c\<close> is an AVL tree of heap nodes that point
  to their children and to their parent. A node pointer is an optional address (\<open>None\<close> is
  \<^verbatim>\<open>NULL\<close>), and the node store maps the addresses of the live nodes to their contents.
  Every function that dereferences a pointer returns an option: \<open>None\<close> stands for an
  execution that C leaves undefined (reading or writing through \<^verbatim>\<open>NULL\<close> or through an
  address that is not live) and, for the loops, for an execution that does not stop.

  The fields \<^verbatim>\<open>height\<close> (a C \<^verbatim>\<open>int\<close>) and the result of the comparator are integers;
  \<^verbatim>\<open>size_t\<close> is a 64-bit word.
\<close>

type_synonym addr = nat
type_synonym ptr = "addr option"

record ('k, 'v) node =
  key :: 'k
  "value" :: 'v
  left :: ptr
  right :: ptr
  parent :: ptr
  height :: int

type_synonym ('k, 'v, 'x) heap = "addr \<Rightarrow> ('k, 'v, 'x) node_scheme option"

definition load :: "('k, 'v, 'x) heap \<Rightarrow> ptr \<Rightarrow> (('k, 'v, 'x) node_scheme \<Rightarrow> 'a) \<Rightarrow> 'a option" where
  "load h p f = (case p of None \<Rightarrow> None | Some a \<Rightarrow> map_option f (h a))"

definition store :: "('k, 'v, 'x) heap \<Rightarrow> ptr \<Rightarrow>
    (('k, 'v, 'x) node_scheme \<Rightarrow> ('k, 'v, 'x) node_scheme) \<Rightarrow> ('k, 'v, 'x) heap option" where
  "store h p f = (case p of None \<Rightarrow> None
     | Some a \<Rightarrow> (case h a of None \<Rightarrow> None | Some nd \<Rightarrow> Some (h(a \<mapsto> f nd))))"

text \<open>The header of a map: the fields every variant of the map structure has.\<close>

record map_hdr =
  root :: ptr
  size_f :: "64 word"

section \<open>Heights, rotations and rebalancing\<close>

text \<open>
  The helpers of the tree, modelled for any node type that extends \<open>node\<close> and any map
  structure that extends \<open>map_hdr\<close>.
\<close>

definition node_height :: "('k, 'v, 'x) heap \<Rightarrow> ptr \<Rightarrow> int option" where
  "node_height h n = (case n of None \<Rightarrow> Some 0 | Some a \<Rightarrow> map_option height (h a))"

definition update_height :: "('k, 'v, 'x) heap \<Rightarrow> ptr \<Rightarrow> ('k, 'v, 'x) heap option" where
  "update_height h n = (case n of None \<Rightarrow> Some h
     | Some a \<Rightarrow> do {
         l \<leftarrow> load h n left;
         hl \<leftarrow> node_height h l;
         r \<leftarrow> load h n right;
         hr \<leftarrow> node_height h r;
         store h n (\<lambda>nd. nd\<lparr>height := (if hl > hr then hl else hr) + 1\<rparr>)
       })"

definition rotate_right :: "('k, 'v, 'x) heap \<Rightarrow> ptr \<Rightarrow> (ptr \<times> ('k, 'v, 'x) heap) option" where
  "rotate_right h y = do {
     x \<leftarrow> load h y left;
     T2 \<leftarrow> load h x right;
     h \<leftarrow> store h x (\<lambda>nd. nd\<lparr>right := y\<rparr>);
     h \<leftarrow> store h y (\<lambda>nd. nd\<lparr>left := T2\<rparr>);
     h \<leftarrow> (if T2 \<noteq> None then store h T2 (\<lambda>nd. nd\<lparr>parent := y\<rparr>) else Some h);
     yp \<leftarrow> load h y parent;
     h \<leftarrow> store h x (\<lambda>nd. nd\<lparr>parent := yp\<rparr>);
     h \<leftarrow> store h y (\<lambda>nd. nd\<lparr>parent := x\<rparr>);
     h \<leftarrow> update_height h y;
     h \<leftarrow> update_height h x;
     Some (x, h)
   }"

definition rotate_left :: "('k, 'v, 'x) heap \<Rightarrow> ptr \<Rightarrow> (ptr \<times> ('k, 'v, 'x) heap) option" where
  "rotate_left h x = do {
     y \<leftarrow> load h x right;
     T2 \<leftarrow> load h y left;
     h \<leftarrow> store h y (\<lambda>nd. nd\<lparr>left := x\<rparr>);
     h \<leftarrow> store h x (\<lambda>nd. nd\<lparr>right := T2\<rparr>);
     h \<leftarrow> (if T2 \<noteq> None then store h T2 (\<lambda>nd. nd\<lparr>parent := x\<rparr>) else Some h);
     xp \<leftarrow> load h x parent;
     h \<leftarrow> store h y (\<lambda>nd. nd\<lparr>parent := xp\<rparr>);
     h \<leftarrow> store h x (\<lambda>nd. nd\<lparr>parent := y\<rparr>);
     h \<leftarrow> update_height h x;
     h \<leftarrow> update_height h y;
     Some (y, h)
   }"

definition set_child :: "'m map_hdr_scheme \<Rightarrow> ('k, 'v, 'x) heap \<Rightarrow> ptr \<Rightarrow> ptr \<Rightarrow> ptr \<Rightarrow>
    ('m map_hdr_scheme \<times> ('k, 'v, 'x) heap) option" where
  "set_child m h parent_p old_child new_child =
     (if parent_p = None then do {
        h \<leftarrow> (if new_child \<noteq> None then store h new_child (\<lambda>nd. nd\<lparr>parent := None\<rparr>) else Some h);
        Some (m\<lparr>root := new_child\<rparr>, h)
      } else do {
        pl \<leftarrow> load h parent_p left;
        h \<leftarrow> (if pl = old_child then store h parent_p (\<lambda>nd. nd\<lparr>left := new_child\<rparr>)
              else store h parent_p (\<lambda>nd. nd\<lparr>right := new_child\<rparr>));
        h \<leftarrow> (if new_child \<noteq> None then store h new_child (\<lambda>nd. nd\<lparr>parent := parent_p\<rparr>) else Some h);
        Some (m, h)
      })"

text \<open>
  \<^verbatim>\<open>rebalance_at(m, node)\<close> does not use \<^verbatim>\<open>m\<close>; the model leaves the argument out.
\<close>

definition rebalance_at :: "('k, 'v, 'x) heap \<Rightarrow> ptr \<Rightarrow> (ptr \<times> ('k, 'v, 'x) heap) option" where
  "rebalance_at h node = do {
     h \<leftarrow> update_height h node;
     l \<leftarrow> load h node left;
     hl \<leftarrow> node_height h l;
     r \<leftarrow> load h node right;
     hr \<leftarrow> node_height h r;
     let balance = hl - hr in
     if balance > 1 then do {
       ll \<leftarrow> load h l left;
       hll \<leftarrow> node_height h ll;
       lr \<leftarrow> load h l right;
       hlr \<leftarrow> node_height h lr;
       if hll \<ge> hlr then rotate_right h node
       else do {
         (nl, h) \<leftarrow> rotate_left h l;
         h \<leftarrow> store h node (\<lambda>nd. nd\<lparr>left := nl\<rparr>);
         nl \<leftarrow> load h node left;
         h \<leftarrow> (if nl \<noteq> None then store h nl (\<lambda>nd. nd\<lparr>parent := node\<rparr>) else Some h);
         rotate_right h node
       }
     } else if balance < - 1 then do {
       rr \<leftarrow> load h r right;
       hrr \<leftarrow> node_height h rr;
       rl \<leftarrow> load h r left;
       hrl \<leftarrow> node_height h rl;
       if hrr \<ge> hrl then rotate_left h node
       else do {
         (nr, h) \<leftarrow> rotate_right h r;
         h \<leftarrow> store h node (\<lambda>nd. nd\<lparr>right := nr\<rparr>);
         nr \<leftarrow> load h node right;
         h \<leftarrow> (if nr \<noteq> None then store h nr (\<lambda>nd. nd\<lparr>parent := node\<rparr>) else Some h);
         rotate_left h node
       }
     } else Some (node, h)
   }"

text \<open>
  The loop that \<^verbatim>\<open>map_insert\<close> and \<^verbatim>\<open>map_erase\<close> both end with: rebalance at \<open>p\<close>, link
  the new subtree root below its parent, go on at that parent.
\<close>

partial_function (option) rebalance_loop :: "'m map_hdr_scheme \<Rightarrow> ('k, 'v, 'x) heap \<Rightarrow> ptr \<Rightarrow>
    ('m map_hdr_scheme \<times> ('k, 'v, 'x) heap) option" where
  "rebalance_loop m h p =
     (if p = None then Some (m, h)
      else do {
        (new_subroot, h) \<leftarrow> rebalance_at h p;
        np \<leftarrow> load h new_subroot parent;
        (m, h) \<leftarrow> set_child m h np p new_subroot;
        p \<leftarrow> load h new_subroot parent;
        rebalance_loop m h p
      })"

definition clear_root_parent :: "'m map_hdr_scheme \<Rightarrow> ('k, 'v, 'x) heap \<Rightarrow> ('k, 'v, 'x) heap option" where
  "clear_root_parent m h =
     (if root m \<noteq> None then do {
        rp \<leftarrow> load h (root m) parent;
        if rp \<noteq> None then store h (root m) (\<lambda>nd. nd\<lparr>parent := None\<rparr>) else Some h
      } else Some h)"

section \<open>The dynamic map\<close>

text \<open>
  Keys and values are \<^verbatim>\<open>void *\<close>: an optional reference to a caller's object of type
  \<open>'k\<close> or \<open>'v\<close> (\<open>None\<close> is \<^verbatim>\<open>NULL\<close>). The comparator and the duplication callbacks are
  functions on these references; \<open>key_dup\<close> and \<open>val_dup\<close> are optional as in the
  source. Of the callbacks \<open>key_free\<close> and \<open>val_free\<close> the structure records whether they
  are set; what they are called with is logged in the memory, latest call first.
\<close>

record ('k, 'v) map_t = map_hdr +
  cmp :: "'k option \<Rightarrow> 'k option \<Rightarrow> int"
  key_dup :: "('k option \<Rightarrow> 'k option) option"
  key_free :: bool
  val_dup :: "('v option \<Rightarrow> 'v option) option"
  val_free :: bool

type_synonym ('k, 'v) dheap = "('k option, 'v option, unit) heap"

record ('k, 'v) mem =
  nodes :: "('k, 'v) dheap"
  key_freed :: "'k option list"
  val_freed :: "'v option list"

text \<open>
  \<^verbatim>\<open>node_new\<close>: the argument \<open>n\<close> is what \<^verbatim>\<open>malloc\<close> returns, \<open>None\<close> when it fails and
  otherwise the address of a block that is not live.
\<close>

definition node_new :: "('k, 'v) map_t \<Rightarrow> ('k, 'v) dheap \<Rightarrow> ptr \<Rightarrow> 'k option \<Rightarrow> 'v option \<Rightarrow>
    ptr \<times> ('k, 'v) dheap" where
  "node_new m h n k v = (case n of None \<Rightarrow> (None, h)
     | Some a \<Rightarrow> (Some a, h(a \<mapsto> \<lparr>
         key = (case key_dup m of Some d \<Rightarrow> d k | None \<Rightarrow> k),
         value = (case val_dup m of Some d \<Rightarrow> d v | None \<Rightarrow> v),
         left = None, right = None, parent = None, height = 1\<rparr>)))"

definition node_free :: "('k, 'v) map_t \<Rightarrow> ('k, 'v) mem \<Rightarrow> ptr \<Rightarrow> ('k, 'v) mem option" where
  "node_free m s n = (case n of None \<Rightarrow> Some s
     | Some a \<Rightarrow> (case nodes s a of None \<Rightarrow> None
         | Some nd \<Rightarrow> Some (s\<lparr>
             key_freed := (if key_free m \<and> key nd \<noteq> None then [key nd] else []) @ key_freed s,
             val_freed := (if val_free m \<and> value nd \<noteq> None then [value nd] else []) @ val_freed s,
             nodes := (nodes s)(a := None)\<rparr>)))"

text \<open>\<^verbatim>\<open>map_create\<close>: \<open>alloc_ok\<close> tells whether \<^verbatim>\<open>malloc\<close> succeeds.\<close>

definition map_create :: "('k option \<Rightarrow> 'k option \<Rightarrow> int) option \<Rightarrow>
    ('k option \<Rightarrow> 'k option) option \<Rightarrow> bool \<Rightarrow> ('v option \<Rightarrow> 'v option) option \<Rightarrow> bool \<Rightarrow>
    bool \<Rightarrow> ('k, 'v) map_t option" where
  "map_create cmp_fn kdup kfree vdup vfree alloc_ok = (case cmp_fn of None \<Rightarrow> None
     | Some c \<Rightarrow> if \<not> alloc_ok then None
         else Some \<lparr>root = None, size_f = 0, cmp = c, key_dup = kdup, key_free = kfree,
                    val_dup = vdup, val_free = vfree\<rparr>)"

partial_function (option) find_node_loop :: "('k, 'v) dheap \<Rightarrow> ('k option \<Rightarrow> 'k option \<Rightarrow> int) \<Rightarrow>
    'k option \<Rightarrow> ptr \<Rightarrow> ptr option" where
  "find_node_loop h cmp_fn k cur =
     (if cur = None then Some None
      else do {
        ck \<leftarrow> load h cur key;
        let c = cmp_fn k ck in
        if c = 0 then Some cur
        else do {
          nxt \<leftarrow> (if c < 0 then load h cur left else load h cur right);
          find_node_loop h cmp_fn k nxt
        }
      })"

text \<open>
  \<^verbatim>\<open>find_node\<close> reads \<^verbatim>\<open>m->root\<close> without a test of \<^verbatim>\<open>m\<close>, so it takes the handle as the
  public functions do: \<open>None\<close> is the \<^verbatim>\<open>NULL\<close> handle. The other internal functions are
  called after the test and take the structure.
\<close>

definition find_node :: "('k, 'v) dheap \<Rightarrow> ('k, 'v) map_t option \<Rightarrow> 'k option \<Rightarrow> ptr option" where
  "find_node h m k = (case m of None \<Rightarrow> None
     | Some M \<Rightarrow> find_node_loop h (cmp M) k (root M))"

text \<open>
  The descent of \<^verbatim>\<open>map_insert\<close>: \<open>None\<close> when an equal key is met (the function returns 0
  there), otherwise the last node visited and the last comparison.
\<close>

partial_function (option) insert_descend :: "('k, 'v) dheap \<Rightarrow> ('k option \<Rightarrow> 'k option \<Rightarrow> int) \<Rightarrow>
    'k option \<Rightarrow> ptr \<Rightarrow> ptr \<Rightarrow> int \<Rightarrow> (ptr \<times> int) option option" where
  "insert_descend h cmp_fn k parent_p cur cmpv =
     (if cur = None then Some (Some (parent_p, cmpv))
      else do {
        ck \<leftarrow> load h cur key;
        let cmpv = cmp_fn k ck in
        if cmpv = 0 then Some None
        else do {
          nxt \<leftarrow> (if cmpv < 0 then load h cur left else load h cur right);
          insert_descend h cmp_fn k cur nxt cmpv
        }
      })"

text \<open>
  The public functions take the memory, the handle and their arguments, and return their
  C result with the structure behind the handle and the memory as they leave them.
  \<^verbatim>\<open>map_insert\<close> returns 1 (Inserted), 0 (AlreadyExists) or -1 (Failed).
\<close>

definition map_insert :: "('k, 'v) mem \<Rightarrow> ('k, 'v) map_t option \<Rightarrow> 'k option \<Rightarrow> 'v option \<Rightarrow> ptr \<Rightarrow>
    (int \<times> ('k, 'v) map_t option \<times> ('k, 'v) mem) option" where
  "map_insert s m k v new_block = (case m of None \<Rightarrow> Some (- 1, m, s)
     | Some M \<Rightarrow>
       if root M = None then
         (case node_new M (nodes s) new_block k v of
            (None, _) \<Rightarrow> Some (- 1, m, s)
          | (n, h) \<Rightarrow> Some (1, Some (M\<lparr>root := n, size_f := 1\<rparr>), s\<lparr>nodes := h\<rparr>))
       else do {
         found \<leftarrow> insert_descend (nodes s) (cmp M) k None (root M) 0;
         case found of None \<Rightarrow> Some (0, m, s)
         | Some (parent_p, cmpv) \<Rightarrow>
           (case node_new M (nodes s) new_block k v of
              (None, _) \<Rightarrow> Some (- 1, m, s)
            | (n, h) \<Rightarrow> do {
                h \<leftarrow> store h n (\<lambda>nd. nd\<lparr>parent := parent_p\<rparr>);
                h \<leftarrow> (if cmpv < 0 then store h parent_p (\<lambda>nd. nd\<lparr>left := n\<rparr>)
                      else store h parent_p (\<lambda>nd. nd\<lparr>right := n\<rparr>));
                p \<leftarrow> load h n parent;
                (M, h) \<leftarrow> rebalance_loop (M\<lparr>size_f := size_f M + 1\<rparr>) h p;
                h \<leftarrow> clear_root_parent M h;
                Some (1, Some M, s\<lparr>nodes := h\<rparr>)
              })
       })"

text \<open>
  When \<^verbatim>\<open>map_put\<close> replaces a value it calls \<^verbatim>\<open>val_free\<close> on the old value first and
  \<^verbatim>\<open>val_dup\<close> on the new one after. \<^verbatim>\<open>val_free\<close> releases the object the old value refers
  to and \<^verbatim>\<open>val_dup\<close> reads the object the new value refers to: when both callbacks are set
  and the new value is the old one (and not \<^verbatim>\<open>NULL\<close>), \<^verbatim>\<open>val_dup\<close> reads a released object.
\<close>

definition reads_released :: "('k, 'v) map_t \<Rightarrow> 'v option \<Rightarrow> 'v option \<Rightarrow> bool" where
  "reads_released M old v \<longleftrightarrow> val_free M \<and> val_dup M \<noteq> None \<and> v \<noteq> None \<and> v = old"

text \<open>
  \<^verbatim>\<open>map_put\<close> returns 2 (Replaced), or what \<^verbatim>\<open>map_insert\<close> returns; it has no defined result
  when the duplication reads the object just released.
\<close>

definition map_put :: "('k, 'v) mem \<Rightarrow> ('k, 'v) map_t option \<Rightarrow> 'k option \<Rightarrow> 'v option \<Rightarrow> ptr \<Rightarrow>
    (int \<times> ('k, 'v) map_t option \<times> ('k, 'v) mem) option" where
  "map_put s m k v new_block = (case m of None \<Rightarrow> Some (- 1, m, s)
     | Some M \<Rightarrow> do {
         existing \<leftarrow> find_node (nodes s) m k;
         if existing \<noteq> None then do {
           old \<leftarrow> load (nodes s) existing value;
           let s = (if val_free M then s\<lparr>val_freed := old # val_freed s\<rparr> else s);
           nv \<leftarrow> (case val_dup M of None \<Rightarrow> Some v
                 | Some d \<Rightarrow> if reads_released M old v then None else Some (d v));
           h \<leftarrow> store (nodes s) existing (\<lambda>nd. nd\<lparr>value := nv\<rparr>);
           Some (2, m, s\<lparr>nodes := h\<rparr>)
         } else map_insert s m k v new_block
       })"

text \<open>\<^verbatim>\<open>map_find\<close> has no test of the handle before it calls \<^verbatim>\<open>find_node\<close>.\<close>

definition map_find :: "('k, 'v) mem \<Rightarrow> ('k, 'v) map_t option \<Rightarrow> 'k option \<Rightarrow> 'v option option" where
  "map_find s m k = do {
     n \<leftarrow> find_node (nodes s) m k;
     if n \<noteq> None then load (nodes s) n value else Some None
   }"

partial_function (option) leftmost :: "('k, 'v, 'x) heap \<Rightarrow> ptr \<Rightarrow> ptr option" where
  "leftmost h n = do {
     l \<leftarrow> load h n left;
     if l \<noteq> None then leftmost h l else Some n
   }"

partial_function (option) rightmost :: "('k, 'v, 'x) heap \<Rightarrow> ptr \<Rightarrow> ptr option" where
  "rightmost h n = do {
     r \<leftarrow> load h n right;
     if r \<noteq> None then rightmost h r else Some n
   }"

definition subtree_min :: "('k, 'v, 'x) heap \<Rightarrow> ptr \<Rightarrow> ptr option" where
  "subtree_min h n = (if n = None then Some None else leftmost h n)"

text \<open>\<^verbatim>\<open>erase_node\<close> returns the parent at which rebalancing starts.\<close>

partial_function (option) erase_node :: "('k, 'v) map_t \<Rightarrow> ('k, 'v) mem \<Rightarrow> ptr \<Rightarrow>
    (ptr \<times> ('k, 'v) map_t \<times> ('k, 'v) mem) option" where
  "erase_node m s n =
     (if n = None then Some (None, m, s)
      else do {
        l \<leftarrow> load (nodes s) n left;
        r \<leftarrow> load (nodes s) n right;
        if l \<noteq> None \<and> r \<noteq> None then do {
          suc \<leftarrow> subtree_min (nodes s) r;
          tkey \<leftarrow> load (nodes s) n key;
          sk \<leftarrow> load (nodes s) suc key;
          h \<leftarrow> store (nodes s) n (\<lambda>nd. nd\<lparr>key := sk\<rparr>);
          h \<leftarrow> store h suc (\<lambda>nd. nd\<lparr>key := tkey\<rparr>);
          tval \<leftarrow> load h n value;
          sv \<leftarrow> load h suc value;
          h \<leftarrow> store h n (\<lambda>nd. nd\<lparr>value := sv\<rparr>);
          h \<leftarrow> store h suc (\<lambda>nd. nd\<lparr>value := tval\<rparr>);
          erase_node m (s\<lparr>nodes := h\<rparr>) suc
        } else do {
          let child = (if l \<noteq> None then l else r);
          parent_p \<leftarrow> load (nodes s) n parent;
          (m, h) \<leftarrow>
            (if parent_p = None then do {
               h \<leftarrow> (if child \<noteq> None then store (nodes s) child (\<lambda>nd. nd\<lparr>parent := None\<rparr>)
                     else Some (nodes s));
               Some (m\<lparr>root := child\<rparr>, h)
             } else do {
               pl \<leftarrow> load (nodes s) parent_p left;
               h \<leftarrow> (if pl = n then store (nodes s) parent_p (\<lambda>nd. nd\<lparr>left := child\<rparr>)
                     else store (nodes s) parent_p (\<lambda>nd. nd\<lparr>right := child\<rparr>));
               h \<leftarrow> (if child \<noteq> None then store h child (\<lambda>nd. nd\<lparr>parent := parent_p\<rparr>)
                     else Some h);
               Some (m, h)
             });
          s \<leftarrow> node_free m (s\<lparr>nodes := h\<rparr>) n;
          Some (parent_p, m\<lparr>size_f := size_f m - 1\<rparr>, s)
        }
      })"

text \<open>\<^verbatim>\<open>map_erase\<close> returns 1 (Erased) or 0 (NotFound).\<close>

definition map_erase :: "('k, 'v) mem \<Rightarrow> ('k, 'v) map_t option \<Rightarrow> 'k option \<Rightarrow>
    (int \<times> ('k, 'v) map_t option \<times> ('k, 'v) mem) option" where
  "map_erase s m k = (case m of None \<Rightarrow> Some (0, m, s)
     | Some M \<Rightarrow> do {
         n \<leftarrow> find_node (nodes s) m k;
         if n = None then Some (0, m, s)
         else do {
           (p, M, s) \<leftarrow> erase_node M s n;
           (M, h) \<leftarrow> rebalance_loop M (nodes s) p;
           h \<leftarrow> clear_root_parent M h;
           Some (1, Some M, s\<lparr>nodes := h\<rparr>)
         }
       })"

definition map_size :: "('k, 'v) map_t option \<Rightarrow> 64 word" where
  "map_size m = (case m of None \<Rightarrow> 0 | Some M \<Rightarrow> size_f M)"

partial_function (option) free_subtree :: "('k, 'v) map_t \<Rightarrow> ('k, 'v) mem \<Rightarrow> ptr \<Rightarrow>
    ('k, 'v) mem option" where
  "free_subtree m s n =
     (if n = None then Some s
      else do {
        l \<leftarrow> load (nodes s) n left;
        s \<leftarrow> free_subtree m s l;
        r \<leftarrow> load (nodes s) n right;
        s \<leftarrow> free_subtree m s r;
        node_free m s n
      })"

definition map_clear :: "('k, 'v) mem \<Rightarrow> ('k, 'v) map_t option \<Rightarrow>
    (('k, 'v) map_t option \<times> ('k, 'v) mem) option" where
  "map_clear s m = (case m of None \<Rightarrow> Some (m, s)
     | Some M \<Rightarrow> do {
         s \<leftarrow> free_subtree M s (root M);
         Some (Some (M\<lparr>root := None, size_f := 0\<rparr>), s)
       })"

text \<open>After \<^verbatim>\<open>map_destroy\<close> the structure is freed: no handle is left.\<close>

definition map_destroy :: "('k, 'v) mem \<Rightarrow> ('k, 'v) map_t option \<Rightarrow>
    (('k, 'v) map_t option \<times> ('k, 'v) mem) option" where
  "map_destroy s m = (case m of None \<Rightarrow> Some (m, s)
     | Some M \<Rightarrow> do {
         (_, s) \<leftarrow> map_clear s m;
         Some (None, s)
       })"

definition map_begin :: "('k, 'v) mem \<Rightarrow> ('k, 'v) map_t option \<Rightarrow> ptr option" where
  "map_begin s m = (case m of None \<Rightarrow> Some None | Some M \<Rightarrow> subtree_min (nodes s) (root M))"

definition map_end :: "('k, 'v) map_t option \<Rightarrow> ptr" where
  "map_end m = None"

partial_function (option) climb_right :: "('k, 'v, 'x) heap \<Rightarrow> ptr \<Rightarrow> ptr \<Rightarrow> ptr option" where
  "climb_right h p cur =
     (if p = None then Some p
      else do {
        pr \<leftarrow> load h p right;
        if pr = cur then do { pp \<leftarrow> load h p parent; climb_right h pp p }
        else Some p
      })"

partial_function (option) climb_left :: "('k, 'v, 'x) heap \<Rightarrow> ptr \<Rightarrow> ptr \<Rightarrow> ptr option" where
  "climb_left h p cur =
     (if p = None then Some p
      else do {
        pl \<leftarrow> load h p left;
        if pl = cur then do { pp \<leftarrow> load h p parent; climb_left h pp p }
        else Some p
      })"

definition map_next :: "('k, 'v, 'x) heap \<Rightarrow> ptr \<Rightarrow> ptr option" where
  "map_next h it =
     (if it = None then Some None
      else do {
        r \<leftarrow> load h it right;
        if r \<noteq> None then leftmost h r
        else do { p \<leftarrow> load h it parent; climb_right h p it }
      })"

definition map_prev :: "('k, 'v, 'x) heap \<Rightarrow> ptr \<Rightarrow> ptr option" where
  "map_prev h it =
     (if it = None then Some None
      else do {
        l \<leftarrow> load h it left;
        if l \<noteq> None then rightmost h l
        else do { p \<leftarrow> load h it parent; climb_left h p it }
      })"

definition map_iter_key :: "('k, 'v) dheap \<Rightarrow> ptr \<Rightarrow> 'k option option" where
  "map_iter_key h it = (if it \<noteq> None then load h it key else Some None)"

definition map_iter_value :: "('k, 'v) dheap \<Rightarrow> ptr \<Rightarrow> 'v option option" where
  "map_iter_value h it = (if it \<noteq> None then load h it value else Some None)"

section \<open>Verification of the tree operations\<close>

subsection \<open>Trees represented in the node store\<close>

text \<open>
  The shape the pointers draw in the store is described by a binary tree whose nodes carry
  the address of the heap node and its key, value and height fields.
\<close>

datatype ('k, 'v) lab = Lab (adr: addr) (lkey: 'k) (lval: 'v) (lht: int)

datatype 'a tree = Leaf | Node "'a tree" 'a "'a tree"

type_synonym ('k, 'v) ltree = "('k, 'v) lab tree"

fun inorder :: "'a tree \<Rightarrow> 'a list" where
  "inorder Leaf = []"
| "inorder (Node l x r) = inorder l @ x # inorder r"

definition addrs :: "('k, 'v) ltree \<Rightarrow> addr list" where
  "addrs t = map adr (inorder t)"

definition keys :: "('k, 'v) ltree \<Rightarrow> 'k list" where
  "keys t = map lkey (inorder t)"

fun rootp :: "('k, 'v) ltree \<Rightarrow> ptr" where
  "rootp Leaf = None"
| "rootp (Node l x r) = Some (adr x)"

fun ht :: "('k, 'v) ltree \<Rightarrow> int" where
  "ht Leaf = 0"
| "ht (Node l x r) = lht x"

text \<open>
  \<open>tree_at h par t\<close>: the nodes of \<open>t\<close> are live in \<open>h\<close> with the fields \<open>t\<close> gives them,
  the child pointers follow \<open>t\<close>, every node points back to its parent, and the root of
  \<open>t\<close> has the parent pointer \<open>par\<close>.
\<close>

fun tree_at :: "('k, 'v, 'x) heap \<Rightarrow> ptr \<Rightarrow> ('k, 'v) ltree \<Rightarrow> bool" where
  "tree_at h par Leaf = True"
| "tree_at h par (Node l x r) = (case h (adr x) of None \<Rightarrow> False
     | Some nd \<Rightarrow> key nd = lkey x \<and> value nd = lval x \<and> height nd = lht x \<and> parent nd = par \<and>
         left nd = rootp l \<and> right nd = rootp r \<and>
         tree_at h (Some (adr x)) l \<and> tree_at h (Some (adr x)) r)"

lemma addrs_simps [simp]:
  "addrs Leaf = []"
  "addrs (Node l x r) = addrs l @ adr x # addrs r"
  by (simp_all add: addrs_def)

lemma keys_simps [simp]:
  "keys Leaf = []"
  "keys (Node l x r) = keys l @ lkey x # keys r"
  by (simp_all add: keys_def)

lemma rootp_None_iff [simp]: "rootp t = None \<longleftrightarrow> t = Leaf"
  by (cases t) auto

lemma rootp_in_addrs: "rootp t = Some a \<Longrightarrow> a \<in> set (addrs t)"
  by (cases t) auto

lemma tree_at_Node_iff:
  "tree_at h par (Node l x r) \<longleftrightarrow> (\<exists>nd. h (adr x) = Some nd \<and> key nd = lkey x \<and> value nd = lval x \<and>
     height nd = lht x \<and> parent nd = par \<and> left nd = rootp l \<and> right nd = rootp r \<and>
     tree_at h (Some (adr x)) l \<and> tree_at h (Some (adr x)) r)"
  by (simp split: option.split)

declare tree_at.simps(2) [simp del]

lemma tree_at_NodeE:
  assumes "tree_at h par (Node l x r)"
  obtains nd where "h (adr x) = Some nd" "key nd = lkey x" "value nd = lval x"
    "height nd = lht x" "parent nd = par" "left nd = rootp l" "right nd = rootp r"
    "tree_at h (Some (adr x)) l" "tree_at h (Some (adr x)) r"
  using assms unfolding tree_at_Node_iff by blast

lemma tree_at_live: "tree_at h par t \<Longrightarrow> a \<in> set (addrs t) \<Longrightarrow> h a \<noteq> None"
  by (induction t arbitrary: par) (auto simp: tree_at_Node_iff)

lemma tree_at_frame:
  "tree_at h par t \<Longrightarrow> (\<And>a. a \<in> set (addrs t) \<Longrightarrow> h' a = h a) \<Longrightarrow> tree_at h' par t"
proof (induction t arbitrary: par)
  case Leaf
  then show ?case by simp
next
  case (Node l x r)
  from Node.prems(1) obtain nd where nd: "h (adr x) = Some nd" "key nd = lkey x" "value nd = lval x"
    "height nd = lht x" "parent nd = par" "left nd = rootp l" "right nd = rootp r"
    "tree_at h (Some (adr x)) l" "tree_at h (Some (adr x)) r"
    by (rule tree_at_NodeE)
  have "h' (adr x) = Some nd" using Node.prems(2) nd(1) by simp
  moreover have "tree_at h' (Some (adr x)) l" using Node.IH(1) [OF nd(8)] Node.prems(2) by simp
  moreover have "tree_at h' (Some (adr x)) r" using Node.IH(2) [OF nd(9)] Node.prems(2) by simp
  ultimately show ?case using nd by (simp add: tree_at_Node_iff)
qed

lemma tree_at_reparent:
  assumes "tree_at h par t" and "distinct (addrs t)" and "rootp t = Some a" and "h a = Some nd"
  shows "tree_at (h(a \<mapsto> nd\<lparr>parent := par'\<rparr>)) par' t"
proof (cases t)
  case Leaf
  with assms(3) show ?thesis by simp
next
  case (Node l x r)
  with assms(3) have a: "a = adr x" by simp
  from assms(1) have "tree_at h par (Node l x r)" using Node by simp
  then obtain nd0 where nd: "h (adr x) = Some nd0" "key nd0 = lkey x" "value nd0 = lval x"
    "height nd0 = lht x" "parent nd0 = par" "left nd0 = rootp l" "right nd0 = rootp r"
    "tree_at h (Some (adr x)) l" "tree_at h (Some (adr x)) r"
    by (rule tree_at_NodeE)
  from nd(1) assms(4) a have [simp]: "nd0 = nd" by simp
  from assms(2) Node have nin: "adr x \<notin> set (addrs l)" "adr x \<notin> set (addrs r)" by auto
  have "tree_at (h(a \<mapsto> nd\<lparr>parent := par'\<rparr>)) (Some (adr x)) l"
    by (rule tree_at_frame [OF nd(8)]) (use nin a in auto)
  moreover have "tree_at (h(a \<mapsto> nd\<lparr>parent := par'\<rparr>)) (Some (adr x)) r"
    by (rule tree_at_frame [OF nd(9)]) (use nin a in auto)
  ultimately show ?thesis using nd a Node by (simp add: tree_at_Node_iff)
qed

lemma node_height_tree: "tree_at h par t \<Longrightarrow> node_height h (rootp t) = Some (ht t)"
  by (cases t) (auto simp: node_height_def tree_at_Node_iff)

subsection \<open>What the helpers compute on trees\<close>

definition set_ht :: "('k, 'v) lab \<Rightarrow> int \<Rightarrow> ('k, 'v) lab" where
  "set_ht x n = Lab (adr x) (lkey x) (lval x) n"

text \<open>\<open>mk l x r\<close>: the node \<open>x\<close> above \<open>l\<close> and \<open>r\<close> after \<^verbatim>\<open>update_height\<close>.\<close>

definition mk :: "('k, 'v) ltree \<Rightarrow> ('k, 'v) lab \<Rightarrow> ('k, 'v) ltree \<Rightarrow> ('k, 'v) ltree" where
  "mk l x r = Node l (set_ht x (max (ht l) (ht r) + 1)) r"

fun rot_right :: "('k, 'v) ltree \<Rightarrow> ('k, 'v) ltree" where
  "rot_right (Node (Node ll x lr) y r) = mk ll x (mk lr y r)"
| "rot_right t = t"

fun rot_left :: "('k, 'v) ltree \<Rightarrow> ('k, 'v) ltree" where
  "rot_left (Node l x (Node rl y rr)) = mk (mk l x rl) y rr"
| "rot_left t = t"

lemma set_ht_simps [simp]:
  "adr (set_ht x n) = adr x" "lkey (set_ht x n) = lkey x" "lval (set_ht x n) = lval x"
  "lht (set_ht x n) = n"
  by (simp_all add: set_ht_def)

lemma mk_simps [simp]:
  "rootp (mk l x r) = Some (adr x)"
  "ht (mk l x r) = max (ht l) (ht r) + 1"
  "addrs (mk l x r) = addrs l @ adr x # addrs r"
  "keys (mk l x r) = keys l @ lkey x # keys r"
  by (simp_all add: mk_def)

lemma load_Some [simp]: "h a = Some nd \<Longrightarrow> load h (Some a) f = Some (f nd)"
  by (simp add: load_def)

lemma store_Some [simp]: "h a = Some nd \<Longrightarrow> store h (Some a) f = Some (h(a \<mapsto> f nd))"
  by (simp add: store_def)

lemma load_None [simp]: "load h None f = None"
  by (simp add: load_def)

lemma store_None [simp]: "store h None f = None"
  by (simp add: store_def)

lemma node_height_upd:
  "node_height (h(a \<mapsto> nd)) p = (if p = Some a then Some (height nd) else node_height h p)"
  by (auto simp: node_height_def split: option.split)

lemma node_height_None [simp]: "node_height h None = Some 0"
  by (simp add: node_height_def)

lemma if_gt_max: "(if hl > hr then hl else hr) = max hl (hr::int)"
  by (simp add: max_def)

lemma update_height_compute:
  assumes "h a = Some nd" and "node_height h (left nd) = Some hl" and "node_height h (right nd) = Some hr"
  shows "update_height h (Some a) = Some (h(a \<mapsto> nd\<lparr>height := max hl hr + 1\<rparr>))"
  using assms by (simp add: update_height_def if_gt_max)

lemma rotate_right_compute:
  assumes y: "h ya = Some ynd" "left ynd = Some xa"
    and x: "h xa = Some xnd"
    and ne: "xa \<noteq> ya"
    and T2: "right xnd = None \<or> (\<exists>za znd. right xnd = Some za \<and> h za = Some znd \<and> za \<noteq> xa \<and> za \<noteq> ya)"
    and hs: "node_height h (left xnd) = Some hll" "node_height h (right xnd) = Some hlr"
      "node_height h (right ynd) = Some hr"
    and nl: "left xnd \<noteq> Some xa" "left xnd \<noteq> Some ya" "right ynd \<noteq> Some xa" "right ynd \<noteq> Some ya"
      "left xnd \<noteq> right xnd \<or> left xnd = None" "right ynd \<noteq> right xnd \<or> right ynd = None"
  shows "\<exists>h'. rotate_right h (Some ya) = Some (Some xa, h') \<and>
     h' xa = Some (xnd\<lparr>right := Some ya, parent := parent ynd, height := max hll (max hlr hr + 1) + 1\<rparr>) \<and>
     h' ya = Some (ynd\<lparr>left := right xnd, parent := Some xa, height := max hlr hr + 1\<rparr>) \<and>
     (\<forall>a. a \<noteq> xa \<and> a \<noteq> ya \<longrightarrow>
        h' a = (if Some a = right xnd then map_option (\<lambda>nd. nd\<lparr>parent := Some ya\<rparr>) (h a) else h a))"
  using T2
proof
  assume n: "right xnd = None"
  show ?thesis
    using y x ne n hs nl
    by (simp add: rotate_right_def update_height_def node_height_upd if_gt_max)
next
  assume "\<exists>za znd. right xnd = Some za \<and> h za = Some znd \<and> za \<noteq> xa \<and> za \<noteq> ya"
  then obtain za znd where z: "right xnd = Some za" "h za = Some znd" "za \<noteq> xa" "za \<noteq> ya"
    by blast
  from hs(2) z have hz: "height znd = hlr" by (simp add: node_height_def)
  show ?thesis
    using y x ne z hs nl hz
    by (simp add: rotate_right_def update_height_def node_height_upd if_gt_max)
qed

lemma rotate_left_compute:
  assumes x: "h xa = Some xnd" "right xnd = Some ya"
    and y: "h ya = Some ynd"
    and ne: "xa \<noteq> ya"
    and T2: "left ynd = None \<or> (\<exists>za znd. left ynd = Some za \<and> h za = Some znd \<and> za \<noteq> xa \<and> za \<noteq> ya)"
    and hs: "node_height h (right ynd) = Some hrr" "node_height h (left ynd) = Some hrl"
      "node_height h (left xnd) = Some hl"
    and nl: "right ynd \<noteq> Some xa" "right ynd \<noteq> Some ya" "left xnd \<noteq> Some xa" "left xnd \<noteq> Some ya"
      "right ynd \<noteq> left ynd \<or> right ynd = None" "left xnd \<noteq> left ynd \<or> left xnd = None"
  shows "\<exists>h'. rotate_left h (Some xa) = Some (Some ya, h') \<and>
     h' ya = Some (ynd\<lparr>left := Some xa, parent := parent xnd, height := max (max hl hrl + 1) hrr + 1\<rparr>) \<and>
     h' xa = Some (xnd\<lparr>right := left ynd, parent := Some ya, height := max hl hrl + 1\<rparr>) \<and>
     (\<forall>a. a \<noteq> xa \<and> a \<noteq> ya \<longrightarrow>
        h' a = (if Some a = left ynd then map_option (\<lambda>nd. nd\<lparr>parent := Some xa\<rparr>) (h a) else h a))"
  using T2
proof
  assume n: "left ynd = None"
  show ?thesis
    using y x ne n hs nl
    by (simp add: rotate_left_def update_height_def node_height_upd if_gt_max)
next
  assume "\<exists>za znd. left ynd = Some za \<and> h za = Some znd \<and> za \<noteq> xa \<and> za \<noteq> ya"
  then obtain za znd where z: "left ynd = Some za" "h za = Some znd" "za \<noteq> xa" "za \<noteq> ya"
    by blast
  from hs(2) z have hz: "height znd = hrl" by (simp add: node_height_def)
  show ?thesis
    using y x ne z hs nl hz
    by (simp add: rotate_left_def update_height_def node_height_upd if_gt_max)
qed

lemma tree_at_mkI:
  assumes "h (adr x) = Some nd" and "key nd = lkey x" and "value nd = lval x"
    and "height nd = max (ht l) (ht r) + 1" and "parent nd = par"
    and "left nd = rootp l" and "right nd = rootp r"
    and "tree_at h (Some (adr x)) l" and "tree_at h (Some (adr x)) r"
  shows "tree_at h par (mk l x r)"
  using assms by (simp add: mk_def tree_at_Node_iff)

lemma tree_at_reparent_frame:
  assumes "tree_at h par t" and "distinct (addrs t)"
    and fr: "\<And>a. a \<in> set (addrs t) \<Longrightarrow>
      h' a = (if Some a = rootp t then map_option (\<lambda>nd. nd\<lparr>parent := par'\<rparr>) (h a) else h a)"
  shows "tree_at h' par' t"
proof (cases t)
  case Leaf
  then show ?thesis by simp
next
  case (Node l x r)
  from assms(1) have "tree_at h par (Node l x r)" using Node by simp
  then obtain nd where nd: "h (adr x) = Some nd" "key nd = lkey x" "value nd = lval x"
    "height nd = lht x" "parent nd = par" "left nd = rootp l" "right nd = rootp r"
    "tree_at h (Some (adr x)) l" "tree_at h (Some (adr x)) r"
    by (rule tree_at_NodeE)
  from assms(2) Node have nin: "adr x \<notin> set (addrs l)" "adr x \<notin> set (addrs r)" by auto
  have hx: "h' (adr x) = Some (nd\<lparr>parent := par'\<rparr>)"
    using fr [of "adr x"] Node nd(1) by simp
  have "tree_at h' (Some (adr x)) l"
    by (rule tree_at_frame [OF nd(8)]) (use nin Node fr in auto)
  moreover have "tree_at h' (Some (adr x)) r"
    by (rule tree_at_frame [OF nd(9)]) (use nin Node fr in auto)
  ultimately show ?thesis using nd hx Node by (simp add: tree_at_Node_iff)
qed

lemma rootp_cases:
  assumes "tree_at h par t"
  shows "rootp t = None \<or> (\<exists>za znd. rootp t = Some za \<and> h za = Some znd \<and> za \<in> set (addrs t))"
  using assms by (cases t) (auto simp: tree_at_Node_iff)

lemma rootp_not_in: "a \<notin> set (addrs t) \<Longrightarrow> rootp t \<noteq> Some a"
  using rootp_in_addrs by fastforce

lemma rootp_disjoint:
  "set (addrs t) \<inter> set (addrs u) = {} \<Longrightarrow> rootp t \<noteq> rootp u \<or> rootp t = None"
  by (cases t; cases u) auto

lemma rotate_right_tree:
  assumes t: "tree_at h par (Node (Node ll x lr) y r)"
    and d: "distinct (addrs (Node (Node ll x lr) y r))"
  shows "\<exists>h'. rotate_right h (Some (adr y)) = Some (Some (adr x), h') \<and>
     tree_at h' par (mk ll x (mk lr y r)) \<and>
     (\<forall>a. a \<notin> set (addrs (Node (Node ll x lr) y r)) \<longrightarrow> h' a = h a)"
proof -
  from t obtain ynd where y: "h (adr y) = Some ynd" "key ynd = lkey y" "value ynd = lval y"
    "height ynd = lht y" "parent ynd = par" "left ynd = rootp (Node ll x lr)" "right ynd = rootp r"
    and tx: "tree_at h (Some (adr y)) (Node ll x lr)" and tr: "tree_at h (Some (adr y)) r"
    by (rule tree_at_NodeE)
  from tx obtain xnd where x: "h (adr x) = Some xnd" "key xnd = lkey x" "value xnd = lval x"
    "height xnd = lht x" "parent xnd = Some (adr y)" "left xnd = rootp ll" "right xnd = rootp lr"
    and tll: "tree_at h (Some (adr x)) ll" and tlr: "tree_at h (Some (adr x)) lr"
    by (rule tree_at_NodeE)
  from d have ne: "adr x \<noteq> adr y"
    and nin: "adr x \<notin> set (addrs ll)" "adr x \<notin> set (addrs lr)" "adr x \<notin> set (addrs r)"
      "adr y \<notin> set (addrs ll)" "adr y \<notin> set (addrs lr)" "adr y \<notin> set (addrs r)"
    and dj: "set (addrs ll) \<inter> set (addrs lr) = {}" "set (addrs r) \<inter> set (addrs lr) = {}"
    and dlr: "distinct (addrs lr)"
    by auto
  have T2: "right xnd = None \<or>
      (\<exists>za znd. right xnd = Some za \<and> h za = Some znd \<and> za \<noteq> adr x \<and> za \<noteq> adr y)"
    using rootp_cases [OF tlr] nin x(7) by auto
  have "\<exists>h'. rotate_right h (Some (adr y)) = Some (Some (adr x), h') \<and>
     h' (adr x) = Some (xnd\<lparr>right := Some (adr y), parent := parent ynd,
        height := max (ht ll) (max (ht lr) (ht r) + 1) + 1\<rparr>) \<and>
     h' (adr y) = Some (ynd\<lparr>left := right xnd, parent := Some (adr x), height := max (ht lr) (ht r) + 1\<rparr>) \<and>
     (\<forall>a. a \<noteq> adr x \<and> a \<noteq> adr y \<longrightarrow>
        h' a = (if Some a = right xnd then map_option (\<lambda>nd. nd\<lparr>parent := Some (adr y)\<rparr>) (h a) else h a))"
  proof (rule rotate_right_compute [OF y(1) _ x(1) ne T2])
    show "left ynd = Some (adr x)" using y(6) by simp
    show "node_height h (left xnd) = Some (ht ll)" using node_height_tree [OF tll] x(6) by simp
    show "node_height h (right xnd) = Some (ht lr)" using node_height_tree [OF tlr] x(7) by simp
    show "node_height h (right ynd) = Some (ht r)" using node_height_tree [OF tr] y(7) by simp
    show "left xnd \<noteq> Some (adr x)" "left xnd \<noteq> Some (adr y)"
      using x(6) nin by (simp_all add: rootp_not_in)
    show "right ynd \<noteq> Some (adr x)" "right ynd \<noteq> Some (adr y)"
      using y(7) nin by (simp_all add: rootp_not_in)
    show "left xnd \<noteq> right xnd \<or> left xnd = None"
      using rootp_disjoint [OF dj(1)] x(6,7) by simp
    show "right ynd \<noteq> right xnd \<or> right ynd = None"
      using rootp_disjoint [OF dj(2)] x(7) y(7) by simp
  qed
  then obtain h' where rot: "rotate_right h (Some (adr y)) = Some (Some (adr x), h')"
    and hx: "h' (adr x) = Some (xnd\<lparr>right := Some (adr y), parent := parent ynd,
        height := max (ht ll) (max (ht lr) (ht r) + 1) + 1\<rparr>)"
    and hy: "h' (adr y) = Some (ynd\<lparr>left := right xnd, parent := Some (adr x),
        height := max (ht lr) (ht r) + 1\<rparr>)"
    and fr: "\<And>a. a \<noteq> adr x \<Longrightarrow> a \<noteq> adr y \<Longrightarrow>
        h' a = (if Some a = right xnd then map_option (\<lambda>nd. nd\<lparr>parent := Some (adr y)\<rparr>) (h a) else h a)"
    by blast
  have fr2: "h' a = h a" if "a \<noteq> adr x" "a \<noteq> adr y" "a \<notin> set (addrs lr)" for a
  proof -
    have "Some a \<noteq> right xnd" using that(3) x(7) rootp_in_addrs [of lr a] by auto
    then show ?thesis using fr [OF that(1,2)] by simp
  qed
  have tll': "tree_at h' (Some (adr x)) ll"
    by (rule tree_at_frame [OF tll]) (use nin dj in \<open>auto intro!: fr2\<close>)
  have tr': "tree_at h' (Some (adr y)) r"
    by (rule tree_at_frame [OF tr]) (use nin dj in \<open>auto intro!: fr2\<close>)
  have tlr': "tree_at h' (Some (adr y)) lr"
  proof (rule tree_at_reparent_frame [OF tlr dlr])
    fix a assume "a \<in> set (addrs lr)"
    then have "a \<noteq> adr x" "a \<noteq> adr y" using nin by auto
    then show "h' a = (if Some a = rootp lr
        then map_option (\<lambda>nd. nd\<lparr>parent := Some (adr y)\<rparr>) (h a) else h a)"
      using fr [of a] x(7) by simp
  qed
  have ty': "tree_at h' (Some (adr x)) (mk lr y r)"
    by (rule tree_at_mkI [where x = y and h = h', OF hy]) (use y x tlr' tr' in simp_all)
  have tx': "tree_at h' par (mk ll x (mk lr y r))"
    by (rule tree_at_mkI [where x = x and h = h', OF hx]) (use y x tll' ty' in simp_all)
  have "h' a = h a" if "a \<notin> set (addrs (Node (Node ll x lr) y r))" for a
    using that by (auto intro!: fr2)
  with rot tx' show ?thesis by blast
qed

lemma rotate_left_tree:
  assumes t: "tree_at h par (Node l x (Node rl y rr))"
    and d: "distinct (addrs (Node l x (Node rl y rr)))"
  shows "\<exists>h'. rotate_left h (Some (adr x)) = Some (Some (adr y), h') \<and>
     tree_at h' par (mk (mk l x rl) y rr) \<and>
     (\<forall>a. a \<notin> set (addrs (Node l x (Node rl y rr))) \<longrightarrow> h' a = h a)"
proof -
  from t obtain xnd where x: "h (adr x) = Some xnd" "key xnd = lkey x" "value xnd = lval x"
    "height xnd = lht x" "parent xnd = par" "left xnd = rootp l" "right xnd = rootp (Node rl y rr)"
    and tl: "tree_at h (Some (adr x)) l" and ty: "tree_at h (Some (adr x)) (Node rl y rr)"
    by (rule tree_at_NodeE)
  from ty obtain ynd where y: "h (adr y) = Some ynd" "key ynd = lkey y" "value ynd = lval y"
    "height ynd = lht y" "parent ynd = Some (adr x)" "left ynd = rootp rl" "right ynd = rootp rr"
    and trl: "tree_at h (Some (adr y)) rl" and trr: "tree_at h (Some (adr y)) rr"
    by (rule tree_at_NodeE)
  from d have ne: "adr x \<noteq> adr y"
    and nin: "adr x \<notin> set (addrs l)" "adr x \<notin> set (addrs rl)" "adr x \<notin> set (addrs rr)"
      "adr y \<notin> set (addrs l)" "adr y \<notin> set (addrs rl)" "adr y \<notin> set (addrs rr)"
    and dj: "set (addrs rr) \<inter> set (addrs rl) = {}" "set (addrs l) \<inter> set (addrs rl) = {}"
    and drl: "distinct (addrs rl)"
    by auto
  have T2: "left ynd = None \<or>
      (\<exists>za znd. left ynd = Some za \<and> h za = Some znd \<and> za \<noteq> adr x \<and> za \<noteq> adr y)"
    using rootp_cases [OF trl] nin y(6) by auto
  have "\<exists>h'. rotate_left h (Some (adr x)) = Some (Some (adr y), h') \<and>
     h' (adr y) = Some (ynd\<lparr>left := Some (adr x), parent := parent xnd,
        height := max (max (ht l) (ht rl) + 1) (ht rr) + 1\<rparr>) \<and>
     h' (adr x) = Some (xnd\<lparr>right := left ynd, parent := Some (adr y), height := max (ht l) (ht rl) + 1\<rparr>) \<and>
     (\<forall>a. a \<noteq> adr x \<and> a \<noteq> adr y \<longrightarrow>
        h' a = (if Some a = left ynd then map_option (\<lambda>nd. nd\<lparr>parent := Some (adr x)\<rparr>) (h a) else h a))"
  proof (rule rotate_left_compute [OF x(1) _ y(1) ne T2])
    show "right xnd = Some (adr y)" using x(7) by simp
    show "node_height h (right ynd) = Some (ht rr)" using node_height_tree [OF trr] y(7) by simp
    show "node_height h (left ynd) = Some (ht rl)" using node_height_tree [OF trl] y(6) by simp
    show "node_height h (left xnd) = Some (ht l)" using node_height_tree [OF tl] x(6) by simp
    show "right ynd \<noteq> Some (adr x)" "right ynd \<noteq> Some (adr y)"
      using y(7) nin by (simp_all add: rootp_not_in)
    show "left xnd \<noteq> Some (adr x)" "left xnd \<noteq> Some (adr y)"
      using x(6) nin by (simp_all add: rootp_not_in)
    show "right ynd \<noteq> left ynd \<or> right ynd = None"
      using rootp_disjoint [OF dj(1)] y(6,7) by simp
    show "left xnd \<noteq> left ynd \<or> left xnd = None"
      using rootp_disjoint [OF dj(2)] x(6) y(6) by simp
  qed
  then obtain h' where rot: "rotate_left h (Some (adr x)) = Some (Some (adr y), h')"
    and hy: "h' (adr y) = Some (ynd\<lparr>left := Some (adr x), parent := parent xnd,
        height := max (max (ht l) (ht rl) + 1) (ht rr) + 1\<rparr>)"
    and hx: "h' (adr x) = Some (xnd\<lparr>right := left ynd, parent := Some (adr y),
        height := max (ht l) (ht rl) + 1\<rparr>)"
    and fr: "\<And>a. a \<noteq> adr x \<Longrightarrow> a \<noteq> adr y \<Longrightarrow>
        h' a = (if Some a = left ynd then map_option (\<lambda>nd. nd\<lparr>parent := Some (adr x)\<rparr>) (h a) else h a)"
    by blast
  have fr2: "h' a = h a" if "a \<noteq> adr x" "a \<noteq> adr y" "a \<notin> set (addrs rl)" for a
  proof -
    have "Some a \<noteq> left ynd" using that(3) y(6) rootp_in_addrs [of rl a] by auto
    then show ?thesis using fr [OF that(1,2)] by simp
  qed
  have tl': "tree_at h' (Some (adr x)) l"
    by (rule tree_at_frame [OF tl]) (use nin dj in \<open>auto intro!: fr2\<close>)
  have trr': "tree_at h' (Some (adr y)) rr"
    by (rule tree_at_frame [OF trr]) (use nin dj in \<open>auto intro!: fr2\<close>)
  have trl': "tree_at h' (Some (adr x)) rl"
  proof (rule tree_at_reparent_frame [OF trl drl])
    fix a assume "a \<in> set (addrs rl)"
    then have "a \<noteq> adr x" "a \<noteq> adr y" using nin by auto
    then show "h' a = (if Some a = rootp rl
        then map_option (\<lambda>nd. nd\<lparr>parent := Some (adr x)\<rparr>) (h a) else h a)"
      using fr [of a] y(6) by simp
  qed
  have tx': "tree_at h' (Some (adr y)) (mk l x rl)"
    by (rule tree_at_mkI [where x = x and h = h', OF hx]) (use y x tl' trl' in simp_all)
  have ty': "tree_at h' par (mk (mk l x rl) y rr)"
    by (rule tree_at_mkI [where x = y and h = h', OF hy]) (use y x tx' trr' in simp_all)
  have "h' a = h a" if "a \<notin> set (addrs (Node l x (Node rl y rr)))" for a
    using that by (auto intro!: fr2)
  with rot ty' show ?thesis by blast
qed

text \<open>\<open>rebal l x r\<close>: what \<^verbatim>\<open>rebalance_at\<close> makes of the node \<open>x\<close> above \<open>l\<close> and \<open>r\<close>.\<close>

definition rebal :: "('k, 'v) ltree \<Rightarrow> ('k, 'v) lab \<Rightarrow> ('k, 'v) ltree \<Rightarrow> ('k, 'v) ltree" where
  "rebal l x r =
     (if ht l - ht r > 1 then
        (case l of Leaf \<Rightarrow> mk l x r
         | Node ll lx lr \<Rightarrow>
             if ht ll \<ge> ht lr then mk ll lx (mk lr x r)
             else (case lr of Leaf \<Rightarrow> mk l x r
                   | Node lrl ly lrr \<Rightarrow> mk (mk ll lx lrl) ly (mk lrr x r)))
      else if ht l - ht r < - 1 then
        (case r of Leaf \<Rightarrow> mk l x r
         | Node rl rx rr \<Rightarrow>
             if ht rr \<ge> ht rl then mk (mk l x rl) rx rr
             else (case rl of Leaf \<Rightarrow> mk l x r
                   | Node rll ry rlr \<Rightarrow> mk (mk l x rll) ry (mk rlr rx rr)))
      else mk l x r)"

text \<open>The rotations of \<^verbatim>\<open>rebalance_at\<close> dereference the heavy child and, for a double
  rotation, its inner child: they must exist.\<close>

definition rebal_pre :: "('k, 'v) ltree \<Rightarrow> ('k, 'v) ltree \<Rightarrow> bool" where
  "rebal_pre l r =
     ((ht l - ht r > 1 \<longrightarrow> (case l of Leaf \<Rightarrow> False
         | Node ll lx lr \<Rightarrow> ht ll < ht lr \<longrightarrow> lr \<noteq> Leaf)) \<and>
      (ht l - ht r < - 1 \<longrightarrow> (case r of Leaf \<Rightarrow> False
         | Node rl rx rr \<Rightarrow> ht rr < ht rl \<longrightarrow> rl \<noteq> Leaf)))"

lemma mk_set_ht [simp]: "mk l (set_ht x n) r = mk l x r"
  by (simp add: mk_def set_ht_def)

lemma addrs_rebal [simp]: "addrs (rebal l x r) = addrs l @ adr x # addrs r"
  by (simp add: rebal_def split: tree.split)

lemma keys_rebal [simp]: "keys (rebal l x r) = keys l @ lkey x # keys r"
  by (simp add: rebal_def split: tree.split)

lemma rebal_not_Leaf [simp]: "rebal l x r \<noteq> Leaf"
  by (simp add: rebal_def mk_def split: tree.split)

lemma tree_at_update_height:
  assumes t: "tree_at h par (Node l x r)" and d: "distinct (addrs (Node l x r))"
  shows "\<exists>h'. update_height h (Some (adr x)) = Some h' \<and> tree_at h' par (mk l x r) \<and>
     (\<forall>a. a \<noteq> adr x \<longrightarrow> h' a = h a)"
proof -
  from t obtain nd where nd: "h (adr x) = Some nd" "key nd = lkey x" "value nd = lval x"
    "height nd = lht x" "parent nd = par" "left nd = rootp l" "right nd = rootp r"
    and tl: "tree_at h (Some (adr x)) l" and tr: "tree_at h (Some (adr x)) r"
    by (rule tree_at_NodeE)
  define h' where "h' = h(adr x \<mapsto> nd\<lparr>height := max (ht l) (ht r) + 1\<rparr>)"
  have "update_height h (Some (adr x)) = Some h'"
    unfolding h'_def
    by (rule update_height_compute [where h = h and a = "adr x", OF nd(1)])
      (use node_height_tree [OF tl] node_height_tree [OF tr] nd in simp_all)
  moreover have fr: "h' a = h a" if "a \<noteq> adr x" for a using that by (simp add: h'_def)
  moreover have "tree_at h' par (mk l x r)"
  proof (rule tree_at_mkI [where nd = "nd\<lparr>height := max (ht l) (ht r) + 1\<rparr>" and h = h' and x = x])
    show "tree_at h' (Some (adr x)) l"
      by (rule tree_at_frame [OF tl]) (use d in \<open>auto intro!: fr\<close>)
    show "tree_at h' (Some (adr x)) r"
      by (rule tree_at_frame [OF tr]) (use d in \<open>auto intro!: fr\<close>)
  qed (use nd in \<open>simp_all add: h'_def\<close>)
  ultimately show ?thesis by blast
qed

lemma load_left_tree: "tree_at h par (Node l x r) \<Longrightarrow> load h (Some (adr x)) left = Some (rootp l)"
  by (auto simp: tree_at_Node_iff)

lemma load_right_tree: "tree_at h par (Node l x r) \<Longrightarrow> load h (Some (adr x)) right = Some (rootp r)"
  by (auto simp: tree_at_Node_iff)

lemma load_parent_tree: "tree_at h par (Node l x r) \<Longrightarrow> load h (Some (adr x)) parent = Some par"
  by (auto simp: tree_at_Node_iff)

lemma load_key_tree: "tree_at h par (Node l x r) \<Longrightarrow> load h (Some (adr x)) key = Some (lkey x)"
  by (auto simp: tree_at_Node_iff)

lemma load_value_tree: "tree_at h par (Node l x r) \<Longrightarrow> load h (Some (adr x)) value = Some (lval x)"
  by (auto simp: tree_at_Node_iff)

lemma tree_at_left: "tree_at h par (Node l x r) \<Longrightarrow> tree_at h (Some (adr x)) l"
  by (auto simp: tree_at_Node_iff)

lemma tree_at_right: "tree_at h par (Node l x r) \<Longrightarrow> tree_at h (Some (adr x)) r"
  by (auto simp: tree_at_Node_iff)

text \<open>Replacing the left or the right subtree of a node, and the child pointer with it.\<close>

lemma tree_at_set_left:
  assumes t: "tree_at h par (Node l x r)" and d: "adr x \<notin> set (addrs l')" "set (addrs l') \<inter> set (addrs r) = {}"
    and "adr x \<notin> set (addrs r)"
    and hx: "h (adr x) = Some nd"
    and tl': "tree_at h (Some (adr x)) l'"
  shows "tree_at (h(adr x \<mapsto> nd\<lparr>left := rootp l'\<rparr>)) par (Node l' x r)"
proof -
  from t obtain nd0 where nd: "h (adr x) = Some nd0" "key nd0 = lkey x" "value nd0 = lval x"
    "height nd0 = lht x" "parent nd0 = par" "left nd0 = rootp l" "right nd0 = rootp r"
    and tr: "tree_at h (Some (adr x)) r"
    by (auto elim: tree_at_NodeE)
  from nd(1) hx have [simp]: "nd0 = nd" by simp
  let ?h = "h(adr x \<mapsto> nd\<lparr>left := rootp l'\<rparr>)"
  have "tree_at ?h (Some (adr x)) l'"
    by (rule tree_at_frame [OF tl']) (use d in auto)
  moreover have "tree_at ?h (Some (adr x)) r"
    by (rule tree_at_frame [OF tr]) (use assms(4) in auto)
  ultimately show ?thesis using nd by (simp add: tree_at_Node_iff)
qed

lemma tree_at_set_right:
  assumes t: "tree_at h par (Node l x r)" and d: "adr x \<notin> set (addrs r')" "set (addrs r') \<inter> set (addrs l) = {}"
    and "adr x \<notin> set (addrs l)"
    and hx: "h (adr x) = Some nd"
    and tr': "tree_at h (Some (adr x)) r'"
  shows "tree_at (h(adr x \<mapsto> nd\<lparr>right := rootp r'\<rparr>)) par (Node l x r')"
proof -
  from t obtain nd0 where nd: "h (adr x) = Some nd0" "key nd0 = lkey x" "value nd0 = lval x"
    "height nd0 = lht x" "parent nd0 = par" "left nd0 = rootp l" "right nd0 = rootp r"
    and tl: "tree_at h (Some (adr x)) l"
    by (auto elim: tree_at_NodeE)
  from nd(1) hx have [simp]: "nd0 = nd" by simp
  let ?h = "h(adr x \<mapsto> nd\<lparr>right := rootp r'\<rparr>)"
  have "tree_at ?h (Some (adr x)) r'"
    by (rule tree_at_frame [OF tr']) (use d in auto)
  moreover have "tree_at ?h (Some (adr x)) l"
    by (rule tree_at_frame [OF tl]) (use assms(4) in auto)
  ultimately show ?thesis using nd by (simp add: tree_at_Node_iff)
qed

lemma store_parent_same:
  assumes "tree_at h par t" and "t \<noteq> Leaf"
  shows "store h (rootp t) (\<lambda>nd. nd\<lparr>parent := par\<rparr>) = Some h"
proof -
  from assms obtain l x r where t: "t = Node l x r" by (cases t) auto
  with assms(1) obtain nd where nd: "h (adr x) = Some nd" "parent nd = par"
    by (auto simp: tree_at_Node_iff)
  have "nd\<lparr>parent := par\<rparr> = nd" using nd(2) by (cases nd) simp
  then have "h(adr x \<mapsto> nd\<lparr>parent := par\<rparr>) = h" using nd(1) by (simp add: map_upd_triv)
  then show ?thesis using t nd(1) by simp
qed

lemma rebalance_at_tree:
  assumes t: "tree_at h par (Node l x r)" and d: "distinct (addrs (Node l x r))"
    and pre: "rebal_pre l r"
  shows "\<exists>h'. rebalance_at h (Some (adr x)) = Some (rootp (rebal l x r), h') \<and>
     tree_at h' par (rebal l x r) \<and>
     (\<forall>a. a \<notin> set (addrs (Node l x r)) \<longrightarrow> h' a = h a)"
proof -
  from tree_at_update_height [OF t d] obtain h1 where
    up: "update_height h (Some (adr x)) = Some h1" and t1: "tree_at h1 par (mk l x r)"
    and fr1: "\<And>a. a \<noteq> adr x \<Longrightarrow> h1 a = h a"
    by blast
  let ?x = "set_ht x (max (ht l) (ht r) + 1)"
  have t1': "tree_at h1 par (Node l ?x r)" using t1 by (simp add: mk_def)
  have tl: "tree_at h1 (Some (adr x)) l" and tr: "tree_at h1 (Some (adr x)) r"
    using tree_at_left [OF t1'] tree_at_right [OF t1'] by simp_all
  have ld: "load h1 (Some (adr x)) left = Some (rootp l)" "load h1 (Some (adr x)) right = Some (rootp r)"
    using load_left_tree [OF t1'] load_right_tree [OF t1'] by simp_all
  have nh: "node_height h1 (rootp l) = Some (ht l)" "node_height h1 (rootp r) = Some (ht r)"
    using node_height_tree [OF tl] node_height_tree [OF tr] by simp_all
  have d1: "distinct (addrs (Node l ?x r))" using d by simp
  have frame1: "h1 a = h a" if "a \<notin> set (addrs (Node l x r))" for a
    using that by (auto intro!: fr1)
  consider (left) "ht l - ht r > 1" | (right) "\<not> ht l - ht r > 1" "ht l - ht r < - 1"
    | (bal) "\<not> ht l - ht r > 1" "\<not> ht l - ht r < - 1"
    by linarith
  then show ?thesis
  proof cases
    case bal
    then have "rebalance_at h (Some (adr x)) = Some (Some (adr x), h1)"
      by (simp add: rebalance_at_def up ld nh)
    moreover have "rebal l x r = mk l x r" using bal by (simp add: rebal_def)
    ultimately show ?thesis using t1 frame1 by simp
  next
    case left
    with pre obtain ll lx lr where l: "l = Node ll lx lr" and inner: "ht ll < ht lr \<Longrightarrow> lr \<noteq> Leaf"
      by (auto simp: rebal_pre_def split: tree.splits)
    have tl': "tree_at h1 (Some (adr x)) (Node ll lx lr)" using tl l by simp
    have ldl: "load h1 (rootp l) left = Some (rootp ll)" "load h1 (rootp l) right = Some (rootp lr)"
      using load_left_tree [OF tl'] load_right_tree [OF tl'] l by simp_all
    have nhl: "node_height h1 (rootp ll) = Some (ht ll)" "node_height h1 (rootp lr) = Some (ht lr)"
      using node_height_tree [OF tree_at_left [OF tl']] node_height_tree [OF tree_at_right [OF tl']]
      by simp_all
    show ?thesis
    proof (cases "ht ll \<ge> ht lr")
      case True
      have "tree_at h1 par (Node (Node ll lx lr) ?x r)" using t1' l by simp
      moreover have "distinct (addrs (Node (Node ll lx lr) ?x r))" using d1 l by simp
      ultimately obtain h' where rot: "rotate_right h1 (Some (adr ?x)) = Some (Some (adr lx), h')"
        and t': "tree_at h' par (mk ll lx (mk lr ?x r))"
        and fr: "\<And>a. a \<notin> set (addrs (Node (Node ll lx lr) ?x r)) \<Longrightarrow> h' a = h1 a"
        using rotate_right_tree by blast
      have "rebalance_at h (Some (adr x)) = Some (Some (adr lx), h')"
        using left True rot by (simp add: rebalance_at_def up ld nh ldl nhl)
      moreover have "rebal l x r = mk ll lx (mk lr x r)" using left True l by (simp add: rebal_def)
      moreover have "h' a = h a" if "a \<notin> set (addrs (Node l x r))" for a
        using fr [of a] frame1 [of a] that l by simp
      ultimately show ?thesis using t' by simp
    next
      case False
      with inner obtain lrl ly lrr where lr: "lr = Node lrl ly lrr" by (cases lr) auto
      have tl2: "tree_at h1 (Some (adr x)) (Node ll lx (Node lrl ly lrr))" using tl' lr by simp
      have dl: "distinct (addrs (Node ll lx (Node lrl ly lrr)))" using d l lr by auto
      from rotate_left_tree [OF tl2 dl] obtain h2 where
        rot1: "rotate_left h1 (Some (adr lx)) = Some (Some (adr ly), h2)"
        and t2: "tree_at h2 (Some (adr x)) (mk (mk ll lx lrl) ly lrr)"
        and fr2: "\<And>a. a \<notin> set (addrs (Node ll lx (Node lrl ly lrr))) \<Longrightarrow> h2 a = h1 a"
        by blast
      let ?l' = "mk (mk ll lx lrl) ly lrr"
      let ?ly = "set_ht ly (max (ht (mk ll lx lrl)) (ht lrr) + 1)"
      have l'_eq: "?l' = Node (mk ll lx lrl) ?ly lrr" by (simp add: mk_def)
      have xnl: "adr x \<notin> set (addrs l)" "adr x \<notin> set (addrs r)"
        "set (addrs l) \<inter> set (addrs r) = {}" using d by auto
      have h2x: "h2 (adr x) = h1 (adr x)" using fr2 [of "adr x"] xnl l lr by simp
      from t1' obtain nd where nd: "h1 (adr x) = Some nd" "key nd = lkey x" "value nd = lval x"
        "height nd = max (ht l) (ht r) + 1" "parent nd = par" "left nd = rootp l" "right nd = rootp r"
        by (auto simp: tree_at_Node_iff)
      define h3 where "h3 = h2(adr x \<mapsto> nd\<lparr>left := Some (adr ly)\<rparr>)"
      have st: "store h2 (Some (adr x)) (\<lambda>nd. nd\<lparr>left := Some (adr ly)\<rparr>) = Some h3"
        using h2x nd(1) by (simp add: h3_def)
      have tl3: "tree_at h3 (Some (adr x)) ?l'"
      proof (rule tree_at_frame [OF t2])
        fix a assume "a \<in> set (addrs ?l')"
        then have "a \<in> set (addrs l)" using l lr by auto
        then have "a \<noteq> adr x" using xnl by auto
        then show "h3 a = h2 a" by (simp add: h3_def)
      qed
      have tr3: "tree_at h3 (Some (adr x)) r"
      proof (rule tree_at_frame [OF tr])
        fix a assume a: "a \<in> set (addrs r)"
        then have "a \<noteq> adr x" "a \<notin> set (addrs l)" using xnl by auto
        then show "h3 a = h1 a" using fr2 [of a] l lr by (simp add: h3_def)
      qed
      have t3: "tree_at h3 par (Node ?l' ?x r)"
        unfolding tree_at_Node_iff using nd tl3 tr3 by (simp add: h3_def)
      have ld3: "load h3 (Some (adr x)) left = Some (Some (adr ly))"
        by (simp add: h3_def)
      have st3: "store h3 (Some (adr ly)) (\<lambda>nd. nd\<lparr>parent := Some (adr x)\<rparr>) = Some h3"
        using store_parent_same [OF tl3] by (simp add: mk_def)
      have "tree_at h3 par (Node (Node (mk ll lx lrl) ?ly lrr) ?x r)" using t3 l'_eq by simp
      moreover have "distinct (addrs (Node (Node (mk ll lx lrl) ?ly lrr) ?x r))"
        using d l lr by auto
      ultimately obtain h' where rot: "rotate_right h3 (Some (adr ?x)) = Some (Some (adr ?ly), h')"
        and t': "tree_at h' par (mk (mk ll lx lrl) ?ly (mk lrr ?x r))"
        and fr: "\<And>a. a \<notin> set (addrs (Node (Node (mk ll lx lrl) ?ly lrr) ?x r)) \<Longrightarrow> h' a = h3 a"
        using rotate_right_tree by blast
      have "rebalance_at h (Some (adr x)) = Some (Some (adr ly), h')"
      proof -
        have "rotate_left h1 (rootp l) = Some (Some (adr ly), h2)" using rot1 l by simp
        then show ?thesis
          using left False rot st ld3 st3
          by (simp add: rebalance_at_def up ld nh ldl nhl)
      qed
      moreover have "rebal l x r = mk (mk ll lx lrl) ly (mk lrr x r)"
        using left False l lr by (simp add: rebal_def)
      moreover have "h' a = h a" if "a \<notin> set (addrs (Node l x r))" for a
      proof -
        have "h' a = h3 a" using fr [of a] that l lr by simp
        also have "h3 a = h2 a" using that by (simp add: h3_def)
        also have "h2 a = h1 a" using fr2 [of a] that l lr by simp
        also have "h1 a = h a" using frame1 [OF that] .
        finally show ?thesis .
      qed
      ultimately show ?thesis using t' by simp
    qed
  next
    case right
    with pre obtain rl rx rr where r: "r = Node rl rx rr" and inner: "ht rr < ht rl \<Longrightarrow> rl \<noteq> Leaf"
      by (auto simp: rebal_pre_def split: tree.splits)
    have tr': "tree_at h1 (Some (adr x)) (Node rl rx rr)" using tr r by simp
    have ldr: "load h1 (rootp r) left = Some (rootp rl)" "load h1 (rootp r) right = Some (rootp rr)"
      using load_left_tree [OF tr'] load_right_tree [OF tr'] r by simp_all
    have nhr: "node_height h1 (rootp rl) = Some (ht rl)" "node_height h1 (rootp rr) = Some (ht rr)"
      using node_height_tree [OF tree_at_left [OF tr']] node_height_tree [OF tree_at_right [OF tr']]
      by simp_all
    show ?thesis
    proof (cases "ht rr \<ge> ht rl")
      case True
      have "tree_at h1 par (Node l ?x (Node rl rx rr))" using t1' r by simp
      moreover have "distinct (addrs (Node l ?x (Node rl rx rr)))" using d1 r by simp
      ultimately obtain h' where rot: "rotate_left h1 (Some (adr ?x)) = Some (Some (adr rx), h')"
        and t': "tree_at h' par (mk (mk l ?x rl) rx rr)"
        and fr: "\<And>a. a \<notin> set (addrs (Node l ?x (Node rl rx rr))) \<Longrightarrow> h' a = h1 a"
        using rotate_left_tree by blast
      have "rebalance_at h (Some (adr x)) = Some (Some (adr rx), h')"
        using right True rot by (simp add: rebalance_at_def up ld nh ldr nhr)
      moreover have "rebal l x r = mk (mk l x rl) rx rr" using right True r by (simp add: rebal_def)
      moreover have "h' a = h a" if "a \<notin> set (addrs (Node l x r))" for a
        using fr [of a] frame1 [of a] that r by simp
      ultimately show ?thesis using t' by simp
    next
      case False
      with inner obtain rll ry rlr where rl: "rl = Node rll ry rlr" by (cases rl) auto
      have tr2: "tree_at h1 (Some (adr x)) (Node (Node rll ry rlr) rx rr)" using tr' rl by simp
      have dr: "distinct (addrs (Node (Node rll ry rlr) rx rr))" using d r rl by auto
      from rotate_right_tree [OF tr2 dr] obtain h2 where
        rot1: "rotate_right h1 (Some (adr rx)) = Some (Some (adr ry), h2)"
        and t2: "tree_at h2 (Some (adr x)) (mk rll ry (mk rlr rx rr))"
        and fr2: "\<And>a. a \<notin> set (addrs (Node (Node rll ry rlr) rx rr)) \<Longrightarrow> h2 a = h1 a"
        by blast
      let ?r' = "mk rll ry (mk rlr rx rr)"
      let ?ry = "set_ht ry (max (ht rll) (ht (mk rlr rx rr)) + 1)"
      have r'_eq: "?r' = Node rll ?ry (mk rlr rx rr)" by (simp add: mk_def)
      have xnl: "adr x \<notin> set (addrs l)" "adr x \<notin> set (addrs r)"
        "set (addrs l) \<inter> set (addrs r) = {}" using d by auto
      have h2x: "h2 (adr x) = h1 (adr x)" using fr2 [of "adr x"] xnl r rl by simp
      from t1' obtain nd where nd: "h1 (adr x) = Some nd" "key nd = lkey x" "value nd = lval x"
        "height nd = max (ht l) (ht r) + 1" "parent nd = par" "left nd = rootp l" "right nd = rootp r"
        by (auto simp: tree_at_Node_iff)
      define h3 where "h3 = h2(adr x \<mapsto> nd\<lparr>right := Some (adr ry)\<rparr>)"
      have st: "store h2 (Some (adr x)) (\<lambda>nd. nd\<lparr>right := Some (adr ry)\<rparr>) = Some h3"
        using h2x nd(1) by (simp add: h3_def)
      have tr3: "tree_at h3 (Some (adr x)) ?r'"
      proof (rule tree_at_frame [OF t2])
        fix a assume "a \<in> set (addrs ?r')"
        then have "a \<in> set (addrs r)" using r rl by auto
        then have "a \<noteq> adr x" using xnl by auto
        then show "h3 a = h2 a" by (simp add: h3_def)
      qed
      have tl3: "tree_at h3 (Some (adr x)) l"
      proof (rule tree_at_frame [OF tl])
        fix a assume a: "a \<in> set (addrs l)"
        then have "a \<noteq> adr x" "a \<notin> set (addrs r)" using xnl by auto
        then show "h3 a = h1 a" using fr2 [of a] r rl by (simp add: h3_def)
      qed
      have t3: "tree_at h3 par (Node l ?x ?r')"
        unfolding tree_at_Node_iff using nd tl3 tr3 by (simp add: h3_def)
      have ld3: "load h3 (Some (adr x)) right = Some (Some (adr ry))"
        by (simp add: h3_def)
      have st3: "store h3 (Some (adr ry)) (\<lambda>nd. nd\<lparr>parent := Some (adr x)\<rparr>) = Some h3"
        using store_parent_same [OF tr3] by (simp add: mk_def)
      have "tree_at h3 par (Node l ?x (Node rll ?ry (mk rlr rx rr)))" using t3 r'_eq by simp
      moreover have "distinct (addrs (Node l ?x (Node rll ?ry (mk rlr rx rr))))"
        using d r rl by auto
      ultimately obtain h' where rot: "rotate_left h3 (Some (adr ?x)) = Some (Some (adr ?ry), h')"
        and t': "tree_at h' par (mk (mk l ?x rll) ?ry (mk rlr rx rr))"
        and fr: "\<And>a. a \<notin> set (addrs (Node l ?x (Node rll ?ry (mk rlr rx rr)))) \<Longrightarrow> h' a = h3 a"
        using rotate_left_tree by blast
      have "rebalance_at h (Some (adr x)) = Some (Some (adr ry), h')"
      proof -
        have "rotate_right h1 (rootp r) = Some (Some (adr ry), h2)" using rot1 r by simp
        then show ?thesis
          using right False rot st ld3 st3
          by (simp add: rebalance_at_def up ld nh ldr nhr)
      qed
      moreover have "rebal l x r = mk (mk l x rll) ry (mk rlr rx rr)"
        using right False r rl by (simp add: rebal_def)
      moreover have "h' a = h a" if "a \<notin> set (addrs (Node l x r))" for a
      proof -
        have "h' a = h3 a" using fr [of a] that r rl by simp
        also have "h3 a = h2 a" using that by (simp add: h3_def)
        also have "h2 a = h1 a" using fr2 [of a] that r rl by simp
        also have "h1 a = h a" using frame1 [OF that] .
        finally show ?thesis .
      qed
      ultimately show ?thesis using t' by simp
    qed
  qed
qed

subsection \<open>The path from a node to the root\<close>

text \<open>
  A context is the path from a position in the tree up to the root, innermost frame
  first. A frame tells whether the position is the left child (\<open>True\<close>) or the right
  child of the node above it, and gives that node and its other subtree.
\<close>

type_synonym ('k, 'v) ctx = "(bool \<times> ('k, 'v) lab \<times> ('k, 'v) ltree) list"

fun plug :: "('k, 'v) ltree \<Rightarrow> ('k, 'v) ctx \<Rightarrow> ('k, 'v) ltree" where
  "plug s [] = s"
| "plug s ((d, x, sib) # c) = plug (if d then Node s x sib else Node sib x s) c"

text \<open>The node above the position, which is the parent pointer of the subtree there.\<close>

fun hp :: "('k, 'v) ctx \<Rightarrow> ptr" where
  "hp [] = None"
| "hp ((d, x, sib) # c) = Some (adr x)"

fun caddrs :: "('k, 'v) ctx \<Rightarrow> addr list" where
  "caddrs [] = []"
| "caddrs ((d, x, sib) # c) = adr x # addrs sib @ caddrs c"

text \<open>\<open>ctx_at h p c\<close>: the store holds the context \<open>c\<close> around the pointer \<open>p\<close>.\<close>

fun ctx_at :: "('k, 'v, 'x) heap \<Rightarrow> ptr \<Rightarrow> ('k, 'v) ctx \<Rightarrow> bool" where
  "ctx_at h p [] = True"
| "ctx_at h p ((d, x, sib) # c) = (case h (adr x) of None \<Rightarrow> False
     | Some nd \<Rightarrow> key nd = lkey x \<and> value nd = lval x \<and> height nd = lht x \<and> parent nd = hp c \<and>
         (if d then left nd = p \<and> right nd = rootp sib else left nd = rootp sib \<and> right nd = p) \<and>
         tree_at h (Some (adr x)) sib \<and> ctx_at h (Some (adr x)) c)"

text \<open>What the rebalancing loop makes of the subtree \<open>s\<close> in the context \<open>c\<close>.\<close>

fun rebal_up :: "('k, 'v) ltree \<Rightarrow> ('k, 'v) ctx \<Rightarrow> ('k, 'v) ltree" where
  "rebal_up s [] = s"
| "rebal_up s ((d, x, sib) # c) = rebal_up (if d then rebal s x sib else rebal sib x s) c"

fun ctx_pre :: "('k, 'v) ltree \<Rightarrow> ('k, 'v) ctx \<Rightarrow> bool" where
  "ctx_pre s [] = True"
| "ctx_pre s ((d, x, sib) # c) =
     (if d then rebal_pre s sib \<and> ctx_pre (rebal s x sib) c
      else rebal_pre sib s \<and> ctx_pre (rebal sib x s) c)"

lemma ctx_at_Cons_iff:
  "ctx_at h p ((d, x, sib) # c) \<longleftrightarrow> (\<exists>nd. h (adr x) = Some nd \<and> key nd = lkey x \<and> value nd = lval x \<and>
     height nd = lht x \<and> parent nd = hp c \<and>
     (if d then left nd = p \<and> right nd = rootp sib else left nd = rootp sib \<and> right nd = p) \<and>
     tree_at h (Some (adr x)) sib \<and> ctx_at h (Some (adr x)) c)"
  by (cases "h (adr x)") auto

declare ctx_at.simps(2) [simp del]

lemma ctx_at_frame:
  "ctx_at h p c \<Longrightarrow> (\<And>a. a \<in> set (caddrs c) \<Longrightarrow> h' a = h a) \<Longrightarrow> ctx_at h' p c"
proof (induction c arbitrary: p)
  case Nil
  then show ?case by simp
next
  case (Cons f c)
  obtain d x sib where f: "f = (d, x, sib)" by (cases f)
  from Cons.prems(1) f obtain nd where nd: "h (adr x) = Some nd" "key nd = lkey x" "value nd = lval x"
     "height nd = lht x" "parent nd = hp c"
     "if d then left nd = p \<and> right nd = rootp sib else left nd = rootp sib \<and> right nd = p"
     "tree_at h (Some (adr x)) sib" "ctx_at h (Some (adr x)) c"
    by (auto simp: ctx_at_Cons_iff)
  have "h' (adr x) = Some nd" using Cons.prems(2) [of "adr x"] nd(1) f by simp
  moreover have "tree_at h' (Some (adr x)) sib"
    by (rule tree_at_frame [OF nd(7)]) (use Cons.prems(2) f in auto)
  moreover have "ctx_at h' (Some (adr x)) c"
    by (rule Cons.IH [OF nd(8)]) (use Cons.prems(2) f in auto)
  ultimately show ?case using nd f by (simp add: ctx_at_Cons_iff)
qed

lemma plug_tree_at:
  "tree_at h None (plug s c) \<longleftrightarrow> tree_at h (hp c) s \<and> ctx_at h (rootp s) c"
proof (induction c arbitrary: s)
  case Nil
  then show ?case by simp
next
  case (Cons f c)
  obtain d x sib where f: "f = (d, x, sib)" by (cases f)
  show ?case
    unfolding f using Cons.IH [of "Node s x sib"] Cons.IH [of "Node sib x s"]
    by (auto simp: tree_at_Node_iff ctx_at_Cons_iff)
qed

lemma set_addrs_plug: "set (addrs (plug s c)) = set (addrs s) \<union> set (caddrs c)"
proof (induction c arbitrary: s)
  case Nil
  then show ?case by simp
next
  case (Cons f c)
  obtain d x sib where f: "f = (d, x, sib)" by (cases f)
  show ?case unfolding f using Cons.IH [of "Node s x sib"] Cons.IH [of "Node sib x s"] by auto
qed

lemma distinct_addrs_plug:
  "distinct (addrs (plug s c)) \<longleftrightarrow> distinct (addrs s @ caddrs c)"
proof (induction c arbitrary: s)
  case Nil
  then show ?case by simp
next
  case (Cons f c)
  obtain d x sib where f: "f = (d, x, sib)" by (cases f)
  show ?case unfolding f using Cons.IH [of "Node s x sib"] Cons.IH [of "Node sib x s"] by auto
qed

lemma rootp_plug_Cons: "rootp (plug s (f # c)) = rootp (plug s' (f # c))"
proof (induction c arbitrary: s s' f)
  case Nil
  then show ?case by (cases f) auto
next
  case (Cons g c)
  obtain d x sib where f: "f = (d, x, sib)" by (cases f)
  show ?case unfolding f using Cons [of "if d then Node s x sib else Node sib x s" g
      "if d then Node s' x sib else Node sib x s'"] by simp
qed

lemma addrs_rebal_up [simp]: "set (addrs (rebal_up s c)) = set (addrs s) \<union> set (caddrs c)"
proof (induction c arbitrary: s)
  case Nil
  then show ?case by simp
next
  case (Cons f c)
  obtain d x sib where f: "f = (d, x, sib)" by (cases f)
  show ?case unfolding f using Cons.IH [of "rebal s x sib"] Cons.IH [of "rebal sib x s"] by auto
qed

lemma hp_None_iff [simp]: "hp c = None \<longleftrightarrow> c = []"
  by (cases c) auto

lemma set_child_ctx:
  assumes c: "ctx_at h old c" and t: "tree_at h (hp c) t" and nl: "t \<noteq> Leaf"
    and d: "distinct (addrs t @ caddrs c)"
    and old: "old = Some a" "a \<notin> set (caddrs c)"
  shows "\<exists>h'. set_child m h (hp c) old (rootp t) = Some (if c = [] then m\<lparr>root := rootp t\<rparr> else m, h') \<and>
     tree_at h' (hp c) t \<and> ctx_at h' (rootp t) c \<and>
     (\<forall>a. a \<notin> set (caddrs c) \<longrightarrow> h' a = h a)"
proof (cases c)
  case Nil
  have "store h (rootp t) (\<lambda>nd. nd\<lparr>parent := None\<rparr>) = Some h"
    using store_parent_same [OF t nl] Nil by simp
  then have "set_child m h (hp c) old (rootp t) = Some (m\<lparr>root := rootp t\<rparr>, h)"
    using Nil nl by (simp add: set_child_def)
  then show ?thesis using Nil t by simp
next
  case (Cons f c')
  obtain dr y sib where f: "f = (dr, y, sib)" by (cases f)
  from c Cons f obtain nd where nd: "h (adr y) = Some nd" "key nd = lkey y" "value nd = lval y"
     "height nd = lht y" "parent nd = hp c'"
     "if dr then left nd = old \<and> right nd = rootp sib else left nd = rootp sib \<and> right nd = old"
     "tree_at h (Some (adr y)) sib" "ctx_at h (Some (adr y)) c'"
    by (auto simp: ctx_at_Cons_iff)
  have hpc: "hp c = Some (adr y)" using Cons f by simp
  from d Cons f have ynin: "adr y \<notin> set (addrs t)" "adr y \<notin> set (addrs sib)" "adr y \<notin> set (caddrs c')"
    by auto
  define nd' where "nd' = (if dr then nd\<lparr>left := rootp t\<rparr> else nd\<lparr>right := rootp t\<rparr>)"
  define h' where "h' = h(adr y \<mapsto> nd')"
  have fr: "h' b = h b" if "b \<noteq> adr y" for b using that by (simp add: h'_def)
  have neq: "\<not> dr \<Longrightarrow> left nd \<noteq> old"
  proof -
    assume "\<not> dr"
    then have "left nd = rootp sib" using nd(6) by simp
    moreover have "a \<notin> set (addrs sib)" using old(2) Cons f by simp
    ultimately show ?thesis using old(1) rootp_not_in [of a sib] by simp
  qed
  have st1: "(if left nd = old then store h (Some (adr y)) (\<lambda>nd. nd\<lparr>left := rootp t\<rparr>)
       else store h (Some (adr y)) (\<lambda>nd. nd\<lparr>right := rootp t\<rparr>)) = Some h'"
    using nd(1,6) neq by (cases dr) (simp_all add: h'_def nd'_def)
  have t': "tree_at h' (Some (adr y)) t"
    by (rule tree_at_frame [OF t [unfolded hpc]]) (use ynin in \<open>auto intro!: fr\<close>)
  have st2: "store h' (rootp t) (\<lambda>nd. nd\<lparr>parent := Some (adr y)\<rparr>) = Some h'"
    by (rule store_parent_same [OF t' nl])
  have sc: "set_child m h (hp c) old (rootp t) = Some (m, h')"
    using nl nd(1) st1 st2 by (simp add: set_child_def hpc)
  have sib': "tree_at h' (Some (adr y)) sib"
    by (rule tree_at_frame [OF nd(7)]) (use ynin in \<open>auto intro!: fr\<close>)
  have c': "ctx_at h' (Some (adr y)) c'"
    by (rule ctx_at_frame [OF nd(8)]) (use ynin in \<open>auto intro!: fr\<close>)
  have "ctx_at h' (rootp t) c"
    unfolding Cons f ctx_at_Cons_iff using nd sib' c' by (cases dr) (simp_all add: h'_def nd'_def)
  moreover have "h' b = h b" if "b \<notin> set (caddrs c)" for b
    using that Cons f by (auto intro!: fr)
  ultimately show ?thesis using sc t' hpc Cons by auto
qed

lemma rebalance_loop_tree:
  assumes "tree_at h (hp c) s" and "ctx_at h (rootp s) c" and "distinct (addrs s @ caddrs c)"
    and "ctx_pre s c" and "c = [] \<longrightarrow> root m = rootp s"
  shows "\<exists>h'. rebalance_loop m h (hp c) = Some (m\<lparr>root := rootp (rebal_up s c)\<rparr>, h') \<and>
     tree_at h' None (rebal_up s c) \<and>
     (\<forall>a. a \<notin> set (addrs s) \<union> set (caddrs c) \<longrightarrow> h' a = h a)"
  using assms
proof (induction c arbitrary: s h m)
  case Nil
  have "m\<lparr>root := rootp s\<rparr> = m" using Nil.prems(5) by simp
  then show ?case using Nil.prems(1) by (subst rebalance_loop.simps) simp
next
  case (Cons f c)
  obtain d x sib where f: "f = (d, x, sib)" by (cases f)
  define l where "l = (if d then s else sib)"
  define r where "r = (if d then sib else s)"
  from Cons.prems(2) f obtain nd where nd: "h (adr x) = Some nd" "key nd = lkey x" "value nd = lval x"
     "height nd = lht x" "parent nd = hp c"
     "if d then left nd = rootp s \<and> right nd = rootp sib else left nd = rootp sib \<and> right nd = rootp s"
     "tree_at h (Some (adr x)) sib" "ctx_at h (Some (adr x)) c"
    by (auto simp: ctx_at_Cons_iff)
  have ts: "tree_at h (Some (adr x)) s" using Cons.prems(1) f by simp
  have tn: "tree_at h (hp c) (Node l x r)"
    unfolding tree_at_Node_iff l_def r_def using nd ts by auto
  have dn: "distinct (addrs (Node l x r))" and dc: "distinct (caddrs c)"
    and dj: "set (addrs (Node l x r)) \<inter> set (caddrs c) = {}"
    using Cons.prems(3) f by (auto simp: l_def r_def)
  have pre: "rebal_pre l r" and pre': "ctx_pre (rebal l x r) c"
    using Cons.prems(4) f by (auto simp: l_def r_def)
  from rebalance_at_tree [OF tn dn pre] obtain h1 where
    rb: "rebalance_at h (Some (adr x)) = Some (rootp (rebal l x r), h1)"
    and t1: "tree_at h1 (hp c) (rebal l x r)"
    and fr1: "\<And>a. a \<notin> set (addrs (Node l x r)) \<Longrightarrow> h1 a = h a"
    by blast
  let ?t = "rebal l x r"
  have c1: "ctx_at h1 (Some (adr x)) c"
    by (rule ctx_at_frame [OF nd(8)]) (use dj in \<open>auto intro!: fr1\<close>)
  obtain l' x' r' where t'eq: "?t = Node l' x' r'" by (cases ?t) auto
  have lp: "load h1 (rootp ?t) parent = Some (hp c)"
    using load_parent_tree [of h1 "hp c" l' x' r'] t1 t'eq by simp
  have d1: "distinct (addrs ?t @ caddrs c)" using dn dc dj by auto
  have xn: "adr x \<notin> set (caddrs c)" using dj by auto
  from set_child_ctx [OF c1 t1 _ d1 refl xn, of m] obtain h2 where
    sc: "set_child m h1 (hp c) (Some (adr x)) (rootp ?t) =
      Some (if c = [] then m\<lparr>root := rootp ?t\<rparr> else m, h2)"
    and t2: "tree_at h2 (hp c) ?t" and c2: "ctx_at h2 (rootp ?t) c"
    and fr2: "\<And>a. a \<notin> set (caddrs c) \<Longrightarrow> h2 a = h1 a"
    by auto
  let ?m = "if c = [] then m\<lparr>root := rootp ?t\<rparr> else m"
  have lp2: "load h2 (rootp ?t) parent = Some (hp c)"
    using load_parent_tree [of h2 "hp c" l' x' r'] t2 t'eq by simp
  have "c = [] \<longrightarrow> root ?m = rootp ?t" by simp
  from Cons.IH [OF t2 c2 d1 pre' this] obtain h' where
    loop: "rebalance_loop ?m h2 (hp c) = Some (?m\<lparr>root := rootp (rebal_up ?t c)\<rparr>, h')"
    and t': "tree_at h' None (rebal_up ?t c)"
    and fr': "\<And>a. a \<notin> set (addrs ?t) \<union> set (caddrs c) \<Longrightarrow> h' a = h2 a"
    by blast
  have up: "rebal_up s (f # c) = rebal_up ?t c" by (simp add: f l_def r_def)
  have meq: "?m\<lparr>root := rootp (rebal_up ?t c)\<rparr> = m\<lparr>root := rootp (rebal_up ?t c)\<rparr>" by simp
  have "rebalance_loop m h (hp (f # c)) = Some (m\<lparr>root := rootp (rebal_up ?t c)\<rparr>, h')"
    by (subst rebalance_loop.simps) (simp add: f rb lp sc lp2 loop [unfolded meq])
  moreover have "h' a = h a" if "a \<notin> set (addrs s) \<union> set (caddrs (f # c))" for a
  proof -
    have a: "a \<notin> set (addrs (Node l x r))" "a \<notin> set (caddrs c)"
      using that f by (auto simp: l_def r_def)
    then have "h' a = h2 a" using fr' [of a] by simp
    also have "h2 a = h1 a" using fr2 a by simp
    also have "h1 a = h a" using fr1 a by simp
    finally show ?thesis .
  qed
  ultimately show ?case using t' up by auto
qed

subsection \<open>Searching\<close>

text \<open>\<open>lookup\<close> is the descent of \<^verbatim>\<open>find_node\<close> on the tree.\<close>

fun lookup :: "('k \<Rightarrow> 'k \<Rightarrow> int) \<Rightarrow> 'k \<Rightarrow> ('k, 'v) ltree \<Rightarrow> ('k, 'v) lab option" where
  "lookup c k Leaf = None"
| "lookup c k (Node l x r) =
     (if c k (lkey x) = 0 then Some x
      else if c k (lkey x) < 0 then lookup c k l else lookup c k r)"

text \<open>
  \<open>descend\<close> is the descent of \<^verbatim>\<open>map_insert\<close>: \<open>None\<close> when it meets an equal key, otherwise
  the path from the empty position it arrives at.
\<close>

fun descend :: "('k \<Rightarrow> 'k \<Rightarrow> int) \<Rightarrow> 'k \<Rightarrow> ('k, 'v) ltree \<Rightarrow> ('k, 'v) ctx \<Rightarrow> ('k, 'v) ctx option" where
  "descend c k Leaf acc = Some acc"
| "descend c k (Node l x r) acc =
     (if c k (lkey x) = 0 then None
      else if c k (lkey x) < 0 then descend c k l ((True, x, r) # acc)
      else descend c k r ((False, x, l) # acc))"

text \<open>The last comparison made on the path.\<close>

fun hv :: "('k \<Rightarrow> 'k \<Rightarrow> int) \<Rightarrow> 'k \<Rightarrow> ('k, 'v) ctx \<Rightarrow> int" where
  "hv c k [] = 0"
| "hv c k ((d, x, sib) # acc) = c k (lkey x)"

lemma find_node_loop_tree:
  "tree_at h par t \<Longrightarrow> find_node_loop h c k (rootp t) = Some (map_option adr (lookup c k t))"
proof (induction t arbitrary: par)
  case Leaf
  then show ?case by (subst find_node_loop.simps) simp
next
  case (Node l x r)
  note t = Node.prems
  have l: "find_node_loop h c k (rootp l) = Some (map_option adr (lookup c k l))"
    using Node.IH(1) [OF tree_at_left [OF t]] .
  have r: "find_node_loop h c k (rootp r) = Some (map_option adr (lookup c k r))"
    using Node.IH(2) [OF tree_at_right [OF t]] .
  show ?case
    by (subst find_node_loop.simps)
      (simp add: load_key_tree [OF t] load_left_tree [OF t] load_right_tree [OF t] l r Let_def)
qed

lemma insert_descend_tree:
  "tree_at h par t \<Longrightarrow>
   insert_descend h c k (hp acc) (rootp t) (hv c k acc) =
     Some (map_option (\<lambda>ctx. (hp ctx, hv c k ctx)) (descend c k t acc))"
proof (induction t arbitrary: par acc)
  case Leaf
  then show ?case by (subst insert_descend.simps) simp
next
  case (Node l x r)
  note t = Node.prems
  have l: "insert_descend h c k (Some (adr x)) (rootp l) (c k (lkey x)) =
      Some (map_option (\<lambda>ctx. (hp ctx, hv c k ctx)) (descend c k l ((True, x, r) # acc)))"
    using Node.IH(1) [OF tree_at_left [OF t], of "(True, x, r) # acc"] by simp
  have r: "insert_descend h c k (Some (adr x)) (rootp r) (c k (lkey x)) =
      Some (map_option (\<lambda>ctx. (hp ctx, hv c k ctx)) (descend c k r ((False, x, l) # acc)))"
    using Node.IH(2) [OF tree_at_right [OF t], of "(False, x, l) # acc"] by simp
  show ?case
    by (subst insert_descend.simps)
      (simp add: load_key_tree [OF t] load_left_tree [OF t] load_right_tree [OF t] l r Let_def)
qed

text \<open>A path on which every step went the way the comparison with \<open>k\<close> says.\<close>

definition path_ok :: "('k \<Rightarrow> 'k \<Rightarrow> int) \<Rightarrow> 'k \<Rightarrow> ('k, 'v) ctx \<Rightarrow> bool" where
  "path_ok c k ctx = list_all (\<lambda>(d, x, sib). c k (lkey x) \<noteq> 0 \<and> d = (c k (lkey x) < 0)) ctx"

lemma descend_plug:
  "descend c k t acc = Some ctx \<Longrightarrow> plug Leaf ctx = plug t acc"
  by (induction t arbitrary: acc) (auto split: if_splits)

lemma descend_path_ok:
  "descend c k t acc = Some ctx \<Longrightarrow> path_ok c k acc \<Longrightarrow> path_ok c k ctx"
  by (induction t arbitrary: acc) (auto simp: path_ok_def split: if_splits)

lemma descend_nonempty:
  "descend c k t acc = Some ctx \<Longrightarrow> t \<noteq> Leaf \<or> acc \<noteq> [] \<Longrightarrow> ctx \<noteq> []"
  by (induction t arbitrary: acc) (auto split: if_splits)

lemma descend_None_iff: "descend c k t acc = None \<longleftrightarrow> lookup c k t \<noteq> None"
  by (induction t arbitrary: acc) auto

subsection \<open>The in-order sequence around a position\<close>

fun ipre :: "('k, 'v) ctx \<Rightarrow> ('k, 'v) lab list" where
  "ipre [] = []"
| "ipre ((d, x, sib) # c) = (if d then ipre c else ipre c @ inorder sib @ [x])"

fun ipost :: "('k, 'v) ctx \<Rightarrow> ('k, 'v) lab list" where
  "ipost [] = []"
| "ipost ((d, x, sib) # c) = (if d then x # inorder sib @ ipost c else ipost c)"

lemma inorder_plug: "inorder (plug s c) = ipre c @ inorder s @ ipost c"
proof (induction c arbitrary: s)
  case Nil
  then show ?case by simp
next
  case (Cons f c)
  obtain d x sib where f: "f = (d, x, sib)" by (cases f)
  show ?case unfolding f using Cons.IH [of "Node s x sib"] Cons.IH [of "Node sib x s"] by simp
qed

lemma addrs_plug: "addrs (plug s c) = map adr (ipre c) @ addrs s @ map adr (ipost c)"
  by (simp add: addrs_def inorder_plug)

lemma keys_plug: "keys (plug s c) = map lkey (ipre c) @ keys s @ map lkey (ipost c)"
  by (simp add: keys_def inorder_plug)

lemma addrs_rebal_up_plug: "addrs (rebal_up s c) = addrs (plug s c)"
proof (induction c arbitrary: s)
  case Nil
  then show ?case by simp
next
  case (Cons f c)
  obtain d x sib where f: "f = (d, x, sib)" by (cases f)
  show ?case unfolding f using Cons.IH [of "rebal s x sib"] Cons.IH [of "rebal sib x s"]
    by (simp add: addrs_plug)
qed

lemma keys_rebal_up_plug: "keys (rebal_up s c) = keys (plug s c)"
proof (induction c arbitrary: s)
  case Nil
  then show ?case by simp
next
  case (Cons f c)
  obtain d x sib where f: "f = (d, x, sib)" by (cases f)
  show ?case unfolding f using Cons.IH [of "rebal s x sib"] Cons.IH [of "rebal sib x s"]
    by (simp add: keys_plug)
qed

lemma rebal_up_not_Leaf: "s \<noteq> Leaf \<Longrightarrow> rebal_up s c \<noteq> Leaf"
proof (induction c arbitrary: s)
  case Nil
  then show ?case by simp
next
  case (Cons f c)
  obtain d x sib where f: "f = (d, x, sib)" by (cases f)
  show ?case unfolding f using Cons.IH [of "rebal s x sib"] Cons.IH [of "rebal sib x s"] by simp
qed

lemma ctx_at_live: "ctx_at h p c \<Longrightarrow> a \<in> set (caddrs c) \<Longrightarrow> h a \<noteq> None"
proof (induction c arbitrary: p)
  case Nil
  then show ?case by simp
next
  case (Cons f c)
  obtain d x sib where f: "f = (d, x, sib)" by (cases f)
  from Cons.prems(1) f obtain nd where nd: "h (adr x) = Some nd"
     "tree_at h (Some (adr x)) sib" "ctx_at h (Some (adr x)) c"
    by (auto simp: ctx_at_Cons_iff)
  show ?case using Cons.prems(2) f nd Cons.IH [OF nd(3)] tree_at_live [OF nd(2)] by auto
qed

lemma clear_root_parent_tree:
  assumes "tree_at h None t" and "root m = rootp t"
  shows "clear_root_parent m h = Some h"
proof (cases t)
  case Leaf
  then show ?thesis using assms by (simp add: clear_root_parent_def)
next
  case (Node l x r)
  then show ?thesis
    using assms load_parent_tree [of h None l x r] by (simp add: clear_root_parent_def)
qed

text \<open>
  The end of \<^verbatim>\<open>map_insert\<close>, from the linking of the new node \<open>n\<close> below \<open>parent_p\<close> on.
\<close>

definition insert_tail :: "'m map_hdr_scheme \<Rightarrow> ('k, 'v, 'x) heap \<Rightarrow> ptr \<Rightarrow> ptr \<Rightarrow> int \<Rightarrow>
    ('m map_hdr_scheme \<times> ('k, 'v, 'x) heap) option" where
  "insert_tail m h n parent_p cmpv = do {
     h \<leftarrow> store h n (\<lambda>nd. nd\<lparr>parent := parent_p\<rparr>);
     h \<leftarrow> (if cmpv < 0 then store h parent_p (\<lambda>nd. nd\<lparr>left := n\<rparr>)
           else store h parent_p (\<lambda>nd. nd\<lparr>right := n\<rparr>));
     p \<leftarrow> load h n parent;
     (m, h) \<leftarrow> rebalance_loop (m\<lparr>size_f := size_f m + 1\<rparr>) h p;
     h \<leftarrow> clear_root_parent m h;
     Some (m, h)
   }"

lemma insert_tail_tree:
  assumes t: "tree_at h None (plug Leaf ctx)" and d: "distinct (addrs (plug Leaf ctx))"
    and ne: "ctx \<noteq> []"
    and po: "path_ok c k ctx" and cv: "cmpv = hv c k ctx"
    and fresh: "h (adr n) = None"
    and h0: "h0 (adr n) = Some nd" "\<And>b. b \<noteq> adr n \<Longrightarrow> h0 b = h b"
    and nd: "key nd = lkey n" "value nd = lval n" "height nd = 1" "left nd = None" "right nd = None"
    and n1: "lht n = 1"
    and pre: "ctx_pre (Node Leaf n Leaf) ctx"
  shows "\<exists>h'. insert_tail m h0 (Some (adr n)) (hp ctx) cmpv =
       Some (m\<lparr>root := rootp (rebal_up (Node Leaf n Leaf) ctx), size_f := size_f m + 1\<rparr>, h') \<and>
     tree_at h' None (rebal_up (Node Leaf n Leaf) ctx) \<and>
     distinct (addrs (rebal_up (Node Leaf n Leaf) ctx)) \<and>
     (\<forall>b. b \<noteq> adr n \<and> b \<notin> set (addrs (plug Leaf ctx)) \<longrightarrow> h' b = h b)"
proof -
  obtain dr y sib c' where ctx: "ctx = (dr, y, sib) # c'" using ne by (cases ctx) auto
  from t have ca: "ctx_at h None ctx" by (simp add: plug_tree_at)
  with ctx obtain ynd where y: "h (adr y) = Some ynd" "key ynd = lkey y" "value ynd = lval y"
     "height ynd = lht y" "parent ynd = hp c'"
     "if dr then left ynd = None \<and> right ynd = rootp sib else left ynd = rootp sib \<and> right ynd = None"
     "tree_at h (Some (adr y)) sib" "ctx_at h (Some (adr y)) c'"
    by (auto simp: ctx_at_Cons_iff)
  let ?a = "adr n"
  have an: "?a \<notin> set (caddrs ctx)" using ctx_at_live [OF ca, of ?a] fresh by auto
  then have ay: "?a \<noteq> adr y" "?a \<notin> set (addrs sib)" "?a \<notin> set (caddrs c')" using ctx by auto
  from d have dc: "distinct (caddrs ctx)" by (simp add: distinct_addrs_plug)
  then have yn: "adr y \<notin> set (addrs sib)" "adr y \<notin> set (caddrs c')" using ctx by auto
  from po ctx have dir: "dr = (c k (lkey y) < 0)" by (simp add: path_ok_def)
  have cv': "cmpv < 0 \<longleftrightarrow> dr" using cv ctx dir by simp
  define nd1 where "nd1 = nd\<lparr>parent := Some (adr y)\<rparr>"
  define ynd' where "ynd' = (if dr then ynd\<lparr>left := Some ?a\<rparr> else ynd\<lparr>right := Some ?a\<rparr>)"
  define h2 where "h2 = h0(?a \<mapsto> nd1, adr y \<mapsto> ynd')"
  have h0y: "h0 (adr y) = Some ynd" using h0(2) [of "adr y"] ay y(1) by simp
  define h1 where "h1 = h0(?a \<mapsto> nd1)"
  have st1: "store h0 (Some ?a) (\<lambda>nd. nd\<lparr>parent := hp ctx\<rparr>) = Some h1"
    using h0(1) by (simp add: ctx h1_def nd1_def)
  have st2: "(if cmpv < 0 then store h1 (hp ctx) (\<lambda>nd. nd\<lparr>left := Some ?a\<rparr>)
           else store h1 (hp ctx) (\<lambda>nd. nd\<lparr>right := Some ?a\<rparr>)) = Some h2"
    using h0y ay(1) cv' by (cases dr) (simp_all add: ctx h1_def h2_def ynd'_def)
  have fr2: "h2 b = h b" if "b \<noteq> ?a" "b \<noteq> adr y" for b
    using that h0(2) by (simp add: h2_def)
  have h2a: "h2 ?a = Some nd1" using ay(1) by (simp add: h2_def)
  have h2y: "h2 (adr y) = Some ynd'" by (simp add: h2_def)
  have tn: "tree_at h2 (hp ctx) (Node Leaf n Leaf)"
    unfolding tree_at_Node_iff using h2a nd n1 by (simp add: nd1_def ctx)
  have sib2: "tree_at h2 (Some (adr y)) sib"
    by (rule tree_at_frame [OF y(7)]) (use ay yn in \<open>auto intro!: fr2\<close>)
  have c2: "ctx_at h2 (Some (adr y)) c'"
    by (rule ctx_at_frame [OF y(8)]) (use ay yn in \<open>auto intro!: fr2\<close>)
  have cn: "ctx_at h2 (rootp (Node Leaf n Leaf)) ctx"
    unfolding ctx ctx_at_Cons_iff using h2y y sib2 c2 by (cases dr) (simp_all add: ynd'_def)
  have dn: "distinct (addrs (Node Leaf n Leaf) @ caddrs ctx)" using an dc by simp
  have lp: "load h2 (Some ?a) parent = Some (hp ctx)" using h2a by (simp add: nd1_def ctx)
  let ?m = "m\<lparr>size_f := size_f m + 1\<rparr>"
  let ?t = "rebal_up (Node Leaf n Leaf) ctx"
  from rebalance_loop_tree [OF tn cn dn pre, of ?m] ne obtain h' where
    loop: "rebalance_loop ?m h2 (hp ctx) = Some (?m\<lparr>root := rootp ?t\<rparr>, h')"
    and t': "tree_at h' None ?t"
    and fr': "\<And>b. b \<notin> set (addrs (Node Leaf n Leaf)) \<union> set (caddrs ctx) \<Longrightarrow> h' b = h2 b"
    by auto
  have crp: "clear_root_parent (?m\<lparr>root := rootp ?t\<rparr>) h' = Some h'"
    by (rule clear_root_parent_tree [OF t']) simp
  have "insert_tail m h0 (Some ?a) (hp ctx) cmpv =
      Some (m\<lparr>root := rootp ?t, size_f := size_f m + 1\<rparr>, h')"
    unfolding insert_tail_def by (simp add: st1 st2 lp loop crp)
  moreover have "distinct (addrs ?t)"
    using dn by (simp add: addrs_rebal_up_plug distinct_addrs_plug)
  moreover have "h' b = h b" if "b \<noteq> ?a" "b \<notin> set (addrs (plug Leaf ctx))" for b
  proof -
    have b: "b \<notin> set (caddrs ctx)" using that(2) by (simp add: set_addrs_plug)
    then have "b \<noteq> adr y" using ctx by auto
    then have "h2 b = h b" using fr2 that(1) by simp
    moreover have "h' b = h2 b" using fr' [of b] b that(1) by simp
    ultimately show ?thesis by simp
  qed
  ultimately show ?thesis using t' by blast
qed

subsection \<open>Balance\<close>

text \<open>
  \<open>avl t\<close>: at every node the heights of the two subtrees differ by at most one and the
  height field is one more than the larger of them, an absent child counting as 0.
\<close>

fun avl :: "('k, 'v) ltree \<Rightarrow> bool" where
  "avl Leaf = True"
| "avl (Node l x r) = (avl l \<and> avl r \<and> \<bar>ht l - ht r\<bar> \<le> 1 \<and> lht x = max (ht l) (ht r) + 1)"

lemma avl_ht_ge0: "avl t \<Longrightarrow> 0 \<le> ht t"
  by (induction t) auto

lemma avl_ht_Leaf: "avl t \<Longrightarrow> ht t \<le> 0 \<Longrightarrow> t = Leaf"
  using avl_ht_ge0 by (cases t) fastforce+

lemma avl_mk: "avl l \<Longrightarrow> avl r \<Longrightarrow> \<bar>ht l - ht r\<bar> \<le> 1 \<Longrightarrow> avl (mk l x r)"
  by (simp add: mk_def)

lemma avl_rebal_pre: assumes "avl l" "avl r" shows "rebal_pre l r"
proof -
  have "\<exists>ll lx lr. l = Node ll lx lr \<and> (ht ll < ht lr \<longrightarrow> lr \<noteq> Leaf)" if "ht l - ht r > 1"
  proof -
    have "ht l > 0" using that avl_ht_ge0 [OF assms(2)] by simp
    then obtain ll lx lr where l: "l = Node ll lx lr" by (cases l) auto
    have "avl ll" "avl lr" using assms(1) l by simp_all
    then have "ht ll < ht lr \<longrightarrow> lr \<noteq> Leaf" using avl_ht_ge0 [of ll] by auto
    then show ?thesis using l by simp
  qed
  moreover have "\<exists>rl rx rr. r = Node rl rx rr \<and> (ht rr < ht rl \<longrightarrow> rl \<noteq> Leaf)" if "ht l - ht r < - 1"
  proof -
    have "ht r > 0" using that avl_ht_ge0 [OF assms(1)] by simp
    then obtain rl rx rr where r: "r = Node rl rx rr" by (cases r) auto
    have "avl rl" "avl rr" using assms(2) r by simp_all
    then have "ht rr < ht rl \<longrightarrow> rl \<noteq> Leaf" using avl_ht_ge0 [of rr] by auto
    then show ?thesis using r by simp
  qed
  ultimately show ?thesis by (auto simp: rebal_pre_def split: tree.splits)
qed

lemma avl_rebal:
  assumes "avl l" and "avl r" and "\<bar>ht l - ht r\<bar> \<le> 2"
  shows "avl (rebal l x r) \<and>
    (ht (rebal l x r) = max (ht l) (ht r) + 1 \<or>
     (\<bar>ht l - ht r\<bar> = 2 \<and> ht (rebal l x r) = max (ht l) (ht r)))"
proof -
  consider (left) "ht l - ht r > 1" | (right) "ht l - ht r < - 1" | (bal) "\<bar>ht l - ht r\<bar> \<le> 1"
    by linarith
  then show ?thesis
  proof cases
    case bal
    then have "rebal l x r = mk l x r" by (auto simp: rebal_def)
    then show ?thesis using assms bal by (simp add: avl_mk)
  next
    case left
    then have "ht l > 0" using avl_ht_ge0 [OF assms(2)] by simp
    then obtain ll lx lr where l: "l = Node ll lx lr" by (cases l) auto
    have a: "avl ll" "avl lr" "\<bar>ht ll - ht lr\<bar> \<le> 1" "ht l = max (ht ll) (ht lr) + 1"
      using assms(1) l by simp_all
    show ?thesis
    proof (cases "ht ll \<ge> ht lr")
      case True
      then have "rebal l x r = mk ll lx (mk lr x r)" using left l by (simp add: rebal_def)
      then show ?thesis using a assms left True by (auto simp add: mk_def)
    next
      case False
      then have "ht lr > 0" using avl_ht_ge0 [OF a(1)] by simp
      then obtain lrl ly lrr where lr: "lr = Node lrl ly lrr" by (cases lr) auto
      have b: "avl lrl" "avl lrr" "\<bar>ht lrl - ht lrr\<bar> \<le> 1" "ht lr = max (ht lrl) (ht lrr) + 1"
        using a(2) lr by simp_all
      have "rebal l x r = mk (mk ll lx lrl) ly (mk lrr x r)"
        using left l lr False by (simp add: rebal_def)
      then show ?thesis using a b assms left False by (auto simp add: mk_def)
    qed
  next
    case right
    then have "ht r > 0" using avl_ht_ge0 [OF assms(1)] by simp
    then obtain rl rx rr where r: "r = Node rl rx rr" by (cases r) auto
    have a: "avl rl" "avl rr" "\<bar>ht rl - ht rr\<bar> \<le> 1" "ht r = max (ht rl) (ht rr) + 1"
      using assms(2) r by simp_all
    show ?thesis
    proof (cases "ht rr \<ge> ht rl")
      case True
      then have "rebal l x r = mk (mk l x rl) rx rr" using right r by (simp add: rebal_def)
      then show ?thesis using a assms right True by (auto simp add: mk_def)
    next
      case False
      then have "ht rl > 0" using avl_ht_ge0 [OF a(2)] by simp
      then obtain rll ry rlr where rl: "rl = Node rll ry rlr" by (cases rl) auto
      have b: "avl rll" "avl rlr" "\<bar>ht rll - ht rlr\<bar> \<le> 1" "ht rl = max (ht rll) (ht rlr) + 1"
        using a(1) rl by simp_all
      have "rebal l x r = mk (mk l x rll) ry (mk rlr rx rr)"
        using right r rl False by (simp add: rebal_def)
      then show ?thesis using a b assms right False by (auto simp add: mk_def)
    qed
  qed
qed

lemma avl_plug: "avl (plug t c) \<Longrightarrow> avl t"
proof (induction c arbitrary: t)
  case Nil
  then show ?case by simp
next
  case (Cons f c)
  obtain d x sib where f: "f = (d, x, sib)" by (cases f)
  show ?case using Cons.IH [of "if d then Node t x sib else Node sib x t"] Cons.prems f
    by (cases d) simp_all
qed

lemma avl_rebal_up:
  assumes "avl (plug s0 c)" and "avl s" and "\<bar>ht s - ht s0\<bar> \<le> 1"
  shows "avl (rebal_up s c) \<and> ctx_pre s c"
  using assms
proof (induction c arbitrary: s0 s)
  case Nil
  then show ?case by simp
next
  case (Cons f c)
  obtain d x sib where f: "f = (d, x, sib)" by (cases f)
  define l0 where "l0 = (if d then s0 else sib)"
  define r0 where "r0 = (if d then sib else s0)"
  define l where "l = (if d then s else sib)"
  define r where "r = (if d then sib else s)"
  have p0: "plug s0 (f # c) = plug (Node l0 x r0) c" by (simp add: f l0_def r0_def)
  then have a0: "avl (Node l0 x r0)" using Cons.prems(1) avl_plug by metis
  then have sib: "avl sib" and b0: "\<bar>ht s0 - ht sib\<bar> \<le> 1"
    and h0: "ht (Node l0 x r0) = max (ht s0) (ht sib) + 1"
    by (auto simp: l0_def r0_def split: if_splits)
  have al: "avl l" "avl r" using sib Cons.prems(2) by (simp_all add: l_def r_def)
  have b: "\<bar>ht l - ht r\<bar> \<le> 2" using b0 Cons.prems(3) by (auto simp: l_def r_def)
  from avl_rebal [OF al b, of x] have ar: "avl (rebal l x r)"
    and hr: "ht (rebal l x r) = max (ht l) (ht r) + 1 \<or>
     (\<bar>ht l - ht r\<bar> = 2 \<and> ht (rebal l x r) = max (ht l) (ht r))"
    by simp_all
  have hd: "\<bar>ht (rebal l x r) - ht (Node l0 x r0)\<bar> \<le> 1"
    using hr h0 b0 Cons.prems(3) by (auto simp: l_def r_def split: if_splits)
  have "avl (plug (Node l0 x r0) c)" using Cons.prems(1) p0 by simp
  from Cons.IH [OF this ar hd] have "avl (rebal_up (rebal l x r) c)" "ctx_pre (rebal l x r) c"
    by simp_all
  moreover have "rebal_pre l r" using avl_rebal_pre [OF al] .
  ultimately show ?case by (cases d) (simp_all add: f l_def r_def)
qed

subsection \<open>Order\<close>

text \<open>
  What the map asks of the comparator: the sign of \<open>c a b\<close> orders the keys as a strict
  weak order does, keys that compare as 0 being equivalent.
\<close>

definition cmp_ok :: "('k \<Rightarrow> 'k \<Rightarrow> int) \<Rightarrow> bool" where
  "cmp_ok c \<longleftrightarrow> (\<forall>a b. (c a b < 0) = (c b a > 0)) \<and>
     (\<forall>a b d. c a b < 0 \<longrightarrow> c b d < 0 \<longrightarrow> c a d < 0) \<and>
     (\<forall>a b d. c a b = 0 \<longrightarrow> c b d < 0 \<longrightarrow> c a d < 0)"

text \<open>The keys in symmetric order are strictly increasing.\<close>

definition sorted_keys :: "('k \<Rightarrow> 'k \<Rightarrow> int) \<Rightarrow> ('k, 'v) ltree \<Rightarrow> bool" where
  "sorted_keys c t = sorted_wrt (\<lambda>a b. c a b < 0) (keys t)"

text \<open>The search-tree property as the specification words it.\<close>

fun bst :: "('k \<Rightarrow> 'k \<Rightarrow> int) \<Rightarrow> ('k, 'v) ltree \<Rightarrow> bool" where
  "bst c Leaf = True"
| "bst c (Node l x r) = (bst c l \<and> bst c r \<and>
     (\<forall>k \<in> set (keys l). c k (lkey x) < 0) \<and> (\<forall>k \<in> set (keys r). c k (lkey x) > 0))"

lemma cmp_ok_flip: "cmp_ok c \<Longrightarrow> (c a b < 0) = (c b a > 0)"
  by (simp add: cmp_ok_def)

lemma cmp_ok_trans: "cmp_ok c \<Longrightarrow> c a b < 0 \<Longrightarrow> c b d < 0 \<Longrightarrow> c a d < 0"
  unfolding cmp_ok_def by blast

lemma cmp_ok_eq_lt: "cmp_ok c \<Longrightarrow> c a b = 0 \<Longrightarrow> c b d < 0 \<Longrightarrow> c a d < 0"
  unfolding cmp_ok_def by blast

lemma cmp_ok_sym: assumes "cmp_ok c" "c a b = 0" shows "c b a = 0"
proof -
  have "\<not> c b a > 0" "\<not> c b a < 0"
    using assms cmp_ok_flip [OF assms(1), of a b] cmp_ok_flip [OF assms(1), of b a] by auto
  then show ?thesis by simp
qed

lemma cmp_ok_lt_eq: assumes "cmp_ok c" "c a b < 0" "c b d = 0" shows "c a d < 0"
proof (rule ccontr)
  assume n: "\<not> c a d < 0"
  show False
  proof (cases "c a d = 0")
    case True
    then have "c d a = 0" using cmp_ok_sym [OF assms(1)] by simp
    then have "c d b < 0" using cmp_ok_eq_lt [OF assms(1) _ assms(2)] by simp
    moreover have "c d b = 0" using cmp_ok_sym [OF assms(1) assms(3)] .
    ultimately show False by simp
  next
    case False
    then have "c a d > 0" using n by simp
    then have "c d a < 0" using cmp_ok_flip [OF assms(1), of d a] by simp
    then have "c d b < 0" using cmp_ok_trans [OF assms(1) _ assms(2)] by simp
    moreover have "c d b = 0" using cmp_ok_sym [OF assms(1) assms(3)] .
    ultimately show False by simp
  qed
qed

lemma sorted_keys_Node:
  "sorted_keys c (Node l x r) \<longleftrightarrow> sorted_keys c l \<and> sorted_keys c r \<and>
     (\<forall>a \<in> set (keys l). c a (lkey x) < 0) \<and> (\<forall>b \<in> set (keys r). c (lkey x) b < 0) \<and>
     (\<forall>a \<in> set (keys l). \<forall>b \<in> set (keys r). c a b < 0)"
  by (auto simp: sorted_keys_def sorted_wrt_append)

lemma sorted_keys_bst: "cmp_ok c \<Longrightarrow> sorted_keys c t \<Longrightarrow> bst c t"
  by (induction t) (auto simp: sorted_keys_Node cmp_ok_flip)

lemma sorted_keys_plug:
  "sorted_keys c (plug s ctx) \<longleftrightarrow> sorted_wrt (\<lambda>a b. c a b < 0)
     (map lkey (ipre ctx) @ keys s @ map lkey (ipost ctx))"
  by (simp add: sorted_keys_def keys_plug)

lemma lookup_SomeD: "lookup c k t = Some x \<Longrightarrow> x \<in> set (inorder t) \<and> c k (lkey x) = 0"
  by (induction t) (auto split: if_splits)

lemma lookup_sorted:
  assumes ok: "cmp_ok c"
  shows "sorted_keys c t \<Longrightarrow> x \<in> set (inorder t) \<Longrightarrow> c k (lkey x) = 0 \<Longrightarrow> lookup c k t = Some x"
proof (induction t)
  case Leaf
  then show ?case by simp
next
  case (Node l y r)
  from Node.prems(1) have s: "sorted_keys c l" "sorted_keys c r"
    and ll: "\<And>a. a \<in> set (keys l) \<Longrightarrow> c a (lkey y) < 0"
    and rr: "\<And>b. b \<in> set (keys r) \<Longrightarrow> c (lkey y) b < 0"
    by (auto simp: sorted_keys_Node)
  have kx: "c (lkey x) k = 0" using cmp_ok_sym [OF ok Node.prems(3)] .
  have inl: "c k (lkey y) < 0" if "x \<in> set (inorder l)"
    using cmp_ok_eq_lt [OF ok Node.prems(3)] ll [of "lkey x"] that by (simp add: keys_def)
  have inr: "c k (lkey y) > 0" if "x \<in> set (inorder r)"
  proof -
    have "c (lkey y) (lkey x) < 0" using rr [of "lkey x"] that by (simp add: keys_def)
    then have "c (lkey y) k < 0" using cmp_ok_lt_eq [OF ok _ kx] by simp
    then show ?thesis using cmp_ok_flip [OF ok, of "lkey y" k] by simp
  qed
  consider "x = y" | "x \<in> set (inorder l)" | "x \<in> set (inorder r)"
    using Node.prems(2) by auto
  then show ?case
  proof cases
    case 1
    then show ?thesis using Node.prems(3) by simp
  next
    case 2
    then show ?thesis using inl Node.IH(1) [OF s(1) 2 Node.prems(3)] by simp
  next
    case 3
    then show ?thesis using inr Node.IH(2) [OF s(2) 3 Node.prems(3)] by simp
  qed
qed

lemma lookup_None_iff:
  assumes "cmp_ok c" and "sorted_keys c t"
  shows "lookup c k t = None \<longleftrightarrow> (\<forall>x \<in> set (inorder t). c k (lkey x) \<noteq> 0)"
  using lookup_sorted [OF assms] lookup_SomeD [of c k t] by (cases "lookup c k t") fastforce+

lemma descend_bounds:
  assumes ok: "cmp_ok c"
  shows "descend c k t acc = Some ctx \<Longrightarrow> sorted_keys c (plug t acc) \<Longrightarrow>
    (\<forall>a \<in> set (ipre acc). c (lkey a) k < 0) \<Longrightarrow> (\<forall>b \<in> set (ipost acc). c k (lkey b) < 0) \<Longrightarrow>
    (\<forall>a \<in> set (ipre ctx). c (lkey a) k < 0) \<and> (\<forall>b \<in> set (ipost ctx). c k (lkey b) < 0)"
proof (induction t arbitrary: acc)
  case Leaf
  then show ?case by simp
next
  case (Node l x r)
  have srt: "sorted_wrt (\<lambda>a b. c a b < 0)
     (map lkey (ipre acc) @ (keys l @ lkey x # keys r) @ map lkey (ipost acc))"
    using Node.prems(2) by (simp add: sorted_keys_plug)
  then have xr: "\<And>b. b \<in> set (inorder r) \<Longrightarrow> c (lkey x) (lkey b) < 0"
    and lx: "\<And>a. a \<in> set (inorder l) \<Longrightarrow> c (lkey a) (lkey x) < 0"
    by (auto simp: sorted_wrt_append keys_def)
  from Node.prems(1) have ne: "c k (lkey x) \<noteq> 0" by (auto split: if_splits)
  show ?case
  proof (cases "c k (lkey x) < 0")
    case True
    then have d: "descend c k l ((True, x, r) # acc) = Some ctx" using Node.prems(1) ne by simp
    have "\<forall>b \<in> set (ipost ((True, x, r) # acc)). c k (lkey b) < 0"
      using True xr Node.prems(4) cmp_ok_trans [OF ok True] by auto
    moreover have "\<forall>a \<in> set (ipre ((True, x, r) # acc)). c (lkey a) k < 0"
      using Node.prems(3) by simp
    moreover have "sorted_keys c (plug l ((True, x, r) # acc))" using Node.prems(2) by simp
    ultimately show ?thesis using Node.IH(1) [OF d] by blast
  next
    case False
    then have d: "descend c k r ((False, x, l) # acc) = Some ctx" using Node.prems(1) ne by simp
    have xk: "c (lkey x) k < 0" using False ne cmp_ok_flip [OF ok, of "lkey x" k] by simp
    have "\<forall>a \<in> set (ipre ((False, x, l) # acc)). c (lkey a) k < 0"
      using xk lx Node.prems(3) cmp_ok_trans [OF ok _ xk] by auto
    moreover have "\<forall>b \<in> set (ipost ((False, x, l) # acc)). c k (lkey b) < 0"
      using Node.prems(4) by simp
    moreover have "sorted_keys c (plug r ((False, x, l) # acc))" using Node.prems(2) by simp
    ultimately show ?thesis using Node.IH(2) [OF d] by blast
  qed
qed

lemma sorted_keys_insert:
  assumes ok: "cmp_ok c" and d: "descend c k t [] = Some ctx" and s: "sorted_keys c t"
    and kn: "\<And>a. c a (lkey n) = c a k" "\<And>b. c (lkey n) b = c k b"
  shows "sorted_keys c (rebal_up (Node Leaf n Leaf) ctx)"
proof -
  have p: "plug Leaf ctx = t" using descend_plug [OF d] by simp
  from descend_bounds [OF ok d] s have b: "\<forall>a \<in> set (ipre ctx). c (lkey a) k < 0"
    "\<forall>b \<in> set (ipost ctx). c k (lkey b) < 0" by simp_all
  have "sorted_wrt (\<lambda>a b. c a b < 0) (map lkey (ipre ctx) @ map lkey (ipost ctx))"
    using s p sorted_keys_plug [of c Leaf ctx] by simp
  then have "sorted_wrt (\<lambda>a b. c a b < 0) (map lkey (ipre ctx) @ [lkey n] @ map lkey (ipost ctx))"
    using b kn by (auto simp: sorted_wrt_append)
  then show ?thesis by (simp add: sorted_keys_def keys_rebal_up_plug keys_plug)
qed

subsection \<open>Entries\<close>

definition items :: "('k, 'v) ltree \<Rightarrow> (addr \<times> 'k \<times> 'v) list" where
  "items t = map (\<lambda>x. (adr x, lkey x, lval x)) (inorder t)"

lemma items_simps [simp]:
  "items Leaf = []"
  "items (Node l x r) = items l @ (adr x, lkey x, lval x) # items r"
  "items (mk l x r) = items l @ (adr x, lkey x, lval x) # items r"
  by (simp_all add: items_def mk_def)

lemma items_rebal [simp]: "items (rebal l x r) = items l @ (adr x, lkey x, lval x) # items r"
  by (simp add: rebal_def split: tree.split)

lemma items_plug:
  "items (plug s c) = map (\<lambda>x. (adr x, lkey x, lval x)) (ipre c) @ items s @
     map (\<lambda>x. (adr x, lkey x, lval x)) (ipost c)"
  by (simp add: items_def inorder_plug)

lemma items_rebal_up_plug: "items (rebal_up s c) = items (plug s c)"
proof (induction c arbitrary: s)
  case Nil
  then show ?case by simp
next
  case (Cons f c)
  obtain d x sib where f: "f = (d, x, sib)" by (cases f)
  show ?case unfolding f using Cons.IH [of "rebal s x sib"] Cons.IH [of "rebal sib x s"]
    by (simp add: items_plug)
qed

lemma addrs_items: "addrs t = map fst (items t)"
  by (simp add: addrs_def items_def comp_def)

lemma keys_items: "keys t = map (\<lambda>i. fst (snd i)) (items t)"
  by (simp add: keys_def items_def comp_def)

lemma length_items [simp]: "length (items t) = length (inorder t)"
  by (simp add: items_def)

subsection \<open>The invariant of the dynamic map\<close>

definition stored_key :: "('k, 'v) map_t \<Rightarrow> 'k option \<Rightarrow> 'k option" where
  "stored_key m k = (case key_dup m of Some d \<Rightarrow> d k | None \<Rightarrow> k)"

definition stored_val :: "('k, 'v) map_t \<Rightarrow> 'v option \<Rightarrow> 'v option" where
  "stored_val m v = (case val_dup m of Some d \<Rightarrow> d v | None \<Rightarrow> v)"

text \<open>A duplicated key compares as the key it was made from.\<close>

definition dup_ok :: "('k, 'v) map_t \<Rightarrow> bool" where
  "dup_ok m \<longleftrightarrow> (\<forall>a b. cmp m (stored_key m a) b = cmp m a b \<and> cmp m a (stored_key m b) = cmp m a b)"

text \<open>
  \<open>map_inv m s t\<close>: the nodes reachable from \<^verbatim>\<open>m->root\<close> form the tree \<open>t\<close> with consistent
  parent pointers, \<open>t\<close> is balanced with the height fields right, its keys are in order,
  and \<^verbatim>\<open>m->size\<close> counts its nodes.
\<close>

definition map_inv :: "('k, 'v) map_t \<Rightarrow> ('k, 'v) mem \<Rightarrow> ('k option, 'v option) ltree \<Rightarrow> bool" where
  "map_inv m s t \<longleftrightarrow> root m = rootp t \<and> tree_at (nodes s) None t \<and> distinct (addrs t) \<and>
     avl t \<and> sorted_keys (cmp m) t \<and> size_f m = of_nat (length (inorder t))"

lemma find_node_tree:
  assumes "tree_at (nodes s) None t" and "root m = rootp t"
  shows "find_node (nodes s) (Some m) k = Some (map_option adr (lookup (cmp m) k t))"
  using find_node_loop_tree [OF assms(1)] assms(2) by (simp add: find_node_def)

lemma tree_at_lookup:
  "tree_at h par t \<Longrightarrow> x \<in> set (inorder t) \<Longrightarrow>
   \<exists>nd. h (adr x) = Some nd \<and> key nd = lkey x \<and> value nd = lval x \<and> height nd = lht x"
  by (induction t arbitrary: par) (auto simp: tree_at_Node_iff)

lemma map_find_tree:
  assumes "tree_at (nodes s) None t" and "root m = rootp t"
  shows "map_find s (Some m) k = Some (case lookup (cmp m) k t of None \<Rightarrow> None | Some x \<Rightarrow> lval x)"
proof (cases "lookup (cmp m) k t")
  case None
  then show ?thesis using find_node_tree [OF assms] by (simp add: map_find_def)
next
  case (Some x)
  then have "x \<in> set (inorder t)" using lookup_SomeD by fastforce
  from tree_at_lookup [OF assms(1) this] show ?thesis
    using Some find_node_tree [OF assms] by (auto simp: map_find_def)
qed

lemma map_insert_unfold:
  "map_insert s (Some M) k v new_block =
     (if root M = None then
         (case node_new M (nodes s) new_block k v of
            (None, _) \<Rightarrow> Some (- 1, Some M, s)
          | (n, h) \<Rightarrow> Some (1, Some (M\<lparr>root := n, size_f := 1\<rparr>), s\<lparr>nodes := h\<rparr>))
       else do {
         found \<leftarrow> insert_descend (nodes s) (cmp M) k None (root M) 0;
         case found of None \<Rightarrow> Some (0, Some M, s)
         | Some (parent_p, cmpv) \<Rightarrow>
           (case node_new M (nodes s) new_block k v of
              (None, _) \<Rightarrow> Some (- 1, Some M, s)
            | (n, h) \<Rightarrow> do {
                (M, h) \<leftarrow> insert_tail M h n parent_p cmpv;
                Some (1, Some M, s\<lparr>nodes := h\<rparr>)
              })
       })"
  unfolding map_insert_def insert_tail_def
  by (auto split: option.splits prod.splits Option.bind_splits)

lemma insert_descend_root:
  assumes "tree_at h None t"
  shows "insert_descend h c k None (rootp t) 0 =
     Some (map_option (\<lambda>ctx. (hp ctx, hv c k ctx)) (descend c k t []))"
  using insert_descend_tree [OF assms, of c k "[]"] by simp

text \<open>An equal key is met: nothing is written.\<close>

lemma map_insert_present:
  assumes "tree_at (nodes s) None t" and "root m = rootp t" and "lookup (cmp m) k t = Some x"
  shows "map_insert s (Some m) k v new_block = Some (0, Some m, s)"
proof -
  have "t \<noteq> Leaf" using assms(3) by auto
  moreover have "descend (cmp m) k t [] = None" using assms(3) by (simp add: descend_None_iff)
  ultimately show ?thesis
    using insert_descend_root [OF assms(1), of "cmp m" k] assms(2)
    by (simp add: map_insert_unfold)
qed

text \<open>The key is new and \<^verbatim>\<open>malloc\<close> fails: nothing is written.\<close>

lemma map_insert_oom:
  assumes "tree_at (nodes s) None t" and "root m = rootp t" and "lookup (cmp m) k t = None"
  shows "map_insert s (Some m) k v None = Some (- 1, Some m, s)"
proof (cases t)
  case Leaf
  then show ?thesis using assms(2) by (simp add: map_insert_unfold node_new_def)
next
  case (Node l x r)
  obtain ctx where "descend (cmp m) k t [] = Some ctx"
    using assms(3) descend_None_iff [of "cmp m" k t "[]"] by (cases "descend (cmp m) k t []") auto
  then show ?thesis
    using insert_descend_root [OF assms(1), of "cmp m" k] assms(2) Node
    by (simp add: map_insert_unfold node_new_def)
qed

text \<open>The key is new and \<^verbatim>\<open>malloc\<close> returns the block \<open>a\<close>.\<close>

lemma map_insert_new:
  assumes inv: "map_inv m s t" and ok: "cmp_ok (cmp m)" and dup: "dup_ok m"
    and new: "lookup (cmp m) k t = None" and fresh: "nodes s a = None"
  shows "\<exists>m' s' t'. map_insert s (Some m) k v (Some a) = Some (1, Some m', s') \<and>
     map_inv m' s' t' \<and>
     m' = m\<lparr>root := rootp t', size_f := (if t = Leaf then 1 else size_f m + 1)\<rparr> \<and>
     key_freed s' = key_freed s \<and> val_freed s' = val_freed s \<and>
     (\<forall>b. b \<noteq> a \<and> b \<notin> set (addrs t) \<longrightarrow> nodes s' b = nodes s b) \<and>
     set (items t') = insert (a, stored_key m k, stored_val m v) (set (items t)) \<and>
     length (inorder t') = length (inorder t) + 1"
proof -
  from inv have rt: "root m = rootp t" and t: "tree_at (nodes s) None t" and d: "distinct (addrs t)"
    and av: "avl t" and so: "sorted_keys (cmp m) t" and sz: "size_f m = of_nat (length (inorder t))"
    by (simp_all add: map_inv_def)
  define n where "n = Lab a (stored_key m k) (stored_val m v) 1"
  define nd where "nd = \<lparr>key = stored_key m k, value = stored_val m v, left = None, right = None,
     parent = None, height = 1\<rparr>"
  define h0 where "h0 = (nodes s)(a \<mapsto> nd)"
  have nn: "node_new m (nodes s) (Some a) k v = (Some a, h0)"
    by (simp add: node_new_def h0_def nd_def stored_key_def stored_val_def)
  obtain ctx where desc: "descend (cmp m) k t [] = Some ctx"
    using new descend_None_iff [of "cmp m" k t "[]"] by (cases "descend (cmp m) k t []") auto
  have p: "plug Leaf ctx = t" using descend_plug [OF desc] by simp
  let ?t = "rebal_up (Node Leaf n Leaf) ctx"
  have an: "avl (Node Leaf n Leaf)" by (simp add: n_def)
  have "avl (plug Leaf ctx)" using av p by simp
  from avl_rebal_up [OF this an] have at': "avl ?t" and pre: "ctx_pre (Node Leaf n Leaf) ctx"
    by (simp_all add: n_def)
  have kn: "\<And>b. cmp m b (lkey n) = cmp m b k" "\<And>b. cmp m (lkey n) b = cmp m k b"
    using dup by (simp_all add: dup_ok_def n_def)
  have st': "sorted_keys (cmp m) ?t" by (rule sorted_keys_insert [OF ok desc so kn])
  have it: "set (items ?t) = insert (a, stored_key m k, stored_val m v) (set (items t))"
    using p [symmetric] by (simp add: items_rebal_up_plug items_plug n_def)
  have "length (items ?t) = length (items t) + 1"
    using p [symmetric] by (simp add: items_rebal_up_plug items_plug)
  then have len: "length (inorder ?t) = length (inorder t) + 1" by simp
  show ?thesis
  proof (cases t)
    case Leaf
    then have ctx: "ctx = []" using desc by simp
    have "tree_at h0 None (Node Leaf n Leaf)"
      by (simp add: tree_at_Node_iff h0_def nd_def n_def)
    moreover have "map_insert s (Some m) k v (Some a) =
        Some (1, Some (m\<lparr>root := Some a, size_f := 1\<rparr>), s\<lparr>nodes := h0\<rparr>)"
      using rt Leaf nn by (simp add: map_insert_unfold)
    moreover have "map_inv (m\<lparr>root := Some a, size_f := 1\<rparr>) (s\<lparr>nodes := h0\<rparr>) (Node Leaf n Leaf)"
      using calculation(1) an st' ctx by (simp add: map_inv_def n_def)
    ultimately show ?thesis using Leaf ctx it len by (auto simp: n_def h0_def)
  next
    case (Node l x r)
    then have ne: "ctx \<noteq> []" using descend_nonempty [OF desc] by simp
    have po: "path_ok (cmp m) k ctx" using descend_path_ok [OF desc] by (simp add: path_ok_def)
    have tp: "tree_at (nodes s) None (plug Leaf ctx)" and dp: "distinct (addrs (plug Leaf ctx))"
      using t d p by simp_all
    have "\<exists>h'. insert_tail m h0 (Some (adr n)) (hp ctx) (hv (cmp m) k ctx) =
       Some (m\<lparr>root := rootp ?t, size_f := size_f m + 1\<rparr>, h') \<and>
       tree_at h' None ?t \<and> distinct (addrs ?t) \<and>
       (\<forall>b. b \<noteq> adr n \<and> b \<notin> set (addrs (plug Leaf ctx)) \<longrightarrow> h' b = nodes s b)"
      by (rule insert_tail_tree [OF tp dp ne po refl, where nd = nd])
        (use fresh pre in \<open>simp_all add: n_def h0_def nd_def\<close>)
    then obtain h' where
      tail: "insert_tail m h0 (Some a) (hp ctx) (hv (cmp m) k ctx) =
         Some (m\<lparr>root := rootp ?t, size_f := size_f m + 1\<rparr>, h')"
      and t': "tree_at h' None ?t" and d': "distinct (addrs ?t)"
      and fr: "\<And>b. b \<noteq> a \<Longrightarrow> b \<notin> set (addrs t) \<Longrightarrow> h' b = nodes s b"
      using p by (auto simp: n_def)
    let ?m = "m\<lparr>root := rootp ?t, size_f := size_f m + 1\<rparr>"
    have "map_insert s (Some m) k v (Some a) = Some (1, Some ?m, s\<lparr>nodes := h'\<rparr>)"
      using rt Node nn desc insert_descend_root [OF t, of "cmp m" k] tail
      by (simp add: map_insert_unfold)
    moreover have "map_inv ?m (s\<lparr>nodes := h'\<rparr>) ?t"
      using t' d' at' st' sz len by (simp add: map_inv_def)
    ultimately show ?thesis using Node it len fr by auto
  qed
qed

subsection \<open>Replacing a value\<close>

definition set_val :: "addr \<Rightarrow> 'v \<Rightarrow> ('k, 'v) ltree \<Rightarrow> ('k, 'v) ltree" where
  "set_val a v t = map_tree (\<lambda>y. if adr y = a then Lab (adr y) (lkey y) v (lht y) else y) t"

lemma set_val_simps [simp]:
  "set_val a v Leaf = Leaf"
  "set_val a v (Node l y r) =
     Node (set_val a v l) (if adr y = a then Lab (adr y) (lkey y) v (lht y) else y) (set_val a v r)"
  by (simp_all add: set_val_def)

lemma set_val_props [simp]:
  "rootp (set_val a v t) = rootp t"
  "ht (set_val a v t) = ht t"
  "addrs (set_val a v t) = addrs t"
  "keys (set_val a v t) = keys t"
  "length (inorder (set_val a v t)) = length (inorder t)"
  by (induction t) auto

lemma avl_set_val [simp]: "avl (set_val a v t) = avl t"
  by (induction t) auto

lemma sorted_keys_set_val [simp]: "sorted_keys c (set_val a v t) = sorted_keys c t"
  by (simp add: sorted_keys_def)

lemma tree_at_set_val:
  "tree_at h par t \<Longrightarrow> h a = Some nd \<Longrightarrow> tree_at (h(a \<mapsto> nd\<lparr>value := v\<rparr>)) par (set_val a v t)"
  by (induction t arbitrary: par) (auto simp: tree_at_Node_iff)

lemma lookup_set_val:
  "lookup c k (set_val a v t) =
     map_option (\<lambda>y. if adr y = a then Lab (adr y) (lkey y) v (lht y) else y) (lookup c k t)"
  by (induction t) auto

lemma map_put_present:
  assumes inv: "map_inv m s t" and x: "lookup (cmp m) k t = Some x"
    and live: "\<not> reads_released m (lval x) v"
  shows "\<exists>nd. nodes s (adr x) = Some nd \<and> value nd = lval x \<and>
     map_put s (Some m) k v new_block = Some (2, Some m,
       s\<lparr>val_freed := (if val_free m then [lval x] else []) @ val_freed s,
         nodes := (nodes s)(adr x \<mapsto> nd\<lparr>value := stored_val m v\<rparr>)\<rparr>) \<and>
     map_inv m (s\<lparr>val_freed := (if val_free m then [lval x] else []) @ val_freed s,
         nodes := (nodes s)(adr x \<mapsto> nd\<lparr>value := stored_val m v\<rparr>)\<rparr>) (set_val (adr x) (stored_val m v) t)"
proof -
  from inv have rt: "root m = rootp t" and t: "tree_at (nodes s) None t" and d: "distinct (addrs t)"
    and av: "avl t" and so: "sorted_keys (cmp m) t" and sz: "size_f m = of_nat (length (inorder t))"
    by (simp_all add: map_inv_def)
  have "x \<in> set (inorder t)" using lookup_SomeD [OF x] by simp
  from tree_at_lookup [OF t this] obtain nd where nd: "nodes s (adr x) = Some nd" "value nd = lval x"
    by blast
  have fn: "find_node (nodes s) (Some m) k = Some (Some (adr x))"
    using find_node_tree [OF t rt, of k] x by simp
  have "map_put s (Some m) k v new_block = Some (2, Some m,
       s\<lparr>val_freed := (if val_free m then [lval x] else []) @ val_freed s,
         nodes := (nodes s)(adr x \<mapsto> nd\<lparr>value := stored_val m v\<rparr>)\<rparr>)"
    using fn nd live by (simp add: map_put_def stored_val_def Let_def split: option.split)
  moreover have "tree_at ((nodes s)(adr x \<mapsto> nd\<lparr>value := stored_val m v\<rparr>)) None
      (set_val (adr x) (stored_val m v) t)"
    by (rule tree_at_set_val [OF t nd(1)])
  ultimately show ?thesis using nd rt d av so sz by (simp add: map_inv_def)
qed

lemma map_put_released:
  assumes inv: "map_inv m s t" and x: "lookup (cmp m) k t = Some x"
    and dead: "reads_released m (lval x) v"
  shows "map_put s (Some m) k v new_block = None"
proof -
  from inv have rt: "root m = rootp t" and t: "tree_at (nodes s) None t"
    by (simp_all add: map_inv_def)
  have "x \<in> set (inorder t)" using lookup_SomeD [OF x] by simp
  from tree_at_lookup [OF t this] obtain nd where nd: "nodes s (adr x) = Some nd" "value nd = lval x"
    by blast
  have fn: "find_node (nodes s) (Some m) k = Some (Some (adr x))"
    using find_node_tree [OF t rt, of k] x by simp
  from dead have "val_dup m \<noteq> None" by (simp add: reads_released_def)
  then show ?thesis using fn nd dead by (auto simp: map_put_def Let_def)
qed

lemma map_put_absent:
  assumes "tree_at (nodes s) None t" and "root m = rootp t" and "lookup (cmp m) k t = None"
  shows "map_put s (Some m) k v new_block = map_insert s (Some m) k v new_block"
  using find_node_tree [OF assms(1,2), of k] assms(3) by (simp add: map_put_def)

subsection \<open>Unlinking a node\<close>

text \<open>
  The part of \<^verbatim>\<open>erase_node\<close> that puts \<open>child\<close> in the place of the node \<open>n\<close> below
  \<open>parent_p\<close>.
\<close>

definition unlink :: "'m map_hdr_scheme \<Rightarrow> ('k, 'v, 'x) heap \<Rightarrow> ptr \<Rightarrow> ptr \<Rightarrow> ptr \<Rightarrow>
    ('m map_hdr_scheme \<times> ('k, 'v, 'x) heap) option" where
  "unlink m h n child parent_p =
     (if parent_p = None then do {
        h \<leftarrow> (if child \<noteq> None then store h child (\<lambda>nd. nd\<lparr>parent := None\<rparr>) else Some h);
        Some (m\<lparr>root := child\<rparr>, h)
      } else do {
        pl \<leftarrow> load h parent_p left;
        h \<leftarrow> (if pl = n then store h parent_p (\<lambda>nd. nd\<lparr>left := child\<rparr>)
              else store h parent_p (\<lambda>nd. nd\<lparr>right := child\<rparr>));
        h \<leftarrow> (if child \<noteq> None then store h child (\<lambda>nd. nd\<lparr>parent := parent_p\<rparr>) else Some h);
        Some (m, h)
      })"

lemma store_reparent:
  assumes t: "tree_at h par t" and d: "distinct (addrs t)"
  shows "\<exists>h'. (if rootp t \<noteq> None then store h (rootp t) (\<lambda>nd. nd\<lparr>parent := par'\<rparr>) else Some h) = Some h' \<and>
     tree_at h' par' t \<and> (\<forall>b. rootp t \<noteq> Some b \<longrightarrow> h' b = h b)"
proof (cases t)
  case Leaf
  then show ?thesis by simp
next
  case (Node l x r)
  with t obtain nd where nd: "h (adr x) = Some nd" by (auto simp: tree_at_Node_iff)
  define h' where "h' = h(adr x \<mapsto> nd\<lparr>parent := par'\<rparr>)"
  have "tree_at h' par' t"
    by (rule tree_at_reparent_frame [OF t d]) (use Node nd in \<open>auto simp: h'_def\<close>)
  then show ?thesis using Node nd by (auto simp: h'_def)
qed

lemma unlink_ctx:
  assumes c: "ctx_at h (Some a) c" and t: "tree_at h (Some a) child"
    and d: "distinct (addrs child @ caddrs c)"
    and a: "a \<notin> set (caddrs c)"
  shows "\<exists>h'. unlink m h (Some a) (rootp child) (hp c) =
       Some (if c = [] then m\<lparr>root := rootp child\<rparr> else m, h') \<and>
     tree_at h' (hp c) child \<and> ctx_at h' (rootp child) c \<and>
     (\<forall>b. b \<notin> set (addrs child) \<union> set (caddrs c) \<longrightarrow> h' b = h b)"
proof (cases c)
  case Nil
  from d have dc: "distinct (addrs child)" by simp
  from store_reparent [OF t dc, of None] obtain h' where
    st: "(if rootp child \<noteq> None then store h (rootp child) (\<lambda>nd. nd\<lparr>parent := None\<rparr>) else Some h) = Some h'"
    and t': "tree_at h' None child" and fr: "\<And>b. rootp child \<noteq> Some b \<Longrightarrow> h' b = h b"
    by blast
  have "unlink m h (Some a) (rootp child) (hp c) = Some (m\<lparr>root := rootp child\<rparr>, h')"
    using st Nil by (simp add: unlink_def)
  moreover have "h' b = h b" if "b \<notin> set (addrs child)" for b
    using fr [of b] that rootp_not_in [of b child] by auto
  ultimately show ?thesis using Nil t' by auto
next
  case (Cons f c')
  obtain dr y sib where f: "f = (dr, y, sib)" by (cases f)
  from c Cons f obtain nd where nd: "h (adr y) = Some nd" "key nd = lkey y" "value nd = lval y"
     "height nd = lht y" "parent nd = hp c'"
     "if dr then left nd = Some a \<and> right nd = rootp sib else left nd = rootp sib \<and> right nd = Some a"
     "tree_at h (Some (adr y)) sib" "ctx_at h (Some (adr y)) c'"
    by (auto simp: ctx_at_Cons_iff)
  have hpc: "hp c = Some (adr y)" using Cons f by simp
  from d Cons f have ynin: "adr y \<notin> set (addrs child)" "adr y \<notin> set (addrs sib)" "adr y \<notin> set (caddrs c')"
    and dj: "set (addrs child) \<inter> set (addrs sib) = {}" "set (addrs child) \<inter> set (caddrs c') = {}"
    and dc: "distinct (addrs child)"
    by auto
  define nd' where "nd' = (if dr then nd\<lparr>left := rootp child\<rparr> else nd\<lparr>right := rootp child\<rparr>)"
  define h1 where "h1 = h(adr y \<mapsto> nd')"
  have fr1: "h1 b = h b" if "b \<noteq> adr y" for b using that by (simp add: h1_def)
  have neq: "\<not> dr \<Longrightarrow> left nd \<noteq> Some a"
  proof -
    assume "\<not> dr"
    then have "left nd = rootp sib" using nd(6) by simp
    moreover have "a \<notin> set (addrs sib)" using a Cons f by simp
    ultimately show ?thesis using rootp_not_in [of a sib] by simp
  qed
  have st1: "(if left nd = Some a then store h (Some (adr y)) (\<lambda>nd. nd\<lparr>left := rootp child\<rparr>)
       else store h (Some (adr y)) (\<lambda>nd. nd\<lparr>right := rootp child\<rparr>)) = Some h1"
    using nd(1,6) neq by (cases dr) (simp_all add: h1_def nd'_def)
  have t1: "tree_at h1 (Some a) child"
    by (rule tree_at_frame [OF t]) (use ynin in \<open>auto intro!: fr1\<close>)
  from store_reparent [OF t1 dc, of "Some (adr y)"] obtain h' where
    st2: "(if rootp child \<noteq> None then store h1 (rootp child) (\<lambda>nd. nd\<lparr>parent := Some (adr y)\<rparr>)
       else Some h1) = Some h'"
    and t': "tree_at h' (Some (adr y)) child" and fr2: "\<And>b. rootp child \<noteq> Some b \<Longrightarrow> h' b = h1 b"
    by blast
  have fr2': "h' b = h1 b" if "b \<notin> set (addrs child)" for b
    using fr2 [of b] that rootp_not_in [of b child] by auto
  have ul: "unlink m h (Some a) (rootp child) (hp c) = Some (m, h')"
    using nd(1) st1 st2 by (simp add: unlink_def hpc)
  have h'y: "h' (adr y) = Some nd'" using fr2' [of "adr y"] ynin by (simp add: h1_def)
  have sib': "tree_at h' (Some (adr y)) sib"
  proof (rule tree_at_frame [OF nd(7)])
    fix b assume "b \<in> set (addrs sib)"
    then have "b \<notin> set (addrs child)" "b \<noteq> adr y" using dj ynin by auto
    then show "h' b = h b" using fr2' fr1 by simp
  qed
  have c': "ctx_at h' (Some (adr y)) c'"
  proof (rule ctx_at_frame [OF nd(8)])
    fix b assume "b \<in> set (caddrs c')"
    then have "b \<notin> set (addrs child)" "b \<noteq> adr y" using dj ynin by auto
    then show "h' b = h b" using fr2' fr1 by simp
  qed
  have "ctx_at h' (rootp child) c"
    unfolding Cons f ctx_at_Cons_iff using nd sib' c' h'y by (cases dr) (simp_all add: nd'_def)
  moreover have "h' b = h b" if "b \<notin> set (addrs child) \<union> set (caddrs c)" for b
  proof -
    have "b \<notin> set (addrs child)" "b \<noteq> adr y" using that Cons f by auto
    then show ?thesis using fr2' fr1 by simp
  qed
  ultimately show ?thesis using ul t' hpc Cons by auto
qed

lemma erase_node_unfold:
  "erase_node m s n =
     (if n = None then Some (None, m, s)
      else do {
        l \<leftarrow> load (nodes s) n left;
        r \<leftarrow> load (nodes s) n right;
        if l \<noteq> None \<and> r \<noteq> None then do {
          suc \<leftarrow> subtree_min (nodes s) r;
          tkey \<leftarrow> load (nodes s) n key;
          sk \<leftarrow> load (nodes s) suc key;
          h \<leftarrow> store (nodes s) n (\<lambda>nd. nd\<lparr>key := sk\<rparr>);
          h \<leftarrow> store h suc (\<lambda>nd. nd\<lparr>key := tkey\<rparr>);
          tval \<leftarrow> load h n value;
          sv \<leftarrow> load h suc value;
          h \<leftarrow> store h n (\<lambda>nd. nd\<lparr>value := sv\<rparr>);
          h \<leftarrow> store h suc (\<lambda>nd. nd\<lparr>value := tval\<rparr>);
          erase_node m (s\<lparr>nodes := h\<rparr>) suc
        } else do {
          parent_p \<leftarrow> load (nodes s) n parent;
          (m, h) \<leftarrow> unlink m (nodes s) n (if l \<noteq> None then l else r) parent_p;
          s \<leftarrow> node_free m (s\<lparr>nodes := h\<rparr>) n;
          Some (parent_p, m\<lparr>size_f := size_f m - 1\<rparr>, s)
        }
      })"
  by (subst erase_node.simps) (simp add: unlink_def Let_def cong: if_cong)

text \<open>What \<^verbatim>\<open>node_free\<close> leaves of the memory when it frees the node \<open>x\<close>.\<close>

definition freed :: "('k, 'v) map_t \<Rightarrow> ('k option, 'v option) lab \<Rightarrow> ('k, 'v) dheap \<Rightarrow> ('k, 'v) mem \<Rightarrow> ('k, 'v) mem" where
  "freed m x h s = s\<lparr>
     key_freed := (if key_free m \<and> lkey x \<noteq> None then [lkey x] else []) @ key_freed s,
     val_freed := (if val_free m \<and> lval x \<noteq> None then [lval x] else []) @ val_freed s,
     nodes := h(adr x := None)\<rparr>"

lemma erase_node_simple:
  assumes t: "tree_at (nodes s) None (plug (Node l x r) c)"
    and d: "distinct (addrs (plug (Node l x r) c))"
    and one: "l = Leaf \<or> r = Leaf"
    and ch: "child = (if l \<noteq> Leaf then l else r)"
  shows "\<exists>h'. erase_node m s (Some (adr x)) =
       Some (hp c, (if c = [] then m\<lparr>root := rootp child\<rparr> else m)\<lparr>size_f := size_f m - 1\<rparr>,
             freed m x h' s) \<and>
     tree_at (h'(adr x := None)) (hp c) child \<and> ctx_at (h'(adr x := None)) (rootp child) c \<and>
     (\<forall>b. b \<notin> set (addrs (plug (Node l x r) c)) \<longrightarrow> h' b = nodes s b)"
proof -
  let ?h = "nodes s"
  from t have tn: "tree_at ?h (hp c) (Node l x r)" and ca: "ctx_at ?h (Some (adr x)) c"
    by (simp_all add: plug_tree_at)
  from tn obtain nd where nd: "?h (adr x) = Some nd" "key nd = lkey x" "value nd = lval x"
    "height nd = lht x" "parent nd = hp c" "left nd = rootp l" "right nd = rootp r"
    and tl: "tree_at ?h (Some (adr x)) l" and tr: "tree_at ?h (Some (adr x)) r"
    by (rule tree_at_NodeE)
  have tc: "tree_at ?h (Some (adr x)) child" using tl tr ch by simp
  from d have dd: "distinct (addrs (Node l x r) @ caddrs c)" by (simp add: distinct_addrs_plug)
  then have dc: "distinct (addrs child @ caddrs c)" and xc: "adr x \<notin> set (caddrs c)"
    and xch: "adr x \<notin> set (addrs child)"
    using ch by auto
  define m1 where "m1 = (if c = [] then m\<lparr>root := rootp child\<rparr> else m)"
  from unlink_ctx [OF ca tc dc xc, of m] obtain h' where
    ul: "unlink m ?h (Some (adr x)) (rootp child) (hp c) = Some (m1, h')"
    and t': "tree_at h' (hp c) child" and c': "ctx_at h' (rootp child) c"
    and fr: "\<And>b. b \<notin> set (addrs child) \<union> set (caddrs c) \<Longrightarrow> h' b = ?h b"
    unfolding m1_def by blast
  have h'x: "h' (adr x) = Some nd" using fr [of "adr x"] xc xch nd(1) by simp
  have m1: "key_free m1 = key_free m" "val_free m1 = val_free m" "size_f m1 = size_f m"
    by (simp_all add: m1_def)
  have nf: "node_free m1 (s\<lparr>nodes := h'\<rparr>) (Some (adr x)) = Some (freed m x h' s)"
    using h'x nd m1 by (simp add: node_free_def freed_def)
  have "erase_node m s (Some (adr x)) = Some (hp c, m1\<lparr>size_f := size_f m - 1\<rparr>, freed m x h' s)"
  proof (cases "l = Leaf")
    case True
    then have "child = r" using ch by simp
    then show ?thesis
      using True ul nf m1(3) by (subst erase_node_unfold) (simp add: nd)
  next
    case False
    then have "child = l" "r = Leaf" using ch one by simp_all
    then show ?thesis
      using False ul nf m1(3) by (subst erase_node_unfold) (simp add: nd)
  qed
  then have "erase_node m s (Some (adr x)) =
       Some (hp c, (if c = [] then m\<lparr>root := rootp child\<rparr> else m)\<lparr>size_f := size_f m - 1\<rparr>,
             freed m x h' s)"
    by (simp add: m1_def)
  moreover have "tree_at (h'(adr x := None)) (hp c) child"
    by (rule tree_at_frame [OF t']) (use xch in auto)
  moreover have "ctx_at (h'(adr x := None)) (rootp child) c"
    by (rule ctx_at_frame [OF c']) (use xc in auto)
  moreover have "h' b = ?h b" if "b \<notin> set (addrs (plug (Node l x r) c))" for b
    using fr [of b] that ch by (auto simp: set_addrs_plug)
  ultimately show ?thesis by blast
qed

subsection \<open>The in-order successor\<close>

text \<open>\<open>min_ctx t acc\<close>: the leftmost node of \<open>t\<close>, its right subtree and the path to it.\<close>

fun min_ctx :: "('k, 'v) ltree \<Rightarrow> ('k, 'v) ctx \<Rightarrow> (('k, 'v) lab \<times> ('k, 'v) ltree \<times> ('k, 'v) ctx) option" where
  "min_ctx Leaf acc = None"
| "min_ctx (Node l x r) acc = (if l = Leaf then Some (x, r, acc) else min_ctx l ((True, x, r) # acc))"

lemma min_ctx_Some: "t \<noteq> Leaf \<Longrightarrow> \<exists>z zr cz. min_ctx t acc = Some (z, zr, cz)"
  by (induction t arbitrary: acc) auto

lemma min_ctx_plug: "min_ctx t acc = Some (z, zr, cz) \<Longrightarrow> plug (Node Leaf z zr) cz = plug t acc"
  by (induction t arbitrary: acc) (auto split: if_splits)

lemma min_ctx_ipre: "min_ctx t acc = Some (z, zr, cz) \<Longrightarrow> ipre cz = ipre acc"
  by (induction t arbitrary: acc) (auto split: if_splits)

lemma leftmost_tree:
  "tree_at h par t \<Longrightarrow> min_ctx t acc = Some (z, zr, cz) \<Longrightarrow> leftmost h (rootp t) = Some (Some (adr z))"
proof (induction t arbitrary: par acc)
  case Leaf
  then show ?case by simp
next
  case (Node l x r)
  note t = Node.prems(1)
  show ?case
  proof (cases "l = Leaf")
    case True
    then show ?thesis using Node.prems(2) load_left_tree [OF t]
      by (subst leftmost.simps) simp
  next
    case False
    then have "min_ctx l ((True, x, r) # acc) = Some (z, zr, cz)" using Node.prems(2) by simp
    from Node.IH(1) [OF tree_at_left [OF t] this] show ?thesis
      using False load_left_tree [OF t] by (subst leftmost.simps) simp
  qed
qed

lemma plug_append: "plug s (c1 @ c2) = plug (plug s c1) c2"
  by (induction c1 arbitrary: s) auto

lemma caddrs_append [simp]: "caddrs (c1 @ c2) = caddrs c1 @ caddrs c2"
  by (induction c1) auto

lemma ipre_append: "ipre (c1 @ c2) = ipre c2 @ ipre c1"
  by (induction c1) auto

lemma ipost_append: "ipost (c1 @ c2) = ipost c1 @ ipost c2"
  by (induction c1) auto

lemma hp_append: "c1 \<noteq> [] \<Longrightarrow> hp (c1 @ c2) = hp c1"
  by (cases c1) auto

subsection \<open>Changing the key and value of a node\<close>

definition relab1 :: "addr \<Rightarrow> 'k \<Rightarrow> 'v \<Rightarrow> ('k, 'v) lab \<Rightarrow> ('k, 'v) lab" where
  "relab1 a k v y = (if adr y = a then Lab (adr y) k v (lht y) else y)"

definition relab :: "addr \<Rightarrow> 'k \<Rightarrow> 'v \<Rightarrow> ('k, 'v) ltree \<Rightarrow> ('k, 'v) ltree" where
  "relab a k v t = map_tree (relab1 a k v) t"

definition relab_ctx :: "addr \<Rightarrow> 'k \<Rightarrow> 'v \<Rightarrow> ('k, 'v) ctx \<Rightarrow> ('k, 'v) ctx" where
  "relab_ctx a k v c = map (\<lambda>(d, y, sib). (d, relab1 a k v y, relab a k v sib)) c"

lemma relab_simps [simp]:
  "relab a k v Leaf = Leaf"
  "relab a k v (Node l y r) = Node (relab a k v l) (relab1 a k v y) (relab a k v r)"
  by (simp_all add: relab_def)

lemma relab_ctx_simps [simp]:
  "relab_ctx a k v [] = []"
  "relab_ctx a k v ((d, y, sib) # c) = (d, relab1 a k v y, relab a k v sib) # relab_ctx a k v c"
  "relab_ctx a k v (c1 @ c2) = relab_ctx a k v c1 @ relab_ctx a k v c2"
  by (simp_all add: relab_ctx_def)

lemma relab1_simps [simp]:
  "adr (relab1 a k v y) = adr y" "lht (relab1 a k v y) = lht y"
  "adr y \<noteq> a \<Longrightarrow> relab1 a k v y = y"
  "relab1 (adr y) k v y = Lab (adr y) k v (lht y)"
  by (simp_all add: relab1_def)

lemma relab_props [simp]:
  "rootp (relab a k v t) = rootp t" "ht (relab a k v t) = ht t" "addrs (relab a k v t) = addrs t"
  by (induction t) auto

lemma avl_relab [simp]: "avl (relab a k v t) = avl t"
  by (induction t) auto

lemma relab_id: "a \<notin> set (addrs t) \<Longrightarrow> relab a k v t = t"
  by (induction t) auto

lemma relab_ctx_id: "a \<notin> set (caddrs c) \<Longrightarrow> relab_ctx a k v c = c"
  by (induction c) (auto simp: relab_id)

lemma relab_plug: "relab a k v (plug s c) = plug (relab a k v s) (relab_ctx a k v c)"
  by (induction c arbitrary: s) auto

lemma tree_at_relab:
  "tree_at h par t \<Longrightarrow> h a = Some nd \<Longrightarrow>
   tree_at (h(a \<mapsto> nd\<lparr>key := k, value := v\<rparr>)) par (relab a k v t)"
  by (induction t arbitrary: par) (auto simp: tree_at_Node_iff relab1_def)

text \<open>
  \<open>del_ctx l x r c\<close>: for the node \<open>x\<close> with the subtrees \<open>l\<close> and \<open>r\<close> at the position \<open>c\<close>,
  the subtree that takes the place of the node \<^verbatim>\<open>erase_node\<close> unlinks, the position of
  that node, and the node itself as it is when it is freed.
\<close>

definition del_ctx :: "('k, 'v) ltree \<Rightarrow> ('k, 'v) lab \<Rightarrow> ('k, 'v) ltree \<Rightarrow> ('k, 'v) ctx \<Rightarrow>
    ('k, 'v) ltree \<times> ('k, 'v) ctx \<times> ('k, 'v) lab" where
  "del_ctx l x r c =
     (if l \<noteq> Leaf \<and> r \<noteq> Leaf then
        (case min_ctx r [] of None \<Rightarrow> (Leaf, c, x)
         | Some (z, zr, cz) \<Rightarrow>
             (zr, cz @ (False, Lab (adr x) (lkey z) (lval z) (lht x), l) # c,
              Lab (adr z) (lkey x) (lval x) (lht z)))
      else (if l \<noteq> Leaf then l else r, c, x))"

lemma swap_stores:
  assumes x: "h ax = Some xnd" and z: "h az = Some znd" and ne: "ax \<noteq> az"
  shows "(do {
          tkey \<leftarrow> load h (Some ax) key;
          sk \<leftarrow> load h (Some az) key;
          h \<leftarrow> store h (Some ax) (\<lambda>nd. nd\<lparr>key := sk\<rparr>);
          h \<leftarrow> store h (Some az) (\<lambda>nd. nd\<lparr>key := tkey\<rparr>);
          tval \<leftarrow> load h (Some ax) value;
          sv \<leftarrow> load h (Some az) value;
          h \<leftarrow> store h (Some ax) (\<lambda>nd. nd\<lparr>value := sv\<rparr>);
          h \<leftarrow> store h (Some az) (\<lambda>nd. nd\<lparr>value := tval\<rparr>);
          f h
        }) = f (h(ax \<mapsto> xnd\<lparr>key := key znd, value := value znd\<rparr>,
                  az \<mapsto> znd\<lparr>key := key xnd, value := value xnd\<rparr>))"
proof -
  have "(h(ax \<mapsto> xnd\<lparr>key := key znd\<rparr>, az \<mapsto> znd\<lparr>key := key xnd\<rparr>,
           ax \<mapsto> xnd\<lparr>key := key znd, value := value znd\<rparr>,
           az \<mapsto> znd\<lparr>key := key xnd, value := value xnd\<rparr>)) =
        h(ax \<mapsto> xnd\<lparr>key := key znd, value := value znd\<rparr>,
          az \<mapsto> znd\<lparr>key := key xnd, value := value xnd\<rparr>)"
    by (rule ext) (use ne in simp)
  then show ?thesis using x z ne by simp
qed

lemma erase_node_two:
  assumes t: "tree_at (nodes s) None (plug (Node l x r) c)"
    and d: "distinct (addrs (plug (Node l x r) c))"
    and two: "l \<noteq> Leaf" "r \<noteq> Leaf"
    and mc: "min_ctx r [] = Some (z, zr, cz)"
    and x': "x' = Lab (adr x) (lkey z) (lval z) (lht x)"
    and z': "z' = Lab (adr z) (lkey x) (lval x) (lht z)"
    and c': "c' = cz @ (False, x', l) # c"
  shows "\<exists>h1. erase_node m s (Some (adr x)) = erase_node m (s\<lparr>nodes := h1\<rparr>) (Some (adr z')) \<and>
     tree_at h1 None (plug (Node Leaf z' zr) c') \<and>
     distinct (addrs (plug (Node Leaf z' zr) c')) \<and>
     set (addrs (plug (Node Leaf z' zr) c')) = set (addrs (plug (Node l x r) c)) \<and>
     plug (Node Leaf z' zr) c' = relab (adr z) (lkey x) (lval x) (relab (adr x) (lkey z) (lval z) (plug (Node l x r) c)) \<and>
     (\<forall>b. b \<notin> set (addrs (plug (Node l x r) c)) \<longrightarrow> h1 b = nodes s b)"
proof -
  let ?h = "nodes s"
  let ?t = "plug (Node l x r) c"
  have rp: "plug (Node Leaf z zr) cz = r" using min_ctx_plug [OF mc] by simp
  have teq: "?t = plug (Node Leaf z zr) (cz @ (False, x, l) # c)"
    by (simp add: plug_append rp)
  from t have tn: "tree_at ?h (hp c) (Node l x r)" by (simp add: plug_tree_at)
  then obtain xnd where xnd: "?h (adr x) = Some xnd" "key xnd = lkey x" "value xnd = lval x"
    "left xnd = rootp l" "right xnd = rootp r"
    and tr: "tree_at ?h (Some (adr x)) r"
    by (auto simp: tree_at_Node_iff)
  have zin: "z \<in> set (inorder t')" if "t' = ?t" for t'
    using that teq by (simp add: inorder_plug)
  from tree_at_lookup [OF t zin [OF refl]] obtain znd where
    znd: "?h (adr z) = Some znd" "key znd = lkey z" "value znd = lval z"
    by blast
  from d have dd: "distinct (addrs (Node Leaf z zr) @ caddrs (cz @ (False, x, l) # c))"
    unfolding teq by (simp add: distinct_addrs_plug)
  then have ne: "adr x \<noteq> adr z"
    and xn: "adr x \<notin> set (addrs zr)" "adr x \<notin> set (caddrs cz)" "adr x \<notin> set (addrs l)"
      "adr x \<notin> set (caddrs c)"
    and zn: "adr z \<notin> set (addrs zr)" "adr z \<notin> set (caddrs cz)" "adr z \<notin> set (addrs l)"
      "adr z \<notin> set (caddrs c)"
    by auto
  define h1 where "h1 = ?h(adr x \<mapsto> xnd\<lparr>key := lkey z, value := lval z\<rparr>,
      adr z \<mapsto> znd\<lparr>key := lkey x, value := lval x\<rparr>)"
  have sm: "subtree_min ?h (rootp r) = Some (Some (adr z))"
    using leftmost_tree [OF tr mc] two by (simp add: subtree_min_def)
  have e: "erase_node m s (Some (adr x)) = erase_node m (s\<lparr>nodes := h1\<rparr>) (Some (adr z))"
    using two sm swap_stores [OF xnd(1) znd(1) ne, of "\<lambda>h. erase_node m (s\<lparr>nodes := h\<rparr>) (Some (adr z))"]
    by (subst erase_node_unfold) (simp add: xnd znd h1_def)
  have r1: "relab (adr x) (lkey z) (lval z) ?t = plug (Node Leaf z zr) (cz @ (False, x', l) # c)"
    unfolding teq using ne xn by (simp add: relab_plug relab_id relab_ctx_id x')
  have r2: "relab (adr z) (lkey x) (lval x) (relab (adr x) (lkey z) (lval z) ?t) = plug (Node Leaf z' zr) c'"
    unfolding r1 using ne zn by (simp add: relab_plug relab_id relab_ctx_id x' z' c')
  have "tree_at (?h(adr x \<mapsto> xnd\<lparr>key := lkey z, value := lval z\<rparr>)) None
      (relab (adr x) (lkey z) (lval z) ?t)"
    by (rule tree_at_relab [OF t xnd(1)])
  from tree_at_relab [where a = "adr z" and nd = znd and k = "lkey x" and v = "lval x", OF this]
  have t1: "tree_at h1 None (plug (Node Leaf z' zr) c')"
    using ne znd(1) by (simp add: r2 h1_def)
  have a1: "addrs (plug (Node Leaf z' zr) c') = addrs ?t" using r2 [symmetric] by simp
  have "h1 b = ?h b" if "b \<notin> set (addrs ?t)" for b
  proof -
    have "b \<noteq> adr x" "b \<noteq> adr z" using that teq by (auto simp: set_addrs_plug)
    then show ?thesis by (simp add: h1_def)
  qed
  then show ?thesis using e t1 a1 d r2 z' by (intro exI [of _ h1]) simp
qed

lemma erase_node_tree:
  assumes t: "tree_at (nodes s) None (plug (Node l x r) c)"
    and d: "distinct (addrs (plug (Node l x r) c))"
    and dc: "del_ctx l x r c = (child, c', y)"
  shows "\<exists>h'. erase_node m s (Some (adr x)) =
       Some (hp c', (if c' = [] then m\<lparr>root := rootp child\<rparr> else m)\<lparr>size_f := size_f m - 1\<rparr>,
             freed m y h' s) \<and>
     tree_at (h'(adr y := None)) (hp c') child \<and> ctx_at (h'(adr y := None)) (rootp child) c' \<and>
     distinct (addrs child @ caddrs c') \<and>
     set (addrs child) \<union> set (caddrs c') = set (addrs (plug (Node l x r) c)) - {adr y} \<and>
     adr y \<in> set (addrs (plug (Node l x r) c)) \<and>
     (\<forall>b. b \<notin> set (addrs (plug (Node l x r) c)) \<longrightarrow> h' b = nodes s b)"
proof (cases "l \<noteq> Leaf \<and> r \<noteq> Leaf")
  case False
  then have eq: "child = (if l \<noteq> Leaf then l else r)" "c' = c" "y = x"
    using dc by (auto simp: del_ctx_def)
  from False have one: "l = Leaf \<or> r = Leaf" by auto
  from erase_node_simple [OF t d one eq(1), of m] obtain h' where
    e: "erase_node m s (Some (adr x)) =
       Some (hp c, (if c = [] then m\<lparr>root := rootp child\<rparr> else m)\<lparr>size_f := size_f m - 1\<rparr>,
             freed m x h' s)"
    and t': "tree_at (h'(adr x := None)) (hp c) child"
    and c': "ctx_at (h'(adr x := None)) (rootp child) c"
    and fr: "\<And>b. b \<notin> set (addrs (plug (Node l x r) c)) \<Longrightarrow> h' b = nodes s b"
    by blast
  from d have dd: "distinct (addrs (Node l x r) @ caddrs c)" by (simp add: distinct_addrs_plug)
  have "distinct (addrs child @ caddrs c)" using dd eq(1) one by auto
  moreover have "set (addrs child) \<union> set (caddrs c) = set (addrs (plug (Node l x r) c)) - {adr x}"
    using dd eq(1) one by (auto simp: set_addrs_plug)
  moreover have "adr x \<in> set (addrs (plug (Node l x r) c))" by (simp add: set_addrs_plug)
  ultimately show ?thesis using e t' c' fr eq by auto
next
  case True
  then have two: "l \<noteq> Leaf" "r \<noteq> Leaf" by simp_all
  from min_ctx_Some [OF two(2), of "[]"] obtain z zr cz where mc: "min_ctx r [] = Some (z, zr, cz)"
    by blast
  define x' where "x' = Lab (adr x) (lkey z) (lval z) (lht x)"
  define z' where "z' = Lab (adr z) (lkey x) (lval x) (lht z)"
  have eq: "child = zr" "c' = cz @ (False, x', l) # c" "y = z'"
    using dc True mc by (simp_all add: del_ctx_def x'_def z'_def)
  let ?t = "plug (Node l x r) c"
  from erase_node_two [OF t d two mc x'_def z'_def eq(2), of m] obtain h1 where
    e1: "erase_node m s (Some (adr x)) = erase_node m (s\<lparr>nodes := h1\<rparr>) (Some (adr z'))"
    and t1: "tree_at h1 None (plug (Node Leaf z' zr) c')"
    and d1: "distinct (addrs (plug (Node Leaf z' zr) c'))"
    and a1: "set (addrs (plug (Node Leaf z' zr) c')) = set (addrs ?t)"
    and fr1: "\<And>b. b \<notin> set (addrs ?t) \<Longrightarrow> h1 b = nodes s b"
    by blast
  have t1': "tree_at (nodes (s\<lparr>nodes := h1\<rparr>)) None (plug (Node Leaf z' zr) c')" using t1 by simp
  from erase_node_simple [OF t1' d1 _ refl, of m] obtain h' where
    e: "erase_node m (s\<lparr>nodes := h1\<rparr>) (Some (adr z')) =
       Some (hp c', (if c' = [] then m\<lparr>root := rootp zr\<rparr> else m)\<lparr>size_f := size_f m - 1\<rparr>,
             freed m z' h' (s\<lparr>nodes := h1\<rparr>))"
    and t': "tree_at (h'(adr z' := None)) (hp c') zr"
    and c': "ctx_at (h'(adr z' := None)) (rootp zr) c'"
    and fr: "\<And>b. b \<notin> set (addrs (plug (Node Leaf z' zr) c')) \<Longrightarrow> h' b = h1 b"
    by auto
  have fs: "freed m z' h' (s\<lparr>nodes := h1\<rparr>) = freed m z' h' s" by (simp add: freed_def)
  from d1 have dd: "distinct (addrs (Node Leaf z' zr) @ caddrs c')" by (simp add: distinct_addrs_plug)
  have "distinct (addrs zr @ caddrs c')" using dd by auto
  moreover have "set (addrs zr) \<union> set (caddrs c') = set (addrs ?t) - {adr z'}"
    using dd a1 [symmetric] by (auto simp: set_addrs_plug)
  moreover have "adr z' \<in> set (addrs ?t)" using a1 [symmetric] by (simp add: set_addrs_plug)
  moreover have "h' b = nodes s b" if "b \<notin> set (addrs ?t)" for b
    using fr [of b] fr1 [of b] a1 that by simp
  ultimately show ?thesis using e1 e fs t' c' eq by auto
qed

subsection \<open>The position of a key\<close>

text \<open>\<open>locate\<close> is the descent of \<^verbatim>\<open>find_node\<close> with the path it takes.\<close>

fun locate :: "('k \<Rightarrow> 'k \<Rightarrow> int) \<Rightarrow> 'k \<Rightarrow> ('k, 'v) ltree \<Rightarrow> ('k, 'v) ctx \<Rightarrow>
    (('k, 'v) ltree \<times> ('k, 'v) lab \<times> ('k, 'v) ltree \<times> ('k, 'v) ctx) option" where
  "locate c k Leaf acc = None"
| "locate c k (Node l x r) acc =
     (if c k (lkey x) = 0 then Some (l, x, r, acc)
      else if c k (lkey x) < 0 then locate c k l ((True, x, r) # acc)
      else locate c k r ((False, x, l) # acc))"

lemma locate_plug: "locate c k t acc = Some (l, x, r, ctx) \<Longrightarrow> plug (Node l x r) ctx = plug t acc"
  by (induction t arbitrary: acc) (auto split: if_splits)

lemma locate_lookup: "map_option (\<lambda>(l, x, r, ctx). x) (locate c k t acc) = lookup c k t"
  by (induction t arbitrary: acc) auto

lemma lookup_locate:
  assumes "lookup c k t = Some x"
  obtains l r ctx where "locate c k t [] = Some (l, x, r, ctx)"
  using assms locate_lookup [of c k t "[]"] by (cases "locate c k t []") auto

definition kvs :: "('k, 'v) ltree \<Rightarrow> ('k \<times> 'v) list" where
  "kvs t = map (\<lambda>x. (lkey x, lval x)) (inorder t)"

lemma keys_kvs: "keys t = map fst (kvs t)"
  by (simp add: keys_def kvs_def comp_def)

lemma kvs_rebal_up: "kvs (rebal_up s c) = kvs (plug s c)"
proof -
  have "kvs t = map snd (items t)" for t :: "('a, 'b) ltree"
    by (simp add: kvs_def items_def comp_def)
  then show ?thesis by (simp add: items_rebal_up_plug)
qed

lemma swap_plug:
  assumes d: "distinct (addrs (plug (Node l x r) c))"
    and mc: "min_ctx r [] = Some (z, zr, cz)"
  shows "relab (adr z) (lkey x) (lval x) (relab (adr x) (lkey z) (lval z) (plug (Node l x r) c)) =
     plug (Node Leaf (Lab (adr z) (lkey x) (lval x) (lht z)) zr)
       (cz @ (False, Lab (adr x) (lkey z) (lval z) (lht x), l) # c)"
proof -
  let ?t = "plug (Node l x r) c"
  have rp: "plug (Node Leaf z zr) cz = r" using min_ctx_plug [OF mc] by simp
  have teq: "?t = plug (Node Leaf z zr) (cz @ (False, x, l) # c)"
    by (simp add: plug_append rp)
  from d have dd: "distinct (addrs (Node Leaf z zr) @ caddrs (cz @ (False, x, l) # c))"
    unfolding teq by (simp add: distinct_addrs_plug)
  then have ne: "adr x \<noteq> adr z"
    and xn: "adr x \<notin> set (addrs zr)" "adr x \<notin> set (caddrs cz)" "adr x \<notin> set (addrs l)"
      "adr x \<notin> set (caddrs c)"
    and zn: "adr z \<notin> set (addrs zr)" "adr z \<notin> set (caddrs cz)" "adr z \<notin> set (addrs l)"
      "adr z \<notin> set (caddrs c)"
    by auto
  have r1: "relab (adr x) (lkey z) (lval z) ?t =
      plug (Node Leaf z zr) (cz @ (False, Lab (adr x) (lkey z) (lval z) (lht x), l) # c)"
    unfolding teq using ne xn by (simp add: relab_plug relab_id relab_ctx_id)
  show ?thesis unfolding r1 using ne zn by (simp add: relab_plug relab_id relab_ctx_id)
qed

lemma del_ctx_avl:
  assumes dc: "del_ctx l x r c = (child, c', y)" and av: "avl (plug (Node l x r) c)"
    and d: "distinct (addrs (plug (Node l x r) c))"
  shows "avl (rebal_up child c') \<and> ctx_pre child c'"
proof (cases "l \<noteq> Leaf \<and> r \<noteq> Leaf")
  case False
  then have eq: "child = (if l \<noteq> Leaf then l else r)" "c' = c"
    using dc by (auto simp: del_ctx_def)
  have an: "avl (Node l x r)" using avl_plug [OF av] .
  then have "avl child" using eq by simp
  moreover have "\<bar>ht child - ht (Node l x r)\<bar> \<le> 1"
    using an False eq avl_ht_ge0 [of l] avl_ht_ge0 [of r] by (auto split: if_splits)
  ultimately show ?thesis using avl_rebal_up [OF av] eq by simp
next
  case True
  then obtain z zr cz where mc: "min_ctx r [] = Some (z, zr, cz)"
    using min_ctx_Some [of r "[]"] by blast
  let ?x = "Lab (adr x) (lkey z) (lval z) (lht x)"
  let ?z = "Lab (adr z) (lkey x) (lval x) (lht z)"
  have eq: "child = zr" "c' = cz @ (False, ?x, l) # c"
    using dc True mc by (simp_all add: del_ctx_def)
  have av1: "avl (plug (Node Leaf ?z zr) c')"
    using av swap_plug [OF d mc, symmetric] eq by simp
  have an: "avl (Node Leaf ?z zr)" using avl_plug [OF av1] .
  then have "avl zr" by simp
  moreover have "\<bar>ht zr - ht (Node Leaf ?z zr)\<bar> \<le> 1"
    using an avl_ht_ge0 [of zr] by auto
  ultimately show ?thesis using avl_rebal_up [OF av1] eq by simp
qed

lemma del_ctx_kvs:
  assumes dc: "del_ctx l x r c = (child, c', y)"
  shows "\<exists>A B. kvs (plug (Node l x r) c) = A @ (lkey x, lval x) # B \<and> kvs (plug child c') = A @ B"
proof (cases "l \<noteq> Leaf \<and> r \<noteq> Leaf")
  case False
  then have eq: "child = (if l \<noteq> Leaf then l else r)" "c' = c"
    using dc by (auto simp: del_ctx_def)
  let ?f = "map (\<lambda>x. (lkey x, lval x))"
  show ?thesis
  proof (cases "l = Leaf")
    case True
    then show ?thesis using eq
      by (intro exI [of _ "?f (ipre c)"] exI [of _ "?f (inorder r @ ipost c)"])
        (simp add: kvs_def inorder_plug)
  next
    case l: False
    then have "r = Leaf" using False by simp
    then show ?thesis using eq l
      by (intro exI [of _ "?f (ipre c @ inorder l)"] exI [of _ "?f (ipost c)"])
        (simp add: kvs_def inorder_plug)
  qed
next
  case True
  then obtain z zr cz where mc: "min_ctx r [] = Some (z, zr, cz)"
    using min_ctx_Some [of r "[]"] by blast
  let ?x = "Lab (adr x) (lkey z) (lval z) (lht x)"
  have eq: "child = zr" "c' = cz @ (False, ?x, l) # c"
    using dc True mc by (simp_all add: del_ctx_def)
  have rp: "inorder r = z # inorder zr @ ipost cz"
    using min_ctx_plug [OF mc, symmetric] min_ctx_ipre [OF mc] by (simp add: inorder_plug)
  let ?f = "map (\<lambda>x. (lkey x, lval x))"
  show ?thesis unfolding eq
    by (intro exI [of _ "?f (ipre c @ inorder l)"]
        exI [of _ "?f (z # inorder zr @ ipost cz @ ipost c)"])
      (simp add: kvs_def inorder_plug rp ipre_append ipost_append min_ctx_ipre [OF mc])
qed

lemma sorted_wrt_remove: "sorted_wrt P (A @ a # B) \<Longrightarrow> sorted_wrt P (A @ B)"
  by (auto simp: sorted_wrt_append)

lemma del_ctx_sorted:
  assumes dc: "del_ctx l x r c = (child, c', y)" and s: "sorted_keys cf (plug (Node l x r) c)"
  shows "sorted_keys cf (rebal_up child c')"
proof -
  from del_ctx_kvs [OF dc] obtain A B where
    ab: "kvs (plug (Node l x r) c) = A @ (lkey x, lval x) # B" "kvs (plug child c') = A @ B"
    by blast
  have "sorted_wrt (\<lambda>a b. cf a b < 0) (map fst A @ lkey x # map fst B)"
    using s ab(1) by (simp add: sorted_keys_def keys_kvs)
  then have "sorted_wrt (\<lambda>a b. cf a b < 0) (map fst A @ map fst B)"
    by (rule sorted_wrt_remove)
  then show ?thesis by (simp add: sorted_keys_def keys_kvs kvs_rebal_up ab(2))
qed

lemma map_erase_absent:
  assumes "tree_at (nodes s) None t" and "root m = rootp t" and "lookup (cmp m) k t = None"
  shows "map_erase s (Some m) k = Some (0, Some m, s)"
  using find_node_tree [OF assms(1,2), of k] assms(3) by (simp add: map_erase_def)

lemma map_erase_present:
  assumes inv: "map_inv m s t" and loc: "locate (cmp m) k t [] = Some (l, x, r, c)"
    and dc: "del_ctx l x r c = (child, c', y)"
  shows "\<exists>h'. map_erase s (Some m) k =
       Some (1, Some (m\<lparr>root := rootp (rebal_up child c'), size_f := size_f m - 1\<rparr>),
             (freed m y h' s)\<lparr>nodes := h'\<rparr>) \<and>
     map_inv (m\<lparr>root := rootp (rebal_up child c'), size_f := size_f m - 1\<rparr>)
       ((freed m y h' s)\<lparr>nodes := h'\<rparr>) (rebal_up child c') \<and>
     h' (adr y) = None \<and> adr y \<in> set (addrs t) \<and>
     set (addrs (rebal_up child c')) = set (addrs t) - {adr y} \<and>
     length (inorder (rebal_up child c')) + 1 = length (inorder t) \<and>
     (\<forall>b. b \<notin> set (addrs t) \<longrightarrow> h' b = nodes s b)"
proof -
  from inv have rt: "root m = rootp t" and t: "tree_at (nodes s) None t" and d: "distinct (addrs t)"
    and av: "avl t" and so: "sorted_keys (cmp m) t" and sz: "size_f m = of_nat (length (inorder t))"
    by (simp_all add: map_inv_def)
  have p: "plug (Node l x r) c = t" using locate_plug [OF loc] by simp
  have lk: "lookup (cmp m) k t = Some x" using locate_lookup [of "cmp m" k t "[]"] loc by simp
  have fn: "find_node (nodes s) (Some m) k = Some (Some (adr x))"
    using find_node_tree [OF t rt, of k] lk by simp
  let ?t = "rebal_up child c'"
  define m1 where "m1 = (if c' = [] then m\<lparr>root := rootp child\<rparr> else m)\<lparr>size_f := size_f m - 1\<rparr>"
  from erase_node_tree [of s l x r c child c' y m] t d dc p obtain h1 where
    e: "erase_node m s (Some (adr x)) = Some (hp c', m1, freed m y h1 s)"
    and t1: "tree_at (h1(adr y := None)) (hp c') child"
    and c1: "ctx_at (h1(adr y := None)) (rootp child) c'"
    and d1: "distinct (addrs child @ caddrs c')"
    and a1: "set (addrs child) \<union> set (caddrs c') = set (addrs t) - {adr y}"
    and yin: "adr y \<in> set (addrs t)"
    and fr1: "\<And>b. b \<notin> set (addrs t) \<Longrightarrow> h1 b = nodes s b"
    unfolding m1_def by auto
  let ?h2 = "h1(adr y := None)"
  have nf: "nodes (freed m y h1 s) = ?h2" by (simp add: freed_def)
  from del_ctx_avl [OF dc] av d p have at': "avl ?t" and pre: "ctx_pre child c'" by simp_all
  have st': "sorted_keys (cmp m) ?t" using del_ctx_sorted [OF dc] so p by simp
  have rc: "c' = [] \<longrightarrow> root m1 = rootp child" by (simp add: m1_def)
  from rebalance_loop_tree [OF t1 c1 d1 pre rc] obtain h' where
    loop: "rebalance_loop m1 ?h2 (hp c') = Some (m1\<lparr>root := rootp ?t\<rparr>, h')"
    and t': "tree_at h' None ?t"
    and fr': "\<And>b. b \<notin> set (addrs child) \<union> set (caddrs c') \<Longrightarrow> h' b = ?h2 b"
    by blast
  have meq: "m1\<lparr>root := rootp ?t\<rparr> = m\<lparr>root := rootp ?t, size_f := size_f m - 1\<rparr>"
    by (simp add: m1_def)
  have crp: "clear_root_parent (m1\<lparr>root := rootp ?t\<rparr>) h' = Some h'"
    by (rule clear_root_parent_tree [OF t']) simp
  have me: "map_erase s (Some m) k =
      Some (1, Some (m\<lparr>root := rootp ?t, size_f := size_f m - 1\<rparr>), (freed m y h1 s)\<lparr>nodes := h'\<rparr>)"
    using fn e nf loop crp meq by (simp add: map_erase_def)
  have fh: "(freed m y h1 s)\<lparr>nodes := h'\<rparr> = (freed m y h' s)\<lparr>nodes := h'\<rparr>"
    by (simp add: freed_def)
  from del_ctx_kvs [OF dc] obtain A B where
    ab: "kvs (plug (Node l x r) c) = A @ (lkey x, lval x) # B" "kvs (plug child c') = A @ B"
    by blast
  have "length (kvs ?t) + 1 = length (kvs t)"
    using ab p by (simp add: kvs_rebal_up)
  then have len: "length (inorder ?t) + 1 = length (inorder t)"
    by (simp add: kvs_def)
  have dt': "distinct (addrs ?t)" using d1 by (simp add: addrs_rebal_up_plug distinct_addrs_plug)
  have sz': "size_f m - 1 = of_nat (length (inorder ?t))" using sz len [symmetric] by simp
  have inv': "map_inv (m\<lparr>root := rootp ?t, size_f := size_f m - 1\<rparr>) ((freed m y h' s)\<lparr>nodes := h'\<rparr>) ?t"
    using t' dt' at' st' sz' by (simp add: map_inv_def)
  have yn: "adr y \<notin> set (addrs child) \<union> set (caddrs c')" using a1 by auto
  have hy: "h' (adr y) = None" using fr' [OF yn] by simp
  have "h' b = nodes s b" if "b \<notin> set (addrs t)" for b
  proof -
    have "b \<notin> set (addrs child) \<union> set (caddrs c')" "b \<noteq> adr y" using that a1 yin by auto
    then show ?thesis using fr' [of b] fr1 [OF that] by simp
  qed
  then show ?thesis using me fh inv' hy yin a1 len by (intro exI [of _ h']) simp
qed

section \<open>Example comparator and states\<close>

text \<open>
  A comparator for the examples: keys refer to natural numbers, compared as numbers, and
  \<^verbatim>\<open>NULL\<close> comes before every number.
\<close>

definition cmp_nat :: "nat option \<Rightarrow> nat option \<Rightarrow> int" where
  "cmp_nat a b = (case a of None \<Rightarrow> (if b = None then 0 else - 1)
     | Some x \<Rightarrow> (case b of None \<Rightarrow> 1 | Some y \<Rightarrow> if x > y then 1 else if x < y then - 1 else 0))"

definition empty_mem :: "(nat, nat) mem" where
  "empty_mem = \<lparr>nodes = Map.empty, key_freed = [], val_freed = []\<rparr>"

text \<open>A map that stores the caller's references, and one that owns its values.\<close>

definition plain_map :: "(nat, nat) map_t option" where
  "plain_map = map_create (Some cmp_nat) None False None False True"

definition owning_map :: "(nat, nat) map_t option" where
  "owning_map = map_create (Some cmp_nat) (Some id) True (Some id) True True"

text \<open>
  A left-heavy tree whose left child has two children of equal height (as an erase on the
  right side leaves it), and its mirror image.
\<close>

definition tie_left :: "(nat, nat) dheap" where
  "tie_left = [
     0 \<mapsto> \<lparr>key = Some 30, value = None, left = Some 1, right = None, parent = None, height = 3\<rparr>,
     1 \<mapsto> \<lparr>key = Some 20, value = None, left = Some 2, right = Some 3, parent = Some 0, height = 2\<rparr>,
     2 \<mapsto> \<lparr>key = Some 10, value = None, left = None, right = None, parent = Some 1, height = 1\<rparr>,
     3 \<mapsto> \<lparr>key = Some 25, value = None, left = None, right = None, parent = Some 1, height = 1\<rparr>]"

definition tie_right :: "(nat, nat) dheap" where
  "tie_right = [
     0 \<mapsto> \<lparr>key = Some 10, value = None, left = None, right = Some 1, parent = None, height = 3\<rparr>,
     1 \<mapsto> \<lparr>key = Some 20, value = None, left = Some 2, right = Some 3, parent = Some 0, height = 2\<rparr>,
     2 \<mapsto> \<lparr>key = Some 15, value = None, left = None, right = None, parent = Some 1, height = 1\<rparr>,
     3 \<mapsto> \<lparr>key = Some 30, value = None, left = None, right = None, parent = Some 1, height = 1\<rparr>]"

text \<open>The heights \<^verbatim>\<open>node_height(n->left)\<close> and \<^verbatim>\<open>node_height(n->right)\<close> of a node.\<close>

definition child_heights :: "('k, 'v, 'x) heap \<Rightarrow> ptr \<Rightarrow> (int \<times> int) option" where
  "child_heights h n = do {
     l \<leftarrow> load h n left;
     hl \<leftarrow> node_height h l;
     r \<leftarrow> load h n right;
     hr \<leftarrow> node_height h r;
     Some (hl, hr)
   }"

section \<open>The null handle\<close>

lemmas api_defs = map_insert_def map_put_def map_erase_def map_size_def map_clear_def
  map_destroy_def map_begin_def map_end_def map_find_def find_node_def

text \<open>
  C7. Every public operation on a null handle is to be a safe no-op with a neutral result.
  \<^verbatim>\<open>map_insert\<close>, \<^verbatim>\<open>map_put\<close>, \<^verbatim>\<open>map_erase\<close>, \<^verbatim>\<open>map_size\<close>, \<^verbatim>\<open>map_clear\<close>, \<^verbatim>\<open>map_destroy\<close>,
  \<^verbatim>\<open>map_begin\<close> and \<^verbatim>\<open>map_end\<close> test the handle and are; \<^verbatim>\<open>map_find\<close> passes the null
  handle to \<^verbatim>\<open>find_node\<close>, which reads \<^verbatim>\<open>m->root\<close>: the call has no defined result.
\<close>

theorem map_find_null_handle_undefined:
  "map_find s None k = None \<and>
   map_insert s None k v b = Some (- 1, None, s) \<and>
   map_put s None k v b = Some (- 1, None, s) \<and>
   map_erase s None k = Some (0, None, s) \<and>
   map_size None = 0 \<and>
   map_clear s None = Some (None, s) \<and>
   map_destroy s None = Some (None, s) \<and>
   map_begin s None = Some None \<and>
   map_end None = None"
  by (simp add: api_defs)

section \<open>The choice between single and double rotation\<close>

lemma child_heights_SomeD:
  assumes "child_heights h n = Some (a, b)"
  obtains l r where "load h n left = Some l" "node_height h l = Some a"
    "load h n right = Some r" "node_height h r = Some b"
  using assms unfolding child_heights_def
  by (auto split: Option.bind_splits)

lemma child_heights_tree:
  assumes "tree_at h par (Node l x r)"
  shows "child_heights h (Some (adr x)) = Some (ht l, ht r)"
  using load_left_tree [OF assms] load_right_tree [OF assms]
    node_height_tree [OF tree_at_left [OF assms]] node_height_tree [OF tree_at_right [OF assms]]
  by (simp add: child_heights_def)

text \<open>On a tie \<^verbatim>\<open>rebalance_at\<close> takes the branch of the single rotation.\<close>

lemma rebalance_at_tie_branch:
  assumes "update_height h node = Some h1"
    and "child_heights h1 node = Some (hl, hr)"
  shows "hl - hr > 1 \<Longrightarrow> load h1 node left = Some l \<Longrightarrow> child_heights h1 l = Some (e, e) \<Longrightarrow>
            rebalance_at h node = rotate_right h1 node"
    and "hl - hr < - 1 \<Longrightarrow> load h1 node right = Some r \<Longrightarrow> child_heights h1 r = Some (e, e) \<Longrightarrow>
            rebalance_at h node = rotate_left h1 node"
proof -
  from assms(2) obtain l0 r0 where n: "load h1 node left = Some l0" "node_height h1 l0 = Some hl"
    "load h1 node right = Some r0" "node_height h1 r0 = Some hr"
    by (rule child_heights_SomeD)
  show "rebalance_at h node = rotate_right h1 node"
    if "hl - hr > 1" "load h1 node left = Some l" "child_heights h1 l = Some (e, e)"
  proof -
    from that(2) n(1) have [simp]: "l0 = l" by simp
    from that(3) obtain ll lr where c: "load h1 l left = Some ll" "node_height h1 ll = Some e"
      "load h1 l right = Some lr" "node_height h1 lr = Some e"
      by (rule child_heights_SomeD)
    show ?thesis
      unfolding rebalance_at_def using that(1) n c by (simp add: assms(1))
  qed
  show "rebalance_at h node = rotate_left h1 node"
    if "hl - hr < - 1" "load h1 node right = Some r" "child_heights h1 r = Some (e, e)"
  proof -
    from that(2) n(3) have [simp]: "r0 = r" by simp
    from that(3) obtain rl rr where c: "load h1 r left = Some rl" "node_height h1 rl = Some e"
      "load h1 r right = Some rr" "node_height h1 rr = Some e"
      by (rule child_heights_SomeD)
    show ?thesis
      unfolding rebalance_at_def using that(1) n c by (simp add: assms(1))
  qed
qed

lemma rebalance_at_tie_left:
  assumes t: "tree_at h par (Node (Node ll lx lr) x r)"
    and d: "distinct (addrs (Node (Node ll lx lr) x r))"
    and heavy: "ht (Node ll lx lr) - ht r > 1" and tie: "ht ll = ht lr"
  shows "\<exists>h1 h'. update_height h (Some (adr x)) = Some h1 \<and>
     rebalance_at h (Some (adr x)) = Some (Some (adr lx), h') \<and>
     rotate_right h1 (Some (adr x)) = Some (Some (adr lx), h') \<and>
     tree_at h' par (mk ll lx (mk lr x r))"
proof -
  let ?l = "Node ll lx lr"
  from tree_at_update_height [OF t d] obtain h1 where
    up: "update_height h (Some (adr x)) = Some h1" and t1: "tree_at h1 par (mk ?l x r)"
    by blast
  let ?x = "set_ht x (max (ht ?l) (ht r) + 1)"
  have t1': "tree_at h1 par (Node ?l ?x r)" using t1 by (simp add: mk_def)
  have ch: "child_heights h1 (Some (adr x)) = Some (ht ?l, ht r)"
    using child_heights_tree [OF t1'] by simp
  have ld: "load h1 (Some (adr x)) left = Some (Some (adr lx))"
    using load_left_tree [OF t1'] by simp
  have chl: "child_heights h1 (Some (adr lx)) = Some (ht ll, ht ll)"
    using child_heights_tree [OF tree_at_left [OF t1']] tie by simp
  have br: "rebalance_at h (Some (adr x)) = rotate_right h1 (Some (adr x))"
    by (rule rebalance_at_tie_branch(1) [OF up ch heavy ld chl])
  have pre: "rebal_pre ?l r" using heavy tie by (simp add: rebal_pre_def)
  have rb: "rebal ?l x r = mk ll lx (mk lr x r)" using heavy tie by (simp add: rebal_def)
  from rebalance_at_tree [OF t d pre] obtain h' where
    r: "rebalance_at h (Some (adr x)) = Some (rootp (rebal ?l x r), h')"
    and t': "tree_at h' par (rebal ?l x r)"
    by blast
  have 1: "rebalance_at h (Some (adr x)) = Some (Some (adr lx), h')" using r by (simp add: rb)
  have 2: "rotate_right h1 (Some (adr x)) = Some (Some (adr lx), h')" using 1 br by simp
  have 3: "tree_at h' par (mk ll lx (mk lr x r))" using t' by (simp add: rb)
  show ?thesis by (intro exI [of _ h1] exI [of _ h'] conjI up 1 2 3)
qed

lemma rebalance_at_tie_right:
  assumes t: "tree_at h par (Node l x (Node rl rx rr))"
    and d: "distinct (addrs (Node l x (Node rl rx rr)))"
    and heavy: "ht l - ht (Node rl rx rr) < - 1" and tie: "ht rl = ht rr"
  shows "\<exists>h1 h'. update_height h (Some (adr x)) = Some h1 \<and>
     rebalance_at h (Some (adr x)) = Some (Some (adr rx), h') \<and>
     rotate_left h1 (Some (adr x)) = Some (Some (adr rx), h') \<and>
     tree_at h' par (mk (mk l x rl) rx rr)"
proof -
  let ?r = "Node rl rx rr"
  from tree_at_update_height [OF t d] obtain h1 where
    up: "update_height h (Some (adr x)) = Some h1" and t1: "tree_at h1 par (mk l x ?r)"
    by blast
  let ?x = "set_ht x (max (ht l) (ht ?r) + 1)"
  have t1': "tree_at h1 par (Node l ?x ?r)" using t1 by (simp add: mk_def)
  have ch: "child_heights h1 (Some (adr x)) = Some (ht l, ht ?r)"
    using child_heights_tree [OF t1'] by simp
  have ld: "load h1 (Some (adr x)) right = Some (Some (adr rx))"
    using load_right_tree [OF t1'] by simp
  have chr: "child_heights h1 (Some (adr rx)) = Some (ht rl, ht rl)"
    using child_heights_tree [OF tree_at_right [OF t1']] tie by simp
  have br: "rebalance_at h (Some (adr x)) = rotate_left h1 (Some (adr x))"
    by (rule rebalance_at_tie_branch(2) [OF up ch heavy ld chr])
  have pre: "rebal_pre l ?r" using heavy tie by (simp add: rebal_pre_def)
  have rb: "rebal l x ?r = mk (mk l x rl) rx rr" using heavy tie by (simp add: rebal_def)
  from rebalance_at_tree [OF t d pre] obtain h' where
    r: "rebalance_at h (Some (adr x)) = Some (rootp (rebal l x ?r), h')"
    and t': "tree_at h' par (rebal l x ?r)"
    by blast
  have 1: "rebalance_at h (Some (adr x)) = Some (Some (adr rx), h')" using r by (simp add: rb)
  have 2: "rotate_left h1 (Some (adr x)) = Some (Some (adr rx), h')" using 1 br by simp
  have 3: "tree_at h' par (mk (mk l x rl) rx rr)" using t' by (simp add: rb)
  show ?thesis by (intro exI [of _ h1] exI [of _ h'] conjI up 1 2 3)
qed

text \<open>
  C9. Let the node \<open>x\<close> with the subtrees \<open>l\<close> and \<open>r\<close> be in the store (\<open>ht\<close> is the height
  field of the root of a subtree, 0 for the empty one, as \<^verbatim>\<open>node_height\<close> reads it). When
  \<^verbatim>\<open>rebalance_at\<close> finds \<open>x\<close> left-heavy (balance above 1) and the two children of its left
  child \<open>lx\<close> have the same height, it does the single right rotation: the result is that of
  \<^verbatim>\<open>rotate_right\<close> after the \<^verbatim>\<open>update_height\<close> of \<open>x\<close>, the new subtree root is \<open>lx\<close>, and the
  store holds the tree with \<open>lx\<close> above \<open>ll\<close> and \<open>x\<close>, and \<open>x\<close> above \<open>lr\<close> and \<open>r\<close>, with the
  heights of \<open>x\<close> and \<open>lx\<close> recomputed (a double rotation would make the root of \<open>lr\<close> the
  new subtree root). Symmetrically for a right-heavy \<open>x\<close> and the single left rotation.
\<close>

theorem rebalance_at_tie_single_rotation:
  assumes "tree_at h par (Node l x r)" and "distinct (addrs (Node l x r))"
  shows "(ht l - ht r > 1 \<longrightarrow> l = Node ll lx lr \<longrightarrow> ht ll = ht lr \<longrightarrow>
            (\<exists>h1 h'. update_height h (Some (adr x)) = Some h1 \<and>
               rebalance_at h (Some (adr x)) = Some (Some (adr lx), h') \<and>
               rotate_right h1 (Some (adr x)) = Some (Some (adr lx), h') \<and>
               tree_at h' par (mk ll lx (mk lr x r)))) \<and>
         (ht l - ht r < - 1 \<longrightarrow> r = Node rl rx rr \<longrightarrow> ht rl = ht rr \<longrightarrow>
            (\<exists>h1 h'. update_height h (Some (adr x)) = Some h1 \<and>
               rebalance_at h (Some (adr x)) = Some (Some (adr rx), h') \<and>
               rotate_left h1 (Some (adr x)) = Some (Some (adr rx), h') \<and>
               tree_at h' par (mk (mk l x rl) rx rr)))"
proof (intro conjI impI)
  assume "ht l - ht r > 1" "l = Node ll lx lr" "ht ll = ht lr"
  then show "\<exists>h1 h'. update_height h (Some (adr x)) = Some h1 \<and>
               rebalance_at h (Some (adr x)) = Some (Some (adr lx), h') \<and>
               rotate_right h1 (Some (adr x)) = Some (Some (adr lx), h') \<and>
               tree_at h' par (mk ll lx (mk lr x r))"
    using rebalance_at_tie_left [of h par ll lx lr x r] assms by simp
next
  assume "ht l - ht r < - 1" "r = Node rl rx rr" "ht rl = ht rr"
  then show "\<exists>h1 h'. update_height h (Some (adr x)) = Some h1 \<and>
               rebalance_at h (Some (adr x)) = Some (Some (adr rx), h') \<and>
               rotate_left h1 (Some (adr x)) = Some (Some (adr rx), h') \<and>
               tree_at h' par (mk (mk l x rl) rx rr)"
    using rebalance_at_tie_right [of h par l x rl rx rr] assms by simp
qed

text \<open>The stores after the rotations of the two example trees, and the trees they hold.\<close>

definition tie_left_rotated :: "(nat, nat) dheap" where
  "tie_left_rotated = [
     0 \<mapsto> \<lparr>key = Some 30, value = None, left = Some 3, right = None, parent = Some 1, height = 2\<rparr>,
     1 \<mapsto> \<lparr>key = Some 20, value = None, left = Some 2, right = Some 0, parent = None, height = 3\<rparr>,
     2 \<mapsto> \<lparr>key = Some 10, value = None, left = None, right = None, parent = Some 1, height = 1\<rparr>,
     3 \<mapsto> \<lparr>key = Some 25, value = None, left = None, right = None, parent = Some 0, height = 1\<rparr>]"

definition tie_right_rotated :: "(nat, nat) dheap" where
  "tie_right_rotated = [
     0 \<mapsto> \<lparr>key = Some 10, value = None, left = None, right = Some 2, parent = Some 1, height = 2\<rparr>,
     1 \<mapsto> \<lparr>key = Some 20, value = None, left = Some 0, right = Some 3, parent = None, height = 3\<rparr>,
     2 \<mapsto> \<lparr>key = Some 15, value = None, left = None, right = None, parent = Some 0, height = 1\<rparr>,
     3 \<mapsto> \<lparr>key = Some 30, value = None, left = None, right = None, parent = Some 1, height = 1\<rparr>]"

definition leaf_node :: "addr \<Rightarrow> nat \<Rightarrow> (nat option, nat option) ltree" where
  "leaf_node a k = Node Leaf (Lab a (Some k) None 1) Leaf"

lemma tie_left_facts:
  "update_height tie_left (Some 0) = Some tie_left"
  "rotate_right tie_left (Some 0) = Some (Some 1, tie_left_rotated)"
  "tree_at tie_left None
     (Node (Node (leaf_node 2 10) (Lab 1 (Some 20) None 2) (leaf_node 3 25)) (Lab 0 (Some 30) None 3) Leaf)"
proof -
  have "\<exists>h'. update_height tie_left (Some 0) = Some h' \<and> (\<forall>a. h' a = tie_left a)"
    by (simp add: update_height_def load_def store_def node_height_def tie_left_def)
  then show "update_height tie_left (Some 0) = Some tie_left" by (auto simp: fun_eq_iff)
  have "\<exists>h'. rotate_right tie_left (Some 0) = Some (Some 1, h') \<and> (\<forall>a. h' a = tie_left_rotated a)"
    by (simp add: tie_left_def tie_left_rotated_def rotate_right_def update_height_def load_def
        store_def node_height_def)
  then show "rotate_right tie_left (Some 0) = Some (Some 1, tie_left_rotated)"
    by (auto simp: fun_eq_iff)
qed (simp add: tie_left_def leaf_node_def tree_at_Node_iff)

lemma tie_right_facts:
  "update_height tie_right (Some 0) = Some tie_right"
  "rotate_left tie_right (Some 0) = Some (Some 1, tie_right_rotated)"
  "tree_at tie_right None
     (Node Leaf (Lab 0 (Some 10) None 3) (Node (leaf_node 2 15) (Lab 1 (Some 20) None 2) (leaf_node 3 30)))"
proof -
  have "\<exists>h'. update_height tie_right (Some 0) = Some h' \<and> (\<forall>a. h' a = tie_right a)"
    by (simp add: update_height_def load_def store_def node_height_def tie_right_def)
  then show "update_height tie_right (Some 0) = Some tie_right" by (auto simp: fun_eq_iff)
  have "\<exists>h'. rotate_left tie_right (Some 0) = Some (Some 1, h') \<and> (\<forall>a. h' a = tie_right_rotated a)"
    by (simp add: tie_right_def tie_right_rotated_def rotate_left_def update_height_def load_def
        store_def node_height_def)
  then show "rotate_left tie_right (Some 0) = Some (Some 1, tie_right_rotated)"
    by (auto simp: fun_eq_iff)
qed (simp add: tie_right_def leaf_node_def tree_at_Node_iff)

theorem rebalance_at_tie_single_rotation_witness:
  "rebalance_at tie_left (Some 0) = Some (Some 1, tie_left_rotated) \<and>
   rotate_right tie_left (Some 0) = Some (Some 1, tie_left_rotated) \<and>
   tree_at tie_left_rotated None
     (Node (leaf_node 2 10) (Lab 1 (Some 20) None 3) (Node (leaf_node 3 25) (Lab 0 (Some 30) None 2) Leaf)) \<and>
   rebalance_at tie_right (Some 0) = Some (Some 1, tie_right_rotated) \<and>
   rotate_left tie_right (Some 0) = Some (Some 1, tie_right_rotated) \<and>
   tree_at tie_right_rotated None
     (Node (Node Leaf (Lab 0 (Some 10) None 2) (leaf_node 2 15)) (Lab 1 (Some 20) None 3) (leaf_node 3 30))"
proof -
  let ?tl = "Node (Node (leaf_node 2 10) (Lab 1 (Some 20) None 2) (leaf_node 3 25))
     (Lab 0 (Some 30) None 3) (Leaf :: (nat option, nat option) ltree)"
  let ?tr = "Node (Leaf :: (nat option, nat option) ltree) (Lab 0 (Some 10) None 3)
     (Node (leaf_node 2 15) (Lab 1 (Some 20) None 2) (leaf_node 3 30))"
  have dl: "distinct (addrs ?tl)" and dr: "distinct (addrs ?tr)" by (simp_all add: leaf_node_def)
  have "\<exists>h1 h'. update_height tie_left (Some 0) = Some h1 \<and>
       rebalance_at tie_left (Some 0) = Some (Some 1, h') \<and>
       rotate_right h1 (Some 0) = Some (Some 1, h') \<and>
       tree_at h' None (mk (leaf_node 2 10) (Lab 1 (Some 20) None 2)
         (mk (leaf_node 3 25) (Lab 0 (Some 30) None 3) Leaf))"
    using rebalance_at_tie_single_rotation [OF tie_left_facts(3) dl,
        of "leaf_node 2 10" "Lab 1 (Some 20) None 2" "leaf_node 3 25"]
    by (simp add: leaf_node_def)
  then obtain h1 h' where l: "update_height tie_left (Some 0) = Some h1"
    "rebalance_at tie_left (Some 0) = Some (Some 1, h')"
    "rotate_right h1 (Some 0) = Some (Some 1, h')"
    "tree_at h' None (mk (leaf_node 2 10) (Lab 1 (Some 20) None 2)
         (mk (leaf_node 3 25) (Lab 0 (Some 30) None 3) Leaf))"
    by (elim exE conjE) (rule that)
  from l(1) tie_left_facts(1) have "h1 = tie_left" by simp
  with l(3) tie_left_facts(2) have hl: "h' = tie_left_rotated" by simp
  have "\<exists>h1 h'. update_height tie_right (Some 0) = Some h1 \<and>
       rebalance_at tie_right (Some 0) = Some (Some 1, h') \<and>
       rotate_left h1 (Some 0) = Some (Some 1, h') \<and>
       tree_at h' None (mk (mk Leaf (Lab 0 (Some 10) None 3) (leaf_node 2 15))
         (Lab 1 (Some 20) None 2) (leaf_node 3 30))"
    using rebalance_at_tie_single_rotation [OF tie_right_facts(3) dr,
        where rl = "leaf_node 2 15" and rx = "Lab 1 (Some 20) None 2" and rr = "leaf_node 3 30"]
    by (simp add: leaf_node_def)
  then obtain g1 g' where r: "update_height tie_right (Some 0) = Some g1"
    "rebalance_at tie_right (Some 0) = Some (Some 1, g')"
    "rotate_left g1 (Some 0) = Some (Some 1, g')"
    "tree_at g' None (mk (mk Leaf (Lab 0 (Some 10) None 3) (leaf_node 2 15))
         (Lab 1 (Some 20) None 2) (leaf_node 3 30))"
    by (elim exE conjE) (rule that)
  from r(1) tie_right_facts(1) have "g1 = tie_right" by simp
  with r(3) tie_right_facts(2) have hr: "g' = tie_right_rotated" by simp
  show ?thesis
    using l(2,4) r(2,4) tie_left_facts(2) tie_right_facts(2) unfolding hl hr
    by (simp add: mk_def set_ht_def leaf_node_def)
qed


section \<open>Lookup of an entry whose value is null\<close>

text \<open>
  C10. \<^verbatim>\<open>map_find\<close> returns \<^verbatim>\<open>NULL\<close> when \<^verbatim>\<open>find_node\<close> finds no node and also when the
  node it finds stores the value \<^verbatim>\<open>NULL\<close>: the result alone does not tell a miss from an
  entry whose value is \<^verbatim>\<open>NULL\<close>.
\<close>

theorem map_find_null_ambiguous:
  assumes "find_node (nodes s) m k = Some n"
    and "n = None \<or> load (nodes s) n value = Some None"
  shows "map_find s m k = Some None"
  using assms by (auto simp: map_find_def)

definition null_entry_state :: "(int \<times> (nat, nat) map_t option \<times> (nat, nat) mem) option" where
  "null_entry_state = map_insert empty_mem plain_map (Some 5) None (Some 0)"

lemma null_entry_state_eq:
  "null_entry_state = Some (1,
     Some \<lparr>root = Some 0, size_f = 1, cmp = cmp_nat, key_dup = None, key_free = False,
           val_dup = None, val_free = False\<rparr>,
     \<lparr>nodes = [0 \<mapsto> \<lparr>key = Some 5, value = None, left = None, right = None, parent = None,
                      height = 1\<rparr>], key_freed = [], val_freed = []\<rparr>)"
  by (simp add: null_entry_state_def map_insert_def plain_map_def map_create_def empty_mem_def
      node_new_def)

theorem map_find_null_ambiguous_witness:
  "(case null_entry_state of None \<Rightarrow> False
    | Some (rc, m, s) \<Rightarrow>
        find_node (nodes s) m (Some 5) = Some (Some 0) \<and> map_find s m (Some 5) = Some None \<and>
        find_node (nodes s) m (Some 6) = Some None \<and> map_find s m (Some 6) = Some None)"
proof -
  let ?m = "Some \<lparr>root = Some 0, size_f = 1, cmp = cmp_nat, key_dup = None, key_free = False,
           val_dup = None, val_free = False\<rparr>"
  let ?s = "\<lparr>nodes = [0 \<mapsto> \<lparr>key = Some (5::nat), value = None :: nat option, left = None,
       right = None, parent = None, height = 1\<rparr>], key_freed = [], val_freed = []\<rparr>"
  have hit: "find_node (nodes ?s) ?m (Some 5) = Some (Some 0)"
    by (simp add: find_node_def find_node_loop.simps load_def cmp_nat_def)
  have miss: "find_node (nodes ?s) ?m (Some 6) = Some None"
    by (simp add: find_node_def find_node_loop.simps load_def cmp_nat_def)
  have "map_find ?s ?m (Some 5) = Some None"
    by (rule map_find_null_ambiguous [OF hit]) (simp add: load_def)
  moreover have "map_find ?s ?m (Some 6) = Some None"
    by (rule map_find_null_ambiguous [OF miss]) simp
  ultimately show ?thesis using hit miss by (simp add: null_entry_state_eq)
qed
section \<open>A map with three entries\<close>

definition ex_map :: "(nat, nat) map_t" where
  "ex_map = \<lparr>root = Some 0, size_f = 3, cmp = cmp_nat, key_dup = None, key_free = False,
     val_dup = None, val_free = True\<rparr>"

definition ex_mem :: "(nat, nat) mem" where
  "ex_mem = \<lparr>nodes = [
     0 \<mapsto> \<lparr>key = Some 20, value = Some 200, left = Some 1, right = Some 2, parent = None, height = 2\<rparr>,
     1 \<mapsto> \<lparr>key = Some 10, value = Some 100, left = None, right = None, parent = Some 0, height = 1\<rparr>,
     2 \<mapsto> \<lparr>key = Some 30, value = Some 300, left = None, right = None, parent = Some 0, height = 1\<rparr>],
     key_freed = [], val_freed = []\<rparr>"

definition ex_tree :: "(nat option, nat option) ltree" where
  "ex_tree = Node (Node Leaf (Lab 1 (Some 10) (Some 100) 1) Leaf) (Lab 0 (Some 20) (Some 200) 2)
     (Node Leaf (Lab 2 (Some 30) (Some 300) 1) Leaf)"

lemma cmp_nat_ok: "cmp_ok cmp_nat"
  unfolding cmp_ok_def cmp_nat_def by (auto split: option.splits if_splits)

lemma ex_dup_ok: "dup_ok ex_map"
  by (simp add: dup_ok_def stored_key_def ex_map_def)

lemma ex_inv: "map_inv ex_map ex_mem ex_tree"
  by (simp add: map_inv_def ex_map_def ex_mem_def ex_tree_def tree_at_Node_iff sorted_keys_def
      cmp_nat_def)

text \<open>
  Callbacks for the examples. References are numbers, and the object at the reference \<open>a\<close>
  has the content \<open>a mod 1000\<close>. \<open>dup_copy\<close> returns a reference to a copy of its argument
  (the same content at another address) and \<^verbatim>\<open>NULL\<close> for \<^verbatim>\<open>NULL\<close>; \<open>dup_fails\<close> is a duplication
  whose allocation fails, which the callbacks of the example program report by \<^verbatim>\<open>NULL\<close>;
  \<open>cmp_content\<close> compares the contents.
\<close>

definition dup_copy :: "nat option \<Rightarrow> nat option" where
  "dup_copy p = map_option (\<lambda>a. a + 1000) p"

definition dup_fails :: "nat option \<Rightarrow> nat option" where
  "dup_fails p = None"

definition cmp_content :: "nat option \<Rightarrow> nat option \<Rightarrow> int" where
  "cmp_content a b = cmp_nat (map_option (\<lambda>x. x mod 1000) a) (map_option (\<lambda>x. x mod 1000) b)"

lemma cmp_content_ok: "cmp_ok cmp_content"
  unfolding cmp_ok_def cmp_content_def cmp_nat_def by (auto split: option.splits if_splits)




text \<open>
  A map with \<open>dup_copy\<close> for its values, as \<^verbatim>\<open>map_create\<close> returns it, and the map and the
  memory after \<^verbatim>\<open>map_insert\<close> of the key 5 with the value 50 in the block 0.
\<close>

definition copy_map0 :: "(nat, nat) map_t" where
  "copy_map0 = \<lparr>root = None, size_f = 0, cmp = cmp_nat, key_dup = None, key_free = False,
     val_dup = Some dup_copy, val_free = True\<rparr>"

definition copy_map :: "(nat, nat) map_t" where
  "copy_map = copy_map0\<lparr>root := Some 0, size_f := 1\<rparr>"

definition copy_mem :: "(nat, nat) mem" where
  "copy_mem = \<lparr>nodes = [
     0 \<mapsto> \<lparr>key = Some 5, value = Some 1050, left = None, right = None, parent = None, height = 1\<rparr>],
     key_freed = [], val_freed = []\<rparr>"

lemma copy_state:
  "map_create (Some cmp_nat) None False (Some dup_copy) True True = Some copy_map0"
  "map_insert empty_mem (Some copy_map0) (Some 5) (Some 50) (Some 0) = Some (1, Some copy_map, copy_mem)"
  by (simp_all add: map_create_def copy_map0_def copy_map_def copy_mem_def map_insert_def
      empty_mem_def node_new_def dup_copy_def)

lemma copy_find: "map_find copy_mem (Some copy_map) (Some 5) = Some (Some 1050)"
  by (simp add: map_find_def find_node_def find_node_loop.simps load_def copy_map_def
      copy_map0_def copy_mem_def cmp_nat_def)

text \<open>
  A map whose \<^verbatim>\<open>key_dup\<close> fails, as \<^verbatim>\<open>map_create\<close> returns it, and the maps and memories
  after \<^verbatim>\<open>map_insert\<close> of the key 5 in the block 0 and then of the key 7 in the block 1.
\<close>

definition oom_map0 :: "(nat, nat) map_t" where
  "oom_map0 = \<lparr>root = None, size_f = 0, cmp = cmp_nat, key_dup = Some dup_fails,
     key_free = True, val_dup = None, val_free = False\<rparr>"

definition oom_map1 :: "(nat, nat) map_t" where
  "oom_map1 = oom_map0\<lparr>root := Some 0, size_f := 1\<rparr>"

definition oom_map2 :: "(nat, nat) map_t" where
  "oom_map2 = oom_map0\<lparr>root := Some 0, size_f := 2\<rparr>"

definition oom_mem1 :: "(nat, nat) mem" where
  "oom_mem1 = \<lparr>nodes = [
     0 \<mapsto> \<lparr>key = None, value = Some 50, left = None, right = None, parent = None, height = 1\<rparr>],
     key_freed = [], val_freed = []\<rparr>"

definition oom_mem2 :: "(nat, nat) mem" where
  "oom_mem2 = \<lparr>nodes = [
     0 \<mapsto> \<lparr>key = None, value = Some 50, left = None, right = Some 1, parent = None, height = 2\<rparr>,
     1 \<mapsto> \<lparr>key = None, value = Some 70, left = None, right = None, parent = Some 0, height = 1\<rparr>],
     key_freed = [], val_freed = []\<rparr>"

definition oom_tree :: "(nat option, nat option) ltree" where
  "oom_tree = Node Leaf (Lab 0 None (Some 50) 2) (Node Leaf (Lab 1 None (Some 70) 1) Leaf)"

lemma oom_steps:
  "map_create (Some cmp_nat) (Some dup_fails) True None False True = Some oom_map0"
  "map_insert empty_mem (Some oom_map0) (Some 5) (Some 50) (Some 0) = Some (1, Some oom_map1, oom_mem1)"
  "map_insert oom_mem1 (Some oom_map1) (Some 7) (Some 70) (Some 1) = Some (1, Some oom_map2, oom_mem2)"
proof -
  show "map_create (Some cmp_nat) (Some dup_fails) True None False True = Some oom_map0"
    by (simp add: map_create_def oom_map0_def)
  show "map_insert empty_mem (Some oom_map0) (Some 5) (Some 50) (Some 0) = Some (1, Some oom_map1, oom_mem1)"
    by (simp add: map_insert_def oom_map0_def oom_map1_def empty_mem_def oom_mem1_def node_new_def
        dup_fails_def)
  have "\<exists>s'. map_insert oom_mem1 (Some oom_map1) (Some 7) (Some 70) (Some 1) =
      Some (1, Some oom_map2, s') \<and>
      (\<forall>a. nodes s' a = nodes oom_mem2 a) \<and> key_freed s' = [] \<and> val_freed s' = []"
    by (simp add: map_insert_def oom_map0_def oom_map1_def oom_map2_def oom_mem1_def oom_mem2_def
        node_new_def dup_fails_def insert_descend.simps rebalance_loop.simps rebalance_at_def
        update_height_def set_child_def clear_root_parent_def load_def store_def node_height_def
        cmp_nat_def)
  then show "map_insert oom_mem1 (Some oom_map1) (Some 7) (Some 70) (Some 1) =
      Some (1, Some oom_map2, oom_mem2)"
    by (auto simp: fun_eq_iff oom_mem2_def)
qed


section \<open>Inserting a key that is present\<close>

text \<open>
  C5. When the map holds a key that compares equal to \<open>k\<close>, \<^verbatim>\<open>map_insert\<close> returns 0
  (AlreadyExists) and leaves the map structure and the memory as they were: the tree, the
  size and the stored value are unchanged.
\<close>

theorem map_insert_existing_unchanged:
  assumes "map_inv m s t" and "cmp_ok (cmp m)"
    and "\<exists>x \<in> set (inorder t). cmp m k (lkey x) = 0"
  shows "map_insert s (Some m) k v new_block = Some (0, Some m, s)"
proof -
  from assms(3) obtain x where x: "x \<in> set (inorder t)" "cmp m k (lkey x) = 0" by blast
  from assms(1) have t: "tree_at (nodes s) None t" "root m = rootp t" "sorted_keys (cmp m) t"
    by (simp_all add: map_inv_def)
  have "lookup (cmp m) k t = Some x" using lookup_sorted [OF assms(2) t(3) x] .
  then show ?thesis by (rule map_insert_present [OF t(1,2)])
qed

theorem map_insert_existing_unchanged_witness:
  "map_insert ex_mem (Some ex_map) (Some 30) (Some 7) (Some 5) = Some (0, Some ex_map, ex_mem)"
proof -
  have "\<exists>x \<in> set (inorder ex_tree). cmp ex_map (Some 30) (lkey x) = 0"
    by (simp add: ex_tree_def ex_map_def cmp_nat_def)
  moreover have "cmp_ok (cmp ex_map)" using cmp_nat_ok by (simp add: ex_map_def)
  ultimately show ?thesis using map_insert_existing_unchanged [OF ex_inv] by blast
qed

section \<open>Inserting a new key and finding it\<close>






section \<open>Replacing the value of a key that is present\<close>

text \<open>What a node says about the shape of the tree: its links and its height.\<close>

definition links :: "('k, 'v, 'x) node_scheme \<Rightarrow> ptr \<times> ptr \<times> ptr \<times> int" where
  "links nd = (left nd, right nd, parent nd, height nd)"

text \<open>
  When the map holds a key that compares equal to \<open>k\<close>, at the node \<open>x\<close>, and the duplication
  does not read a released object, \<^verbatim>\<open>map_put\<close> returns 2 (Replaced); the map structure
  (root and size) is unchanged, every node keeps its key, its links and its height, and
  only the node \<open>x\<close> changes its value; \<^verbatim>\<open>map_find\<close> of \<open>k\<close> then returns the value stored for
  \<open>v\<close> (\<open>v\<close>, or its duplicate when the map has a \<^verbatim>\<open>val_dup\<close>); and when the map has a
  \<^verbatim>\<open>val_free\<close>, it was called once, with the old value, and not at all otherwise.
\<close>

lemma map_put_replaces:
  assumes "map_inv m s t" and "cmp_ok (cmp m)"
    and "\<exists>x \<in> set (inorder t). cmp m k (lkey x) = 0"
    and "\<forall>x \<in> set (inorder t). cmp m k (lkey x) = 0 \<longrightarrow> \<not> reads_released m (lval x) v"
  shows "\<exists>s' x. x \<in> set (inorder t) \<and> cmp m k (lkey x) = 0 \<and>
     map_put s (Some m) k v new_block = Some (2, Some m, s') \<and>
     (\<forall>b. map_option links (nodes s' b) = map_option links (nodes s b) \<and>
          map_option key (nodes s' b) = map_option key (nodes s b) \<and>
          (b \<noteq> adr x \<longrightarrow> nodes s' b = nodes s b)) \<and>
     map_inv m s' (set_val (adr x) (case val_dup m of None \<Rightarrow> v | Some d \<Rightarrow> d v) t) \<and>
     map_find s' (Some m) k = Some (case val_dup m of None \<Rightarrow> v | Some d \<Rightarrow> d v) \<and>
     val_freed s' = (if val_free m then [lval x] else []) @ val_freed s \<and>
     key_freed s' = key_freed s"
proof -
  from assms(3) obtain x where x: "x \<in> set (inorder t)" "cmp m k (lkey x) = 0" by blast
  from assms(1) have t: "tree_at (nodes s) None t" "root m = rootp t" "sorted_keys (cmp m) t"
    by (simp_all add: map_inv_def)
  have lk: "lookup (cmp m) k t = Some x" using lookup_sorted [OF assms(2) t(3) x] .
  have live: "\<not> reads_released m (lval x) v" using assms(4) x by blast
  let ?v = "stored_val m v"
  from map_put_present [OF assms(1) lk live, of new_block] obtain nd where
    nd: "nodes s (adr x) = Some nd" "value nd = lval x"
    and put: "map_put s (Some m) k v new_block = Some (2, Some m,
       s\<lparr>val_freed := (if val_free m then [lval x] else []) @ val_freed s,
         nodes := (nodes s)(adr x \<mapsto> nd\<lparr>value := ?v\<rparr>)\<rparr>)"
    and inv': "map_inv m (s\<lparr>val_freed := (if val_free m then [lval x] else []) @ val_freed s,
         nodes := (nodes s)(adr x \<mapsto> nd\<lparr>value := ?v\<rparr>)\<rparr>) (set_val (adr x) ?v t)"
    by blast
  let ?s = "s\<lparr>val_freed := (if val_free m then [lval x] else []) @ val_freed s,
         nodes := (nodes s)(adr x \<mapsto> nd\<lparr>value := ?v\<rparr>)\<rparr>"
  from inv' have t': "tree_at (nodes ?s) None (set_val (adr x) ?v t)" by (simp add: map_inv_def)
  have "map_find ?s (Some m) k = Some ?v"
    using map_find_tree [OF t' , of m k] t(2) lk by (simp add: lookup_set_val)
  moreover have "map_option links (nodes ?s b) = map_option links (nodes s b) \<and>
          map_option key (nodes ?s b) = map_option key (nodes s b) \<and>
          (b \<noteq> adr x \<longrightarrow> nodes ?s b = nodes s b)" for b
    using nd(1) by (simp add: links_def)
  ultimately show ?thesis using x put inv'
    by (intro exI [of _ ?s] exI [of _ x]) (simp add: stored_val_def)
qed

lemma map_put_replaces_example:
  "\<exists>s'. map_put ex_mem (Some ex_map) (Some 30) (Some 7) None = Some (2, Some ex_map, s') \<and>
     map_find s' (Some ex_map) (Some 30) = Some (Some 7) \<and> val_freed s' = [Some 300]"
proof -
  have p: "\<exists>x \<in> set (inorder ex_tree). cmp ex_map (Some 30) (lkey x) = 0"
    by (simp add: ex_tree_def ex_map_def cmp_nat_def)
  have q: "\<forall>x \<in> set (inorder ex_tree). cmp ex_map (Some 30) (lkey x) = 0 \<longrightarrow>
      \<not> reads_released ex_map (lval x) (Some 7)"
    by (simp add: reads_released_def ex_map_def)
  have ok: "cmp_ok (cmp ex_map)" using cmp_nat_ok by (simp add: ex_map_def)
  from map_put_replaces [OF ex_inv ok p q, of None] obtain s' x where
    x: "x \<in> set (inorder ex_tree)" "cmp ex_map (Some 30) (lkey x) = 0"
    and r: "map_put ex_mem (Some ex_map) (Some 30) (Some 7) None = Some (2, Some ex_map, s')"
      "map_find s' (Some ex_map) (Some 30) = Some (case val_dup ex_map of None \<Rightarrow> Some 7 | Some d \<Rightarrow> d (Some 7))"
      "val_freed s' = (if val_free ex_map then [lval x] else []) @ val_freed ex_mem"
    by blast
  from x have "lval x = Some 300"
    by (auto simp: ex_tree_def ex_map_def cmp_nat_def split: if_splits)
  then show ?thesis using r by (intro exI [of _ s']) (simp add: ex_map_def ex_mem_def)
qed

text \<open>The memory after \<^verbatim>\<open>map_put\<close> of the key 5 with the value 60 in the map \<open>copy_map\<close>.\<close>

definition copy_mem_put :: "(nat, nat) mem" where
  "copy_mem_put = \<lparr>nodes = [
     0 \<mapsto> \<lparr>key = Some 5, value = Some 1060, left = None, right = None, parent = None, height = 1\<rparr>],
     key_freed = [], val_freed = [Some 1050]\<rparr>"

text \<open>
  C4. On a key that is present \<^verbatim>\<open>map_put\<close> is to return 2 (Replaced), keep the shape and
  the size, make \<^verbatim>\<open>map_find\<close> return the new value and release the old value once. It does
  so (lemma \<open>map_put_replaces\<close>) unless the map has both \<^verbatim>\<open>val_dup\<close> and \<^verbatim>\<open>val_free\<close> and the
  new value is the reference the node stores: \<^verbatim>\<open>map_put\<close> calls \<^verbatim>\<open>val_free\<close> on the old value
  before \<^verbatim>\<open>val_dup\<close> on the new one, so \<^verbatim>\<open>val_dup\<close> reads the object just released and the
  call has no defined result. In the map \<open>copy_map\<close>, which holds the key 5: \<^verbatim>\<open>map_find\<close>
  returns the stored reference, \<^verbatim>\<open>map_put\<close> of that reference has no defined result, and
  \<^verbatim>\<open>map_put\<close> of another reference replaces the value.
\<close>

theorem map_put_stored_value_undefined:
  "map_create (Some cmp_nat) None False (Some dup_copy) True True = Some copy_map0 \<and>
   map_insert empty_mem (Some copy_map0) (Some 5) (Some 50) (Some 0) = Some (1, Some copy_map, copy_mem) \<and>
   map_find copy_mem (Some copy_map) (Some 5) = Some (Some 1050) \<and>
   map_put copy_mem (Some copy_map) (Some 5) (Some 1050) None = None \<and>
   map_put copy_mem (Some copy_map) (Some 5) (Some 60) None = Some (2, Some copy_map, copy_mem_put)"
proof -
  have 1: "map_put copy_mem (Some copy_map) (Some 5) (Some 1050) None = None"
    by (simp add: map_put_def find_node_def find_node_loop.simps load_def copy_map_def
        copy_map0_def copy_mem_def cmp_nat_def reads_released_def)
  have "\<exists>s'. map_put copy_mem (Some copy_map) (Some 5) (Some 60) None = Some (2, Some copy_map, s') \<and>
      (\<forall>a. nodes s' a = nodes copy_mem_put a) \<and> key_freed s' = [] \<and> val_freed s' = [Some 1050]"
    by (simp add: map_put_def find_node_def find_node_loop.simps load_def store_def copy_map_def
        copy_map0_def copy_mem_def copy_mem_put_def cmp_nat_def reads_released_def dup_copy_def)
  then have 2: "map_put copy_mem (Some copy_map) (Some 5) (Some 60) None =
      Some (2, Some copy_map, copy_mem_put)"
    by (auto simp: fun_eq_iff copy_mem_put_def)
  show ?thesis using copy_state copy_find 1 2 by simp
qed


section \<open>Erasing a key that is present\<close>

lemma map_inv_lookup_node:
  assumes "map_inv m s t" and "(a, k, v) \<in> set (items t)"
  shows "load (nodes s) (Some a) key = Some k \<and> load (nodes s) (Some a) value = Some v"
proof -
  from assms(2) obtain x where x: "x \<in> set (inorder t)" "adr x = a" "lkey x = k" "lval x = v"
    by (auto simp: items_def)
  from assms(1) have "tree_at (nodes s) None t" by (simp add: map_inv_def)
  from tree_at_lookup [OF this x(1)] show ?thesis using x by auto
qed

lemma del_ctx_cases:
  assumes "del_ctx l x r c = (child, c', y)"
  shows "lkey y = lkey x \<and> lval y = lval x \<and>
    (l = Leaf \<or> r = Leaf \<longrightarrow> y = x) \<and>
    (l \<noteq> Leaf \<and> r \<noteq> Leaf \<longrightarrow> (\<exists>z zr cz. min_ctx r [] = Some (z, zr, cz) \<and>
       r = plug (Node Leaf z zr) cz \<and> adr y = adr z \<and>
       (adr x, lkey z, lval z) \<in> set (items (plug child c'))))"
proof (cases "l \<noteq> Leaf \<and> r \<noteq> Leaf")
  case False
  then show ?thesis using assms by (auto simp: del_ctx_def)
next
  case True
  then obtain z zr cz where mc: "min_ctx r [] = Some (z, zr, cz)"
    using min_ctx_Some [of r "[]"] by blast
  have "r = plug (Node Leaf z zr) cz" using min_ctx_plug [OF mc] by simp
  moreover have "(adr x, lkey z, lval z) \<in> set (items (plug child c'))"
    using assms True mc by (auto simp: del_ctx_def items_plug ipre_append)
  ultimately show ?thesis using assms True mc by (auto simp: del_ctx_def)
qed

lemma unat_size_pred:
  assumes "sz = (of_nat n :: 64 word)" and "sz' = sz - 1" and "n' + 1 = n" and "n < 2 ^ 64"
  shows "unat sz' + 1 = unat sz"
proof -
  have "unat sz = n" using assms(1,4) by (simp add: unat_of_nat)
  moreover have "sz' = of_nat n'" using assms(1,2,3) by auto
  then have "unat sz' = n'" using assms(3,4) by (simp add: unat_of_nat)
  ultimately show ?thesis using assms(3) by simp
qed

text \<open>
  C3. When the map holds a key that compares equal to \<open>k\<close>, at the node \<open>x\<close> with the
  subtrees \<open>l\<close> and \<open>r\<close>, \<^verbatim>\<open>map_erase\<close> returns 1 (Erased), \<^verbatim>\<open>m->size\<close> goes down by one and
  the tree has one node less, and the invariant of the map (links, balance, heights, order,
  size) holds afterwards. When \<open>x\<close> has two children, the node that is unlinked and freed
  is the in-order successor \<open>z\<close>, the leftmost node of \<open>r\<close>, which has no left child, and the
  node \<open>x\<close> stays and holds the key and value of \<open>z\<close>; otherwise the node freed is \<open>x\<close>.
  The key and value given to the free callbacks are those of the erased entry.
\<close>

theorem map_erase_existing:
  assumes "map_inv m s t" and "cmp_ok (cmp m)"
    and "\<exists>x \<in> set (inorder t). cmp m k (lkey x) = 0"
  shows "\<exists>l x r c m' s' t'.
     locate (cmp m) k t [] = Some (l, x, r, c) \<and>
     map_erase s (Some m) k = Some (1, Some m', s') \<and>
     size_f m' = size_f m - 1 \<and>
     (length (inorder t) < 2 ^ 64 \<longrightarrow> unat (size_f m') + 1 = unat (size_f m)) \<and>
     length (inorder t') + 1 = length (inorder t) \<and>
     map_inv m' s' t' \<and>
     (l \<noteq> Leaf \<and> r \<noteq> Leaf \<longrightarrow> (\<exists>z zr cz. min_ctx r [] = Some (z, zr, cz) \<and>
        r = plug (Node Leaf z zr) cz \<and>
        nodes s' (adr z) = None \<and> set (addrs t') = set (addrs t) - {adr z} \<and>
        load (nodes s') (Some (adr x)) key = Some (lkey z) \<and>
        load (nodes s') (Some (adr x)) value = Some (lval z))) \<and>
     (l = Leaf \<or> r = Leaf \<longrightarrow> nodes s' (adr x) = None \<and> set (addrs t') = set (addrs t) - {adr x}) \<and>
     key_freed s' = (if key_free m \<and> lkey x \<noteq> None then [lkey x] else []) @ key_freed s \<and>
     val_freed s' = (if val_free m \<and> lval x \<noteq> None then [lval x] else []) @ val_freed s"
proof -
  from assms(3) obtain x0 where x0: "x0 \<in> set (inorder t)" "cmp m k (lkey x0) = 0" by blast
  from assms(1) have so: "sorted_keys (cmp m) t" and sz: "size_f m = of_nat (length (inorder t))"
    by (simp_all add: map_inv_def)
  have "lookup (cmp m) k t = Some x0" using lookup_sorted [OF assms(2) so x0] .
  then obtain l r c where loc: "locate (cmp m) k t [] = Some (l, x0, r, c)"
    by (rule lookup_locate)
  obtain child c' y where dc: "del_ctx l x0 r c = (child, c', y)" by (cases "del_ctx l x0 r c")
  let ?t = "rebal_up child c'"
  let ?m = "m\<lparr>root := rootp ?t, size_f := size_f m - 1\<rparr>"
  from map_erase_present [OF assms(1) loc dc] obtain h' where
    e: "map_erase s (Some m) k = Some (1, Some ?m, (freed m y h' s)\<lparr>nodes := h'\<rparr>)"
    and inv': "map_inv ?m ((freed m y h' s)\<lparr>nodes := h'\<rparr>) ?t"
    and hy: "h' (adr y) = None"
    and a: "set (addrs ?t) = set (addrs t) - {adr y}"
    and len: "length (inorder ?t) + 1 = length (inorder t)"
    by blast
  let ?s = "(freed m y h' s)\<lparr>nodes := h'\<rparr>"
  from del_ctx_cases [OF dc] have y: "lkey y = lkey x0" "lval y = lval x0"
    and one: "l = Leaf \<or> r = Leaf \<Longrightarrow> y = x0"
    and two: "l \<noteq> Leaf \<and> r \<noteq> Leaf \<Longrightarrow> \<exists>z zr cz. min_ctx r [] = Some (z, zr, cz) \<and>
       r = plug (Node Leaf z zr) cz \<and> adr y = adr z \<and>
       (adr x0, lkey z, lval z) \<in> set (items (plug child c'))"
    by blast+
  have un: "length (inorder t) < 2 ^ 64 \<Longrightarrow> unat (size_f ?m) + 1 = unat (size_f m)"
    using unat_size_pred [OF sz _ len] by simp
  have two': "\<exists>z zr cz. min_ctx r [] = Some (z, zr, cz) \<and> r = plug (Node Leaf z zr) cz \<and>
        nodes ?s (adr z) = None \<and> set (addrs ?t) = set (addrs t) - {adr z} \<and>
        load (nodes ?s) (Some (adr x0)) key = Some (lkey z) \<and>
        load (nodes ?s) (Some (adr x0)) value = Some (lval z)" if "l \<noteq> Leaf \<and> r \<noteq> Leaf"
  proof -
    from two [OF that] obtain z zr cz where z: "min_ctx r [] = Some (z, zr, cz)"
       "r = plug (Node Leaf z zr) cz" "adr y = adr z"
       "(adr x0, lkey z, lval z) \<in> set (items (plug child c'))"
      by blast
    have "(adr x0, lkey z, lval z) \<in> set (items ?t)" using z(4) by (simp add: items_rebal_up_plug)
    from map_inv_lookup_node [OF inv' this] show ?thesis using z hy a by auto
  qed
  have one': "nodes ?s (adr x0) = None \<and> set (addrs ?t) = set (addrs t) - {adr x0}"
    if "l = Leaf \<or> r = Leaf"
    using one [OF that] hy a by simp
  have logs: "key_freed ?s = (if key_free m \<and> lkey x0 \<noteq> None then [lkey x0] else []) @ key_freed s"
    "val_freed ?s = (if val_free m \<and> lval x0 \<noteq> None then [lval x0] else []) @ val_freed s"
    using y by (simp_all add: freed_def)
  show ?thesis
    using loc e un len inv' two' one' logs
    by (intro exI [of _ l] exI [of _ x0] exI [of _ r] exI [of _ c] exI [of _ ?m] exI [of _ ?s]
        exI [of _ ?t]) (simp del: One_nat_def)
qed

theorem map_erase_existing_witness:
  "\<exists>m' s'. map_erase ex_mem (Some ex_map) (Some 20) = Some (1, Some m', s') \<and>
     size_f m' = 2 \<and> nodes s' 2 = None \<and>
     load (nodes s') (Some 0) key = Some (Some 30) \<and>
     load (nodes s') (Some 0) value = Some (Some 300) \<and>
     val_freed s' = [Some 200] \<and> key_freed s' = []"
proof -
  have p: "\<exists>x \<in> set (inorder ex_tree). cmp ex_map (Some 20) (lkey x) = 0"
    by (simp add: ex_tree_def ex_map_def cmp_nat_def)
  have ok: "cmp_ok (cmp ex_map)" using cmp_nat_ok by (simp add: ex_map_def)
  let ?l = "Node Leaf (Lab 1 (Some 10) (Some 100) 1) Leaf :: (nat option, nat option) ltree"
  let ?r = "Node Leaf (Lab 2 (Some 30) (Some 300) 1) Leaf :: (nat option, nat option) ltree"
  have loc: "locate (cmp ex_map) (Some 20) ex_tree [] = Some (?l, Lab 0 (Some 20) (Some 200) 2, ?r, [])"
    by (simp add: ex_tree_def ex_map_def cmp_nat_def)
  have mc: "min_ctx ?r [] = Some (Lab 2 (Some 30) (Some 300) 1, Leaf, [])" by simp
  from map_erase_existing [OF ex_inv ok p] obtain l x r c m' s' t' where
    all: "locate (cmp ex_map) (Some 20) ex_tree [] = Some (l, x, r, c) \<and>
     map_erase ex_mem (Some ex_map) (Some 20) = Some (1, Some m', s') \<and>
     size_f m' = size_f ex_map - 1 \<and>
     (length (inorder ex_tree) < 2 ^ 64 \<longrightarrow> unat (size_f m') + 1 = unat (size_f ex_map)) \<and>
     length (inorder t') + 1 = length (inorder ex_tree) \<and>
     map_inv m' s' t' \<and>
     (l \<noteq> Leaf \<and> r \<noteq> Leaf \<longrightarrow> (\<exists>z zr cz. min_ctx r [] = Some (z, zr, cz) \<and>
        r = plug (Node Leaf z zr) cz \<and>
        nodes s' (adr z) = None \<and> set (addrs t') = set (addrs ex_tree) - {adr z} \<and>
        load (nodes s') (Some (adr x)) key = Some (lkey z) \<and>
        load (nodes s') (Some (adr x)) value = Some (lval z))) \<and>
     (l = Leaf \<or> r = Leaf \<longrightarrow> nodes s' (adr x) = None \<and> set (addrs t') = set (addrs ex_tree) - {adr x}) \<and>
     key_freed s' = (if key_free ex_map \<and> lkey x \<noteq> None then [lkey x] else []) @ key_freed ex_mem \<and>
     val_freed s' = (if val_free ex_map \<and> lval x \<noteq> None then [lval x] else []) @ val_freed ex_mem"
    by (elim exE) (rule that)
  note l = all [THEN conjunct1]
  note e = all [THEN conjunct2, THEN conjunct1]
  note sz = all [THEN conjunct2, THEN conjunct2, THEN conjunct1]
  note r6 = all [THEN conjunct2, THEN conjunct2, THEN conjunct2, THEN conjunct2, THEN conjunct2,
      THEN conjunct2]
  note two = r6 [THEN conjunct1]
  note logs = r6 [THEN conjunct2, THEN conjunct2]
  from l loc have eq: "l = ?l" "x = Lab 0 (Some 20) (Some 200) 2" "r = ?r" by simp_all
  from two eq have "\<exists>z zr cz. min_ctx ?r [] = Some (z, zr, cz) \<and>
        nodes s' (adr z) = None \<and>
        load (nodes s') (Some 0) key = Some (lkey z) \<and>
        load (nodes s') (Some 0) value = Some (lval z)"
    by simp
  then have "nodes s' 2 = None \<and> load (nodes s') (Some 0) key = Some (Some 30) \<and>
      load (nodes s') (Some 0) value = Some (Some 300)"
    unfolding mc by auto
  then show ?thesis using e sz logs eq
    by (intro exI [of _ m'] exI [of _ s']) (simp add: ex_map_def ex_mem_def)
qed


section \<open>The invariant after any sequence of operations\<close>

text \<open>
  \<open>reach m0 s0 m s\<close>: the map \<open>m\<close> in the memory \<open>s\<close> comes from \<open>m0\<close> in \<open>s0\<close> by a finite
  sequence of calls of \<^verbatim>\<open>map_insert\<close>, \<^verbatim>\<open>map_put\<close> and \<^verbatim>\<open>map_erase\<close>, where every block that
  \<^verbatim>\<open>malloc\<close> hands out is one that is not live.
\<close>

inductive reach :: "('k, 'v) map_t \<Rightarrow> ('k, 'v) mem \<Rightarrow> ('k, 'v) map_t \<Rightarrow> ('k, 'v) mem \<Rightarrow> bool"
  for m0 :: "('k, 'v) map_t" and s0 :: "('k, 'v) mem" where
  start: "reach m0 s0 m0 s0"
| insert: "reach m0 s0 m s \<Longrightarrow> (\<forall>a. b = Some a \<longrightarrow> nodes s a = None) \<Longrightarrow>
     map_insert s (Some m) k v b = Some (rc, Some m', s') \<Longrightarrow> reach m0 s0 m' s'"
| put: "reach m0 s0 m s \<Longrightarrow> (\<forall>a. b = Some a \<longrightarrow> nodes s a = None) \<Longrightarrow>
     map_put s (Some m) k v b = Some (rc, Some m', s') \<Longrightarrow> reach m0 s0 m' s'"
| erase: "reach m0 s0 m s \<Longrightarrow>
     map_erase s (Some m) k = Some (rc, Some m', s') \<Longrightarrow> reach m0 s0 m' s'"

text \<open>The callbacks of a map with a proper comparator and key duplication.\<close>

definition policy_ok :: "('k, 'v) map_t \<Rightarrow> bool" where
  "policy_ok m \<longleftrightarrow> cmp_ok (cmp m) \<and> dup_ok m"

text \<open>Two structures that differ in the root and the size only.\<close>

definition same_policy :: "('k, 'v) map_t \<Rightarrow> ('k, 'v) map_t \<Rightarrow> bool" where
  "same_policy m m' \<longleftrightarrow> (\<exists>rt sz. m' = m\<lparr>root := rt, size_f := sz\<rparr>)"

lemma same_policy_refl: "same_policy m m"
  unfolding same_policy_def by (rule exI [of _ "root m"], rule exI [of _ "size_f m"]) simp

lemma same_policy_trans: "same_policy m m' \<Longrightarrow> same_policy m' m'' \<Longrightarrow> same_policy m m''"
  unfolding same_policy_def
proof (elim exE)
  fix rt sz rt' sz'
  assume "m' = m\<lparr>root := rt, size_f := sz\<rparr>" "m'' = m'\<lparr>root := rt', size_f := sz'\<rparr>"
  then have "m'' = m\<lparr>root := rt', size_f := sz'\<rparr>" by simp
  then show "\<exists>rt sz. m'' = m\<lparr>root := rt, size_f := sz\<rparr>" by (intro exI)
qed

lemma same_policy_cmp: "same_policy m m' \<Longrightarrow> cmp m' = cmp m"
  unfolding same_policy_def by (elim exE) simp

lemma same_policy_ok: "same_policy m m' \<Longrightarrow> policy_ok m \<Longrightarrow> policy_ok m'"
  by (auto simp: same_policy_def policy_ok_def dup_ok_def stored_key_def)

lemma map_insert_step:
  assumes inv: "map_inv m s t" and pol: "policy_ok m"
    and fresh: "\<forall>a. b = Some a \<longrightarrow> nodes s a = None"
  shows "\<exists>rc m' s' t'. map_insert s (Some m) k v b = Some (rc, Some m', s') \<and>
     map_inv m' s' t' \<and> same_policy m m'"
proof -
  from inv have t: "tree_at (nodes s) None t" "root m = rootp t" by (simp_all add: map_inv_def)
  from pol have ok: "cmp_ok (cmp m)" and dup: "dup_ok m" by (simp_all add: policy_ok_def)
  have same: "map_insert s (Some m) k v b = Some (rc, Some m, s) \<Longrightarrow> ?thesis" for rc
    using inv same_policy_refl [of m]
    by (intro exI [of _ rc] exI [of _ m] exI [of _ s] exI [of _ t]) simp
  show ?thesis
  proof (cases "lookup (cmp m) k t")
    case (Some x)
    show ?thesis by (rule same [OF map_insert_present [OF t Some]])
  next
    case None
    show ?thesis
    proof (cases b)
      case b: None
      show ?thesis using same [of "- 1"] map_insert_oom [OF t None, of v] b by simp
    next
      case (Some a)
      then have "nodes s a = None" using fresh by simp
      from map_insert_new [OF inv ok dup None this, of v] obtain m' s' t' where
        r: "map_insert s (Some m) k v (Some a) = Some (1, Some m', s')" "map_inv m' s' t'"
          and m': "m' = m\<lparr>root := rootp t', size_f := (if t = Leaf then 1 else size_f m + 1)\<rparr>"
        by (elim exE conjE) (rule that)
      have sp: "same_policy m m'"
        unfolding same_policy_def
        by (intro exI [of _ "rootp t'"] exI [of _ "if t = Leaf then 1 else size_f m + 1"]) (rule m')
      show ?thesis unfolding Some
        by (intro exI [of _ 1] exI [of _ m'] exI [of _ s'] exI [of _ t'] conjI r sp)
    qed
  qed
qed

lemma map_put_step:
  assumes inv: "map_inv m s t" and pol: "policy_ok m"
    and fresh: "\<forall>a. b = Some a \<longrightarrow> nodes s a = None"
    and live: "\<forall>x. lookup (cmp m) k t = Some x \<longrightarrow> \<not> reads_released m (lval x) v"
  shows "\<exists>rc m' s' t'. map_put s (Some m) k v b = Some (rc, Some m', s') \<and>
     map_inv m' s' t' \<and> same_policy m m'"
proof -
  from inv have t: "tree_at (nodes s) None t" "root m = rootp t" by (simp_all add: map_inv_def)
  show ?thesis
  proof (cases "lookup (cmp m) k t")
    case (Some x)
    have "\<not> reads_released m (lval x) v" using live Some by simp
    from map_put_present [OF inv Some this, of b] obtain nd where
      r: "map_put s (Some m) k v b = Some (2, Some m,
         s\<lparr>val_freed := (if val_free m then [lval x] else []) @ val_freed s,
           nodes := (nodes s)(adr x \<mapsto> nd\<lparr>value := stored_val m v\<rparr>)\<rparr>)"
        "map_inv m (s\<lparr>val_freed := (if val_free m then [lval x] else []) @ val_freed s,
           nodes := (nodes s)(adr x \<mapsto> nd\<lparr>value := stored_val m v\<rparr>)\<rparr>)
           (set_val (adr x) (stored_val m v) t)"
      by (elim exE conjE) (rule that)
    show ?thesis using r same_policy_refl [of m]
      by (intro exI [of _ 2] exI [of _ m]
          exI [of _ "s\<lparr>val_freed := (if val_free m then [lval x] else []) @ val_freed s,
           nodes := (nodes s)(adr x \<mapsto> nd\<lparr>value := stored_val m v\<rparr>)\<rparr>"]
          exI [of _ "set_val (adr x) (stored_val m v) t"]) simp
  next
    case None
    show ?thesis using map_put_absent [OF t None, of v b] map_insert_step [OF inv pol fresh, of k v] by simp
  qed
qed

lemma map_erase_step:
  assumes inv: "map_inv m s t"
  shows "\<exists>rc m' s' t'. map_erase s (Some m) k = Some (rc, Some m', s') \<and>
     map_inv m' s' t' \<and> same_policy m m'"
proof -
  from inv have t: "tree_at (nodes s) None t" "root m = rootp t" by (simp_all add: map_inv_def)
  show ?thesis
  proof (cases "lookup (cmp m) k t")
    case None
    show ?thesis using map_erase_absent [OF t None] inv same_policy_refl [of m]
      by (intro exI [of _ 0] exI [of _ m] exI [of _ s] exI [of _ t]) simp
  next
    case (Some x)
    then obtain l r c where loc: "locate (cmp m) k t [] = Some (l, x, r, c)"
      by (rule lookup_locate)
    obtain child c' y where dc: "del_ctx l x r c = (child, c', y)" by (cases "del_ctx l x r c")
    let ?t = "rebal_up child c'"
    let ?m = "m\<lparr>root := rootp ?t, size_f := size_f m - 1\<rparr>"
    from map_erase_present [OF inv loc dc] obtain h' where
      r: "map_erase s (Some m) k = Some (1, Some ?m, (freed m y h' s)\<lparr>nodes := h'\<rparr>)"
        "map_inv ?m ((freed m y h' s)\<lparr>nodes := h'\<rparr>) ?t"
      by (elim exE conjE) (rule that)
    have "same_policy m ?m"
      unfolding same_policy_def
      by (intro exI [of _ "rootp ?t"] exI [of _ "size_f m - 1"]) simp
    then show ?thesis using r
      by (intro exI [of _ 1] exI [of _ ?m] exI [of _ "(freed m y h' s)\<lparr>nodes := h'\<rparr>"]
          exI [of _ ?t]) simp
  qed
qed

lemma reach_inv:
  assumes "reach m0 s0 m s" and "map_inv m0 s0 t0" and "policy_ok m0"
  shows "(\<exists>t. map_inv m s t) \<and> policy_ok m \<and> same_policy m0 m"
  using assms
proof (induction rule: reach.induct)
  case start
  then show ?case using same_policy_refl [of m0] by blast
next
  case (insert m s b k v rc m' s')
  then obtain t where t: "map_inv m s t" and pol: "policy_ok m" and sp: "same_policy m0 m" by blast
  from map_insert_step [OF t pol insert.hyps(2), of k v] obtain rc1 m1 s1 t1 where
    r: "map_insert s (Some m) k v b = Some (rc1, Some m1, s1)" "map_inv m1 s1 t1" "same_policy m m1"
    by (elim exE conjE) (rule that)
  from r(1) insert.hyps(3) have "m1 = m'" "s1 = s'" by simp_all
  then show ?case using r(2) same_policy_ok [OF r(3) pol] same_policy_trans [OF sp r(3)] by auto
next
  case (put m s b k v rc m' s')
  then obtain t where t: "map_inv m s t" and pol: "policy_ok m" and sp: "same_policy m0 m" by blast
  have live: "\<forall>x. lookup (cmp m) k t = Some x \<longrightarrow> \<not> reads_released m (lval x) v"
    using map_put_released [OF t, of k _ v b] put.hyps(3) by fastforce
  from map_put_step [OF t pol put.hyps(2) live] obtain rc1 m1 s1 t1 where
    r: "map_put s (Some m) k v b = Some (rc1, Some m1, s1)" "map_inv m1 s1 t1" "same_policy m m1"
    by (elim exE conjE) (rule that)
  from r(1) put.hyps(3) have "m1 = m'" "s1 = s'" by simp_all
  then show ?case using r(2) same_policy_ok [OF r(3) pol] same_policy_trans [OF sp r(3)] by auto
next
  case (erase m s k rc m' s')
  then obtain t where t: "map_inv m s t" and pol: "policy_ok m" and sp: "same_policy m0 m" by blast
  from map_erase_step [OF t, of k] obtain rc1 m1 s1 t1 where
    r: "map_erase s (Some m) k = Some (rc1, Some m1, s1)" "map_inv m1 s1 t1" "same_policy m m1"
    by (elim exE conjE) (rule that)
  from r(1) erase.hyps(2) have "m1 = m'" "s1 = s'" by simp_all
  then show ?case using r(2) same_policy_ok [OF r(3) pol] same_policy_trans [OF sp r(3)] by auto
qed

text \<open>
  \<open>node_balanced h a\<close>: at the node \<open>a\<close>, the heights \<^verbatim>\<open>node_height\<close> reads for the two
  children (0 for \<^verbatim>\<open>NULL\<close>) differ by at most one, and the height field is one more than
  the larger of them.
\<close>

definition node_balanced :: "('k, 'v, 'x) heap \<Rightarrow> addr \<Rightarrow> bool" where
  "node_balanced h a = (case h a of None \<Rightarrow> False
     | Some nd \<Rightarrow> (case node_height h (left nd) of None \<Rightarrow> False
         | Some hl \<Rightarrow> (case node_height h (right nd) of None \<Rightarrow> False
             | Some hr \<Rightarrow> \<bar>hl - hr\<bar> \<le> 1 \<and> height nd = 1 + max hl hr)))"

lemma avl_node_balanced:
  "tree_at h par t \<Longrightarrow> avl t \<Longrightarrow> a \<in> set (addrs t) \<Longrightarrow> node_balanced h a"
proof (induction t arbitrary: par)
  case Leaf
  then show ?case by simp
next
  case (Node l x r)
  from Node.prems(1) obtain nd where nd: "h (adr x) = Some nd" "height nd = lht x"
    "left nd = rootp l" "right nd = rootp r"
    and l: "tree_at h (Some (adr x)) l" and r: "tree_at h (Some (adr x)) r"
    by (auto simp: tree_at_Node_iff)
  from Node.prems(3) consider "a \<in> set (addrs l)" | "a = adr x" | "a \<in> set (addrs r)" by auto
  then show ?case
  proof cases
    case 1
    then show ?thesis using Node.IH(1) [OF l] Node.prems(2) by simp
  next
    case 2
    then show ?thesis using nd node_height_tree [OF l] node_height_tree [OF r] Node.prems(2)
      by (simp add: node_balanced_def)
  next
    case 3
    then show ?thesis using Node.IH(2) [OF r] Node.prems(2) by simp
  qed
qed

lemma map_create_inv:
  assumes "map_create (Some c) kd kf vd vf True = Some m0"
  shows "map_inv m0 s0 Leaf" and "cmp m0 = c"
  using assms by (auto simp: map_create_def map_inv_def sorted_keys_def)

text \<open>
  Take a map that \<^verbatim>\<open>map_create\<close> returned, with a comparator that is a strict weak order
  and a \<^verbatim>\<open>key_dup\<close> (if any) whose result compares as its argument, and apply any finite
  sequence of \<^verbatim>\<open>map_insert\<close>, \<^verbatim>\<open>map_put\<close> and \<^verbatim>\<open>map_erase\<close> calls that return. Then the nodes
  reachable from \<^verbatim>\<open>m->root\<close> form a tree \<open>t\<close> with consistent links in which every node is
  balanced (child heights differ by at most one, the height field is one more than the
  larger child height, absent children counting 0) and the search-tree order holds at
  every node for the map's comparator; \<^verbatim>\<open>m->size\<close> counts the nodes. Moreover every
  further call of \<^verbatim>\<open>map_insert\<close> and of \<^verbatim>\<open>map_erase\<close> returns, and so does every call of
  \<^verbatim>\<open>map_put\<close> whose duplication does not read the object just released.
\<close>

lemma map_invariants_hold:
  assumes "map_create (Some c) kd kf vd vf True = Some m0"
    and "cmp_ok c" and "dup_ok m0" and "reach m0 s0 m s"
  shows "\<exists>t. root m = rootp t \<and> tree_at (nodes s) None t \<and> distinct (addrs t) \<and>
     (\<forall>a \<in> set (addrs t). node_balanced (nodes s) a) \<and>
     cmp m = c \<and> bst c t \<and> size_f m = of_nat (length (inorder t)) \<and>
     (\<forall>k v b. (\<forall>a. b = Some a \<longrightarrow> nodes s a = None) \<longrightarrow>
        (\<exists>rc m' s'. map_insert s (Some m) k v b = Some (rc, Some m', s')) \<and>
        ((\<forall>old. map_find s (Some m) k = Some old \<longrightarrow> \<not> reads_released m old v) \<longrightarrow>
           (\<exists>rc m' s'. map_put s (Some m) k v b = Some (rc, Some m', s')))) \<and>
     (\<forall>k. \<exists>rc m' s'. map_erase s (Some m) k = Some (rc, Some m', s'))"
proof -
  note cr = map_create_inv [OF assms(1)]
  have pol0: "policy_ok m0" using assms(2,3) cr(2) by (simp add: policy_ok_def)
  from reach_inv [OF assms(4) cr(1) pol0] obtain t where
    inv: "map_inv m s t" and pol: "policy_ok m" and sp: "same_policy m0 m"
    by (elim exE conjE) (rule that)
  have c: "cmp m = c" using same_policy_cmp [OF sp] cr(2) by simp
  from inv have t: "root m = rootp t" "tree_at (nodes s) None t" "distinct (addrs t)"
    and av: "avl t" and so: "sorted_keys (cmp m) t"
    and sz: "size_f m = of_nat (length (inorder t))"
    by (simp_all add: map_inv_def)
  have bal: "\<forall>a \<in> set (addrs t). node_balanced (nodes s) a"
    using avl_node_balanced [OF t(2) av] by blast
  have b: "bst c t" using sorted_keys_bst [OF assms(2)] so c by simp
  have ins: "\<exists>rc m' s'. map_insert s (Some m) k v b = Some (rc, Some m', s')"
    if "\<forall>a. b = Some a \<longrightarrow> nodes s a = None" for k v b
  proof -
    from map_insert_step [OF inv pol that, of k v] obtain rc m' s' where
      "map_insert s (Some m) k v b = Some (rc, Some m', s')"
      by (elim exE conjE) (rule that)
    then show ?thesis by (intro exI)
  qed
  have put: "\<exists>rc m' s'. map_put s (Some m) k v b = Some (rc, Some m', s')"
    if fresh: "\<forall>a. b = Some a \<longrightarrow> nodes s a = None"
      and alive: "\<forall>old. map_find s (Some m) k = Some old \<longrightarrow> \<not> reads_released m old v" for k v b
  proof -
    have live: "\<forall>x. lookup (cmp m) k t = Some x \<longrightarrow> \<not> reads_released m (lval x) v"
      using alive map_find_tree [OF t(2,1), of k] by auto
    from map_put_step [OF inv pol fresh live] obtain rc m' s' where
      "map_put s (Some m) k v b = Some (rc, Some m', s')"
      by (elim exE conjE) (rule that)
    then show ?thesis by (intro exI)
  qed
  have er: "\<exists>rc m' s'. map_erase s (Some m) k = Some (rc, Some m', s')" for k
  proof -
    from map_erase_step [OF inv, of k] obtain rc m' s' where
      "map_erase s (Some m) k = Some (rc, Some m', s')"
      by (elim exE conjE) (rule that)
    then show ?thesis by (intro exI)
  qed
  show ?thesis
    apply (rule exI [of _ t])
    apply (intro conjI t bal c b sz allI impI)
      apply (erule ins)
     apply (erule put, assumption)
    apply (rule er)
    done
qed

section \<open>A run with a rotation, a replacement and a removal\<close>

text \<open>
  A map that owns its keys and values, as \<^verbatim>\<open>map_create\<close> returns it, and the calls
  \<^verbatim>\<open>map_insert\<close> of the keys 1, 2 and 3 (the third one rotates at the root), \<^verbatim>\<open>map_put\<close> on
  the key 2, which is present, and \<^verbatim>\<open>map_erase\<close> of the key 2, whose node has two children.
\<close>

definition own_map0 :: "(nat, nat) map_t" where
  "own_map0 = \<lparr>root = None, size_f = 0, cmp = cmp_content, key_dup = Some dup_copy,
     key_free = True, val_dup = Some dup_copy, val_free = True\<rparr>"

definition run_ops :: "((nat, nat) map_t option \<times> (nat, nat) mem) option" where
  "run_ops = do {
     (rc1, m1, s1) \<leftarrow> map_insert empty_mem (Some own_map0) (Some 1) (Some 10) (Some 0);
     (rc2, m2, s2) \<leftarrow> map_insert s1 m1 (Some 2) (Some 20) (Some 1);
     (rc3, m3, s3) \<leftarrow> map_insert s2 m2 (Some 3) (Some 30) (Some 2);
     (rc4, m4, s4) \<leftarrow> map_put s3 m3 (Some 2) (Some 21) None;
     (rc5, m5, s5) \<leftarrow> map_erase s4 m4 (Some 2);
     Some (m5, s5)
   }"

definition run_mem :: "(nat, nat) mem" where
  "run_mem = \<lparr>nodes = [
     0 \<mapsto> \<lparr>key = Some 1001, value = Some 1010, left = None, right = None, parent = Some 1, height = 1\<rparr>,
     1 \<mapsto> \<lparr>key = Some 1003, value = Some 1030, left = Some 0, right = None, parent = None, height = 2\<rparr>],
     key_freed = [Some 1002], val_freed = [Some 1021, Some 1020]\<rparr>"

lemmas run_simps = map_insert_def insert_descend.simps node_new_def rebalance_loop.simps
  rebalance_at_def rotate_left_def rotate_right_def update_height_def set_child_def
  clear_root_parent_def load_def store_def node_height_def map_put_def reads_released_def
  find_node_def find_node_loop.simps map_erase_def erase_node.simps subtree_min_def
  leftmost.simps node_free_def cmp_content_def cmp_nat_def dup_copy_def own_map0_def
  empty_mem_def

lemma run_steps:
  defines "s1 \<equiv> \<lparr>nodes = [
       0 \<mapsto> \<lparr>key = Some 1001, value = Some 1010, left = None, right = None, parent = None, height = 1\<rparr>],
       key_freed = [], val_freed = []\<rparr> :: (nat, nat) mem"
    and "s2 \<equiv> \<lparr>nodes = [
       0 \<mapsto> \<lparr>key = Some 1001, value = Some 1010, left = None, right = Some 1, parent = None, height = 2\<rparr>,
       1 \<mapsto> \<lparr>key = Some 1002, value = Some 1020, left = None, right = None, parent = Some 0, height = 1\<rparr>],
       key_freed = [], val_freed = []\<rparr> :: (nat, nat) mem"
    and "s3 \<equiv> \<lparr>nodes = [
       0 \<mapsto> \<lparr>key = Some 1001, value = Some 1010, left = None, right = None, parent = Some 1, height = 1\<rparr>,
       1 \<mapsto> \<lparr>key = Some 1002, value = Some 1020, left = Some 0, right = Some 2, parent = None, height = 2\<rparr>,
       2 \<mapsto> \<lparr>key = Some 1003, value = Some 1030, left = None, right = None, parent = Some 1, height = 1\<rparr>],
       key_freed = [], val_freed = []\<rparr> :: (nat, nat) mem"
    and "s4 \<equiv> \<lparr>nodes = [
       0 \<mapsto> \<lparr>key = Some 1001, value = Some 1010, left = None, right = None, parent = Some 1, height = 1\<rparr>,
       1 \<mapsto> \<lparr>key = Some 1002, value = Some 1021, left = Some 0, right = Some 2, parent = None, height = 2\<rparr>,
       2 \<mapsto> \<lparr>key = Some 1003, value = Some 1030, left = None, right = None, parent = Some 1, height = 1\<rparr>],
       key_freed = [], val_freed = [Some 1020]\<rparr> :: (nat, nat) mem"
  shows "map_insert empty_mem (Some own_map0) (Some 1) (Some 10) (Some 0) =
           Some (1, Some (own_map0\<lparr>root := Some 0, size_f := 1\<rparr>), s1)"
    and "map_insert s1 (Some (own_map0\<lparr>root := Some 0, size_f := 1\<rparr>)) (Some 2) (Some 20) (Some 1) =
           Some (1, Some (own_map0\<lparr>root := Some 0, size_f := 2\<rparr>), s2)"
    and "map_insert s2 (Some (own_map0\<lparr>root := Some 0, size_f := 2\<rparr>)) (Some 3) (Some 30) (Some 2) =
           Some (1, Some (own_map0\<lparr>root := Some 1, size_f := 3\<rparr>), s3)"
    and "map_put s3 (Some (own_map0\<lparr>root := Some 1, size_f := 3\<rparr>)) (Some 2) (Some 21) None =
           Some (2, Some (own_map0\<lparr>root := Some 1, size_f := 3\<rparr>), s4)"
    and "map_erase s4 (Some (own_map0\<lparr>root := Some 1, size_f := 3\<rparr>)) (Some 2) =
           Some (1, Some (own_map0\<lparr>root := Some 1, size_f := 2\<rparr>), run_mem)"
    and "nodes empty_mem 0 = None" and "nodes s1 1 = None" and "nodes s2 2 = None"
proof -
  show "map_insert empty_mem (Some own_map0) (Some 1) (Some 10) (Some 0) =
           Some (1, Some (own_map0\<lparr>root := Some 0, size_f := 1\<rparr>), s1)"
    by (simp add: run_simps s1_def)
  have "\<exists>s'. map_insert s1 (Some (own_map0\<lparr>root := Some 0, size_f := 1\<rparr>)) (Some 2) (Some 20) (Some 1) =
           Some (1, Some (own_map0\<lparr>root := Some 0, size_f := 2\<rparr>), s') \<and>
           (\<forall>a. nodes s' a = nodes s2 a) \<and> key_freed s' = key_freed s2 \<and> val_freed s' = val_freed s2"
    by (simp add: run_simps s1_def s2_def)
  then show "map_insert s1 (Some (own_map0\<lparr>root := Some 0, size_f := 1\<rparr>)) (Some 2) (Some 20) (Some 1) =
           Some (1, Some (own_map0\<lparr>root := Some 0, size_f := 2\<rparr>), s2)"
    by (auto simp: fun_eq_iff)
  have "\<exists>s'. map_insert s2 (Some (own_map0\<lparr>root := Some 0, size_f := 2\<rparr>)) (Some 3) (Some 30) (Some 2) =
           Some (1, Some (own_map0\<lparr>root := Some 1, size_f := 3\<rparr>), s') \<and>
           (\<forall>a. nodes s' a = nodes s3 a) \<and> key_freed s' = key_freed s3 \<and> val_freed s' = val_freed s3"
    by (simp add: run_simps s2_def s3_def)
  then show "map_insert s2 (Some (own_map0\<lparr>root := Some 0, size_f := 2\<rparr>)) (Some 3) (Some 30) (Some 2) =
           Some (1, Some (own_map0\<lparr>root := Some 1, size_f := 3\<rparr>), s3)"
    by (auto simp: fun_eq_iff)
  have "\<exists>s'. map_put s3 (Some (own_map0\<lparr>root := Some 1, size_f := 3\<rparr>)) (Some 2) (Some 21) None =
           Some (2, Some (own_map0\<lparr>root := Some 1, size_f := 3\<rparr>), s') \<and>
           (\<forall>a. nodes s' a = nodes s4 a) \<and> key_freed s' = key_freed s4 \<and> val_freed s' = val_freed s4"
    by (simp add: run_simps s3_def s4_def)
  then show "map_put s3 (Some (own_map0\<lparr>root := Some 1, size_f := 3\<rparr>)) (Some 2) (Some 21) None =
           Some (2, Some (own_map0\<lparr>root := Some 1, size_f := 3\<rparr>), s4)"
    by (auto simp: fun_eq_iff)
  have "\<exists>s'. map_erase s4 (Some (own_map0\<lparr>root := Some 1, size_f := 3\<rparr>)) (Some 2) =
           Some (1, Some (own_map0\<lparr>root := Some 1, size_f := 2\<rparr>), s') \<and>
           (\<forall>a. nodes s' a = nodes run_mem a) \<and> key_freed s' = key_freed run_mem \<and>
           val_freed s' = val_freed run_mem"
    by (simp add: run_simps s4_def run_mem_def)
  then show "map_erase s4 (Some (own_map0\<lparr>root := Some 1, size_f := 3\<rparr>)) (Some 2) =
           Some (1, Some (own_map0\<lparr>root := Some 1, size_f := 2\<rparr>), run_mem)"
    by (auto simp: fun_eq_iff)
qed (simp_all add: empty_mem_def s1_def s2_def)

lemma run_ops_eq: "run_ops = Some (Some (own_map0\<lparr>root := Some 1, size_f := 2\<rparr>), run_mem)"
  using run_steps(1-5) by (simp add: run_ops_def)

lemma own_map0_ok:
  "map_create (Some cmp_content) (Some dup_copy) True (Some dup_copy) True True = Some own_map0"
  "dup_ok own_map0"
  by (auto simp: map_create_def own_map0_def dup_ok_def stored_key_def cmp_content_def
      dup_copy_def option.map_comp comp_def)

lemma run_reach: "reach own_map0 empty_mem (own_map0\<lparr>root := Some 1, size_f := 2\<rparr>) run_mem"
proof -
  note r1 = reach.insert [OF reach.start _ run_steps(1)]
  note r2 = reach.insert [OF r1 _ run_steps(2)]
  note r3 = reach.insert [OF r2 _ run_steps(3)]
  note r4 = reach.put [OF r3 _ run_steps(4)]
  note r5 = reach.erase [OF r4 run_steps(5)]
  show ?thesis by (rule r5) (simp_all add: run_steps(6-8))
qed

text \<open>The invariant at the end of the run, and the tree the store holds there.\<close>

lemma map_invariants_hold_example:
  "run_ops = Some (Some (own_map0\<lparr>root := Some 1, size_f := 2\<rparr>), run_mem) \<and>
   tree_at (nodes run_mem) None
     (Node (Node Leaf (Lab 0 (Some 1001) (Some 1010) 1) Leaf) (Lab 1 (Some 1003) (Some 1030) 2) Leaf) \<and>
   (\<exists>t. rootp t = Some 1 \<and> tree_at (nodes run_mem) None t \<and>
      (\<forall>a \<in> set (addrs t). node_balanced (nodes run_mem) a) \<and> bst cmp_content t \<and>
      (of_nat (length (inorder t)) :: 64 word) = 2)"
proof -
  from map_invariants_hold [OF own_map0_ok(1) cmp_content_ok own_map0_ok(2) run_reach] obtain t where
    t: "root (own_map0\<lparr>root := Some 1, size_f := 2\<rparr>) = rootp t" "tree_at (nodes run_mem) None t"
      "\<forall>a \<in> set (addrs t). node_balanced (nodes run_mem) a" "bst cmp_content t"
      "size_f (own_map0\<lparr>root := Some 1, size_f := 2\<rparr>) = of_nat (length (inorder t))"
    by (elim exE conjE) (rule that)
  have "tree_at (nodes run_mem) None
     (Node (Node Leaf (Lab 0 (Some 1001) (Some 1010) 1) Leaf) (Lab 1 (Some 1003) (Some 1030) 2) Leaf)"
    by (simp add: run_mem_def tree_at_Node_iff)
  moreover have "rootp t = Some 1" "(of_nat (length (inorder t)) :: 64 word) = 2"
    using t(1,5) by simp_all
  ultimately show ?thesis using t(2,3,4) run_ops_eq by blast
qed

section \<open>The order of the keys when a key duplication fails\<close>

text \<open>
  C1. After any sequence of \<^verbatim>\<open>map_insert\<close>, \<^verbatim>\<open>map_put\<close> and \<^verbatim>\<open>map_erase\<close> calls on a map that
  \<^verbatim>\<open>map_create\<close> returned, every node is to be balanced with its height field right and the
  keys are to be in search-tree order. The order is lost when \<^verbatim>\<open>key_dup\<close> fails:
  \<^verbatim>\<open>node_new\<close> tests what \<^verbatim>\<open>malloc\<close> returns for the node but stores what \<^verbatim>\<open>key_dup\<close> returns
  as it is, and \<^verbatim>\<open>map_insert\<close> returns 1. With a \<^verbatim>\<open>key_dup\<close> that returns \<^verbatim>\<open>NULL\<close>, both
  inserts below return 1, the store then holds the tree \<open>oom_tree\<close> below the root, its two
  keys are \<^verbatim>\<open>NULL\<close> and compare equal, and the right child is not greater than the root:
  the tree is no search tree. (For a map whose \<^verbatim>\<open>key_dup\<close> returns a key that compares as
  its argument the invariant holds after every sequence of calls that return: lemma
  \<open>map_invariants_hold\<close>.)
\<close>

theorem map_insert_stores_failed_key_dup:
  "map_create (Some cmp_nat) (Some dup_fails) True None False True = Some oom_map0 \<and>
   map_insert empty_mem (Some oom_map0) (Some 5) (Some 50) (Some 0) = Some (1, Some oom_map1, oom_mem1) \<and>
   map_insert oom_mem1 (Some oom_map1) (Some 7) (Some 70) (Some 1) = Some (1, Some oom_map2, oom_mem2) \<and>
   root oom_map2 = rootp oom_tree \<and> tree_at (nodes oom_mem2) None oom_tree \<and>
   keys oom_tree = [None, None] \<and> cmp_nat None None = 0 \<and> \<not> bst cmp_nat oom_tree"
proof -
  have "root oom_map2 = rootp oom_tree" by (simp add: oom_map2_def oom_map0_def oom_tree_def)
  moreover have "tree_at (nodes oom_mem2) None oom_tree"
    by (simp add: oom_mem2_def oom_tree_def tree_at_Node_iff)
  moreover have "keys oom_tree = [None, None]" by (simp add: oom_tree_def)
  moreover have "cmp_nat None None = 0" by (simp add: cmp_nat_def)
  moreover have "\<not> bst cmp_nat oom_tree" by (simp add: oom_tree_def cmp_nat_def)
  ultimately show ?thesis using oom_steps by simp
qed


section \<open>Iteration\<close>

text \<open>
  The traversal loop of the example program,
  \<^verbatim>\<open>for (it = map_begin(m); it != map_end(m); it = map_next(it))\<close>, from the iterator \<open>it\<close> on:
  the iterators it visits, each with the key \<^verbatim>\<open>map_iter_key\<close> reads there. The second loop
  is the same with \<^verbatim>\<open>map_prev\<close>.
\<close>

partial_function (option) iterate_next :: "('k, 'v) dheap \<Rightarrow> ('k, 'v) map_t option \<Rightarrow> ptr \<Rightarrow>
    (ptr \<times> 'k option) list option" where
  "iterate_next h m it =
     (if it = map_end m then Some []
      else do {
        k \<leftarrow> map_iter_key h it;
        nx \<leftarrow> map_next h it;
        rest \<leftarrow> iterate_next h m nx;
        Some ((it, k) # rest)
      })"

partial_function (option) iterate_prev :: "('k, 'v) dheap \<Rightarrow> ('k, 'v) map_t option \<Rightarrow> ptr \<Rightarrow>
    (ptr \<times> 'k option) list option" where
  "iterate_prev h m it =
     (if it = map_end m then Some []
      else do {
        k \<leftarrow> map_iter_key h it;
        pv \<leftarrow> map_prev h it;
        rest \<leftarrow> iterate_prev h m pv;
        Some ((it, k) # rest)
      })"

text \<open>The pointers to the first and to the last node of a list of nodes.\<close>

definition hdp :: "('k, 'v) lab list \<Rightarrow> ptr" where
  "hdp xs = (case xs of [] \<Rightarrow> None | y # ys \<Rightarrow> Some (adr y))"

definition lastp :: "('k, 'v) lab list \<Rightarrow> ptr" where
  "lastp xs = (if xs = [] then None else Some (adr (last xs)))"

lemma hdp_simps [simp]: "hdp [] = None" "hdp (y # ys) = Some (adr y)"
  by (simp_all add: hdp_def)

lemma lastp_simps [simp]: "lastp [] = None" "lastp (ys @ [y]) = Some (adr y)" "lastp [y] = Some (adr y)"
  by (simp_all add: lastp_def)

lemma hdp_append: "hdp (xs @ ys) = (if xs = [] then hdp ys else hdp xs)"
  by (cases xs) auto

lemma lastp_append: "lastp (xs @ ys) = (if ys = [] then lastp xs else lastp ys)"
  by (auto simp: lastp_def)

lemma lastp_Cons: "lastp (x # xs) = (if xs = [] then Some (adr x) else lastp xs)"
  by (auto simp: lastp_def)

lemma inorder_Nil_iff [simp]: "inorder t = [] \<longleftrightarrow> t = Leaf"
  by (cases t) auto

lemma leftmost_hd:
  "tree_at h par t \<Longrightarrow> t \<noteq> Leaf \<Longrightarrow> leftmost h (rootp t) = Some (hdp (inorder t))"
proof (induction t arbitrary: par)
  case Leaf
  then show ?case by simp
next
  case (Node l x r)
  note t = Node.prems(1)
  show ?case
  proof (cases "l = Leaf")
    case True
    then show ?thesis using load_left_tree [OF t] by (subst leftmost.simps) simp
  next
    case False
    have "leftmost h (rootp l) = Some (hdp (inorder l))"
      by (rule Node.IH(1) [OF tree_at_left [OF t] False])
    then show ?thesis using load_left_tree [OF t] False
      by (subst leftmost.simps) (simp add: hdp_append)
  qed
qed

lemma rightmost_last:
  "tree_at h par t \<Longrightarrow> t \<noteq> Leaf \<Longrightarrow> rightmost h (rootp t) = Some (lastp (inorder t))"
proof (induction t arbitrary: par)
  case Leaf
  then show ?case by simp
next
  case (Node l x r)
  note t = Node.prems(1)
  show ?case
  proof (cases "r = Leaf")
    case True
    then show ?thesis using load_right_tree [OF t] by (subst rightmost.simps) (simp add: lastp_append lastp_Cons)
  next
    case False
    have "rightmost h (rootp r) = Some (lastp (inorder r))"
      by (rule Node.IH(2) [OF tree_at_right [OF t] False])
    then show ?thesis using load_right_tree [OF t] False
      by (subst rightmost.simps) (simp add: lastp_append lastp_Cons)
  qed
qed

lemma climb_right_ctx:
  "ctx_at h (Some a) c \<Longrightarrow> a \<notin> set (caddrs c) \<Longrightarrow> distinct (caddrs c) \<Longrightarrow>
   climb_right h (hp c) (Some a) = Some (hdp (ipost c))"
proof (induction c arbitrary: a)
  case Nil
  then show ?case by (subst climb_right.simps) simp
next
  case (Cons f c)
  obtain d x sib where f: "f = (d, x, sib)" by (cases f)
  from Cons.prems(1) f obtain nd where nd: "h (adr x) = Some nd" "parent nd = hp c"
    "if d then left nd = Some a \<and> right nd = rootp sib else left nd = rootp sib \<and> right nd = Some a"
    "ctx_at h (Some (adr x)) c"
    by (auto simp: ctx_at_Cons_iff)
  show ?case
  proof (cases d)
    case True
    have "rootp sib \<noteq> Some a" using Cons.prems(2) f by (intro rootp_not_in) simp
    then show ?thesis using nd True unfolding f by (subst climb_right.simps) simp
  next
    case False
    have "climb_right h (hp c) (Some (adr x)) = Some (hdp (ipost c))"
      using Cons.prems(2,3) f by (intro Cons.IH [OF nd(4)]) auto
    then show ?thesis using nd False unfolding f by (subst climb_right.simps) simp
  qed
qed

lemma climb_left_ctx:
  "ctx_at h (Some a) c \<Longrightarrow> a \<notin> set (caddrs c) \<Longrightarrow> distinct (caddrs c) \<Longrightarrow>
   climb_left h (hp c) (Some a) = Some (lastp (ipre c))"
proof (induction c arbitrary: a)
  case Nil
  then show ?case by (subst climb_left.simps) simp
next
  case (Cons f c)
  obtain d x sib where f: "f = (d, x, sib)" by (cases f)
  from Cons.prems(1) f obtain nd where nd: "h (adr x) = Some nd" "parent nd = hp c"
    "if d then left nd = Some a \<and> right nd = rootp sib else left nd = rootp sib \<and> right nd = Some a"
    "ctx_at h (Some (adr x)) c"
    by (auto simp: ctx_at_Cons_iff)
  show ?case
  proof (cases d)
    case False
    have "rootp sib \<noteq> Some a" using Cons.prems(2) f by (intro rootp_not_in) simp
    then show ?thesis using nd False unfolding f
      by (subst climb_left.simps) (simp add: lastp_append)
  next
    case True
    have "climb_left h (hp c) (Some (adr x)) = Some (lastp (ipre c))"
      using Cons.prems(2,3) f by (intro Cons.IH [OF nd(4)]) auto
    then show ?thesis using nd True unfolding f by (subst climb_left.simps) simp
  qed
qed

lemma map_next_tree:
  assumes t: "tree_at h None (plug (Node l x r) c)"
    and d: "distinct (addrs (plug (Node l x r) c))"
  shows "map_next h (Some (adr x)) = Some (hdp (inorder r @ ipost c))"
proof -
  from t have n: "tree_at h (hp c) (Node l x r)" and c: "ctx_at h (Some (adr x)) c"
    by (simp_all add: plug_tree_at)
  from d have dc: "adr x \<notin> set (caddrs c)" "distinct (caddrs c)"
    by (auto simp: distinct_addrs_plug)
  show ?thesis
  proof (cases "r = Leaf")
    case True
    then show ?thesis
      using load_right_tree [OF n] load_parent_tree [OF n] climb_right_ctx [OF c dc]
      by (simp add: map_next_def)
  next
    case False
    then show ?thesis
      using load_right_tree [OF n] leftmost_hd [OF tree_at_right [OF n] False]
      by (simp add: map_next_def hdp_append)
  qed
qed

lemma map_prev_tree:
  assumes t: "tree_at h None (plug (Node l x r) c)"
    and d: "distinct (addrs (plug (Node l x r) c))"
  shows "map_prev h (Some (adr x)) = Some (lastp (ipre c @ inorder l))"
proof -
  from t have n: "tree_at h (hp c) (Node l x r)" and c: "ctx_at h (Some (adr x)) c"
    by (simp_all add: plug_tree_at)
  from d have dc: "adr x \<notin> set (caddrs c)" "distinct (caddrs c)"
    by (auto simp: distinct_addrs_plug)
  show ?thesis
  proof (cases "l = Leaf")
    case True
    then show ?thesis
      using load_left_tree [OF n] load_parent_tree [OF n] climb_left_ctx [OF c dc]
      by (simp add: map_prev_def)
  next
    case False
    then show ?thesis
      using load_left_tree [OF n] rightmost_last [OF tree_at_left [OF n] False]
      by (simp add: map_prev_def lastp_append)
  qed
qed

text \<open>Every node of a tree is the root of a subtree in a context.\<close>

lemma focus:
  "inorder s = pre @ x # post \<Longrightarrow>
   \<exists>l r c. s = plug (Node l x r) c \<and> ipre c @ inorder l = pre \<and> inorder r @ ipost c = post"
proof (induction s arbitrary: pre post)
  case Leaf
  then show ?case by simp
next
  case (Node l0 y r0)
  from Node.prems have "inorder l0 @ y # inorder r0 = pre @ x # post" by simp
  then consider us where "inorder l0 = pre @ x # us" "post = us @ y # inorder r0"
    | "pre = inorder l0" "x = y" "post = inorder r0"
    | us where "inorder r0 = us @ x # post" "pre = inorder l0 @ y # us"
    by (auto simp: append_eq_append_conv2 Cons_eq_append_conv append_eq_Cons_conv)
  then show ?case
  proof cases
    case 1
    from Node.IH(1) [OF 1(1)] obtain l r c where
      "l0 = plug (Node l x r) c" "ipre c @ inorder l = pre" "inorder r @ ipost c = us" by blast
    then show ?thesis using 1(2)
      by (intro exI [of _ l] exI [of _ r] exI [of _ "c @ [(True, y, r0)]"])
        (simp add: plug_append ipre_append ipost_append)
  next
    case 2
    then show ?thesis by (intro exI [of _ l0] exI [of _ r0] exI [of _ "[]"]) simp
  next
    case 3
    from Node.IH(2) [OF 3(1)] obtain l r c where
      "r0 = plug (Node l x r) c" "ipre c @ inorder l = us" "inorder r @ ipost c = post" by blast
    then show ?thesis using 3(2)
      by (intro exI [of _ l] exI [of _ r] exI [of _ "c @ [(False, y, l0)]"])
        (auto simp: plug_append ipre_append ipost_append)
  qed
qed

definition visit :: "('k, 'v) lab \<Rightarrow> ptr \<times> 'k" where
  "visit x = (Some (adr x), lkey x)"

lemma iterate_next_tree:
  assumes t: "tree_at h None t" and d: "distinct (addrs t)"
  shows "inorder t = pre @ post \<Longrightarrow> iterate_next h m (hdp post) = Some (map visit post)"
proof (induction post arbitrary: pre)
  case Nil
  then show ?case by (subst iterate_next.simps) (simp add: map_end_def)
next
  case (Cons x post)
  from focus [OF Cons.prems] obtain l r c where
    f: "t = plug (Node l x r) c" "ipre c @ inorder l = pre" "inorder r @ ipost c = post" by blast
  from t f(1) have n: "tree_at h (hp c) (Node l x r)" by (simp add: plug_tree_at)
  have nx: "map_next h (Some (adr x)) = Some (hdp post)"
    using map_next_tree [of h l x r c] t d f by simp
  have "inorder t = (pre @ [x]) @ post" using Cons.prems by simp
  from Cons.IH [OF this] nx load_key_tree [OF n] show ?case
    by (subst iterate_next.simps) (simp add: map_end_def map_iter_key_def visit_def)
qed

lemma iterate_prev_tree:
  assumes t: "tree_at h None t" and d: "distinct (addrs t)"
  shows "inorder t = pre @ post \<Longrightarrow> iterate_prev h m (lastp pre) = Some (rev (map visit pre))"
proof (induction pre arbitrary: post rule: rev_induct)
  case Nil
  then show ?case by (subst iterate_prev.simps) (simp add: map_end_def)
next
  case (snoc x pre)
  then have "inorder t = pre @ x # post" by simp
  from focus [OF this] obtain l r c where
    f: "t = plug (Node l x r) c" "ipre c @ inorder l = pre" "inorder r @ ipost c = post" by blast
  from t f(1) have n: "tree_at h (hp c) (Node l x r)" by (simp add: plug_tree_at)
  have pv: "map_prev h (Some (adr x)) = Some (lastp pre)"
    using map_prev_tree [of h l x r c] t d f by simp
  have "inorder t = pre @ (x # post)" using snoc.prems by simp
  from snoc.IH [OF this] pv load_key_tree [OF n] show ?case
    by (subst iterate_prev.simps) (simp add: map_end_def map_iter_key_def visit_def)
qed

lemma map_begin_tree:
  assumes "tree_at (nodes s) None t" and "root m = rootp t"
  shows "map_begin s (Some m) = Some (hdp (inorder t))"
proof (cases "t = Leaf")
  case True
  then show ?thesis using assms by (simp add: map_begin_def subtree_min_def)
next
  case False
  then show ?thesis using assms leftmost_hd [OF assms(1) False]
    by (simp add: map_begin_def subtree_min_def)
qed

text \<open>
  A caller that inserts the entries of a list one after the other, each with the block
  \<^verbatim>\<open>malloc\<close> returns for its node, and collects the return codes.
\<close>

fun insert_all :: "('k, 'v) mem \<Rightarrow> ('k, 'v) map_t \<Rightarrow> ('k option \<times> 'v option \<times> addr) list \<Rightarrow>
    (int list \<times> ('k, 'v) map_t \<times> ('k, 'v) mem) option" where
  "insert_all s m [] = Some ([], m, s)"
| "insert_all s m ((k, v, a) # xs) =
     (case map_insert s (Some m) k v (Some a) of
        Some (rc, Some m', s') \<Rightarrow>
          (case insert_all s' m' xs of
             Some (rcs, m'', s'') \<Rightarrow> Some (rc # rcs, m'', s'')
           | None \<Rightarrow> None)
      | _ \<Rightarrow> None)"

text \<open>No two keys of the list compare equal.\<close>

fun distinct_keys :: "('k \<Rightarrow> 'k \<Rightarrow> int) \<Rightarrow> 'k list \<Rightarrow> bool" where
  "distinct_keys c [] = True"
| "distinct_keys c (k # ks) = ((\<forall>k' \<in> set ks. c k k' \<noteq> 0) \<and> distinct_keys c ks)"

lemma same_policy_stored_key: "same_policy m m' \<Longrightarrow> stored_key m' = stored_key m"
  unfolding same_policy_def by (elim exE) (simp add: stored_key_def fun_eq_iff)

lemma insert_all_tree:
  assumes "map_inv m s t" and "policy_ok m"
    and "\<forall>e \<in> set xs. \<forall>x \<in> set (inorder t). cmp m (fst e) (lkey x) \<noteq> 0"
    and "distinct_keys (cmp m) (map fst xs)"
    and "\<forall>e \<in> set xs. nodes s (snd (snd e)) = None"
    and "distinct (map (\<lambda>e. snd (snd e)) xs)"
  shows "\<exists>m' s' t'. insert_all s m xs = Some (replicate (length xs) 1, m', s') \<and>
     map_inv m' s' t' \<and> same_policy m m' \<and>
     set (keys t') = set (keys t) \<union> (\<lambda>e. stored_key m (fst e)) ` set xs \<and>
     length (inorder t') = length (inorder t) + length xs"
  using assms
proof (induction xs arbitrary: m s t)
  case Nil
  show ?case using Nil.prems(1) same_policy_refl [of m]
    by (intro exI [of _ m] exI [of _ s] exI [of _ t]) simp
next
  case (Cons e xs)
  obtain k v a where e: "e = (k, v, a)" by (cases e)
  note inv = Cons.prems(1)
  from Cons.prems(2) have ok: "cmp_ok (cmp m)" and dup: "dup_ok m" by (simp_all add: policy_ok_def)
  from inv have t: "tree_at (nodes s) None t" and so: "sorted_keys (cmp m) t"
    by (simp_all add: map_inv_def)
  have new: "lookup (cmp m) k t = None"
    using Cons.prems(3) e by (simp add: lookup_None_iff [OF ok so])
  have fresh: "nodes s a = None" using Cons.prems(5) e by simp
  from map_insert_new [OF inv ok dup new fresh, of v] obtain m1 s1 t1 where
    r: "map_insert s (Some m) k v (Some a) = Some (1, Some m1, s1)"
    and inv1: "map_inv m1 s1 t1"
    and m1: "m1 = m\<lparr>root := rootp t1, size_f := (if t = Leaf then 1 else size_f m + 1)\<rparr>"
    and fr: "\<forall>b. b \<noteq> a \<and> b \<notin> set (addrs t) \<longrightarrow> nodes s1 b = nodes s b"
    and it: "set (items t1) = insert (a, stored_key m k, stored_val m v) (set (items t))"
    and len: "length (inorder t1) = length (inorder t) + 1"
    by (elim exE conjE) (rule that)
  have sp: "same_policy m m1"
    unfolding same_policy_def
    by (intro exI [of _ "rootp t1"] exI [of _ "if t = Leaf then 1 else size_f m + 1"]) (rule m1)
  have pol1: "policy_ok m1" by (rule same_policy_ok [OF sp Cons.prems(2)])
  have c1: "cmp m1 = cmp m" by (rule same_policy_cmp [OF sp])
  have k1: "set (keys t1) = insert (stored_key m k) (set (keys t))"
    unfolding keys_items set_map it by simp
  have a: "\<forall>e \<in> set xs. \<forall>x \<in> set (inorder t1). cmp m1 (fst e) (lkey x) \<noteq> 0"
  proof (intro ballI)
    fix e' x assume e': "e' \<in> set xs" and x: "x \<in> set (inorder t1)"
    from x have "lkey x \<in> set (keys t1)" by (simp add: keys_def)
    then consider "lkey x = stored_key m k" | "lkey x \<in> set (keys t)" using k1 by auto
    then show "cmp m1 (fst e') (lkey x) \<noteq> 0"
    proof cases
      case 1
      have "cmp m k (fst e') \<noteq> 0" using Cons.prems(4) e e' by simp
      then have "cmp m (fst e') k \<noteq> 0" using cmp_ok_sym [OF ok] by blast
      then show ?thesis using 1 dup by (simp add: c1 dup_ok_def)
    next
      case 2
      then obtain y where "y \<in> set (inorder t)" "lkey x = lkey y" by (auto simp: keys_def)
      then show ?thesis using Cons.prems(3) e' by (simp add: c1)
    qed
  qed
  have b: "distinct_keys (cmp m1) (map fst xs)" using Cons.prems(4) by (simp add: c1)
  have c: "\<forall>e \<in> set xs. nodes s1 (snd (snd e)) = None"
  proof
    fix e' assume e': "e' \<in> set xs"
    have n: "nodes s (snd (snd e')) = None" using Cons.prems(5) e' by simp
    have "snd (snd e') \<noteq> a" using Cons.prems(6) e e' by auto
    moreover have "snd (snd e') \<notin> set (addrs t)" using tree_at_live [OF t] n by blast
    ultimately show "nodes s1 (snd (snd e')) = None" using fr n by simp
  qed
  have d: "distinct (map (\<lambda>e. snd (snd e)) xs)" using Cons.prems(6) by simp
  from Cons.IH [OF inv1 pol1 a b c d] obtain m' s' t' where
    r': "insert_all s1 m1 xs = Some (replicate (length xs) 1, m', s')"
    and inv': "map_inv m' s' t'" and sp': "same_policy m1 m'"
    and k': "set (keys t') = set (keys t1) \<union> (\<lambda>e. stored_key m1 (fst e)) ` set xs"
    and len': "length (inorder t') = length (inorder t1) + length xs"
    by (elim exE conjE) (rule that)
  have 1: "insert_all s m (e # xs) = Some (replicate (length (e # xs)) 1, m', s')"
    using r r' by (simp add: e)
  have 2: "set (keys t') = set (keys t) \<union> (\<lambda>e. stored_key m (fst e)) ` set (e # xs)"
    using k' k1 by (simp add: same_policy_stored_key [OF sp] e)
  have 3: "length (inorder t') = length (inorder t) + length (e # xs)" using len len' by simp
  show ?case
    by (intro exI [of _ m'] exI [of _ s'] exI [of _ t'] conjI 1 inv' same_policy_trans [OF sp sp'] 2 3)
qed

text \<open>
  C2. Insert entries with pairwise distinct keys into a map that \<^verbatim>\<open>map_create\<close> returned
  (comparator a strict weak order, \<^verbatim>\<open>key_dup\<close> returning a key that compares as its argument,
  \<^verbatim>\<open>malloc\<close> returning distinct blocks that are not live). Every insert returns 1, and the
  loop from \<^verbatim>\<open>map_begin\<close> with \<^verbatim>\<open>map_next\<close> until \<^verbatim>\<open>map_end\<close> returns; the keys it visits are
  strictly increasing for the comparator and are the stored keys of the entries, one
  visit for each. Backward iteration does not start at the end iterator: \<^verbatim>\<open>map_prev\<close> of
  \<^verbatim>\<open>NULL\<close> is \<^verbatim>\<open>NULL\<close>. The loop with \<^verbatim>\<open>map_prev\<close> that starts at the last node of the forward
  loop (the node of the greatest key) visits the same nodes in the reverse order.
\<close>

theorem iteration_sorted_both_ways:
  assumes "map_create (Some c) kd kf vd vf True = Some m0" and "cmp_ok c" and "dup_ok m0"
    and "distinct_keys c (map fst xs)"
    and "\<forall>e \<in> set xs. nodes s0 (snd (snd e)) = None"
    and "distinct (map (\<lambda>e. snd (snd e)) xs)"
  shows "\<exists>m s b vis. insert_all s0 m0 xs = Some (replicate (length xs) 1, m, s) \<and>
     map_begin s (Some m) = Some b \<and>
     iterate_next (nodes s) (Some m) b = Some vis \<and>
     sorted_wrt (\<lambda>j k. c j k < 0) (map snd vis) \<and>
     set (map snd vis) = (\<lambda>e. stored_key m0 (fst e)) ` set xs \<and>
     length vis = length xs \<and>
     iterate_prev (nodes s) (Some m) (if vis = [] then map_end (Some m) else fst (last vis))
       = Some (rev vis) \<and>
     map_prev (nodes s) (map_end (Some m)) = Some (map_end (Some m))"
proof -
  note cr = map_create_inv [OF assms(1)]
  have pol0: "policy_ok m0" using assms(2,3) cr(2) by (simp add: policy_ok_def)
  have a: "\<forall>e \<in> set xs. \<forall>x \<in> set (inorder Leaf). cmp m0 (fst e) (lkey x) \<noteq> 0" by simp
  have b: "distinct_keys (cmp m0) (map fst xs)" using assms(4) cr(2) by simp
  have "\<exists>m s t. insert_all s0 m0 xs = Some (replicate (length xs) 1, m, s) \<and>
     map_inv m s t \<and> same_policy m0 m \<and>
     set (keys t) = (\<lambda>e. stored_key m0 (fst e)) ` set xs \<and> length (inorder t) = length xs"
    using insert_all_tree [OF cr(1) pol0 a b assms(5,6)] by simp
  then obtain m s t where
    r: "insert_all s0 m0 xs = Some (replicate (length xs) 1, m, s)"
    and inv: "map_inv m s t" and sp: "same_policy m0 m"
    and k: "set (keys t) = (\<lambda>e. stored_key m0 (fst e)) ` set xs"
    and len: "length (inorder t) = length xs"
    by (elim exE conjE) (rule that)
  from inv have t: "tree_at (nodes s) None t" "root m = rootp t" and d: "distinct (addrs t)"
    and so: "sorted_keys (cmp m) t"
    by (simp_all add: map_inv_def)
  have cm: "cmp m = c" using same_policy_cmp [OF sp] cr(2) by simp
  let ?vis = "map visit (inorder t)"
  have sv: "map snd ?vis = keys t" by (simp add: keys_def visit_def comp_def)
  have 1: "map_begin s (Some m) = Some (hdp (inorder t))" by (rule map_begin_tree [OF t])
  have 2: "iterate_next (nodes s) (Some m) (hdp (inorder t)) = Some ?vis"
    using iterate_next_tree [OF t(1) d, of "[]" "inorder t" "Some m"] by simp
  have 3: "sorted_wrt (\<lambda>j k. c j k < 0) (map snd ?vis)"
    using so unfolding sv by (simp add: sorted_keys_def cm)
  have 4: "set (map snd ?vis) = (\<lambda>e. stored_key m0 (fst e)) ` set xs"
    unfolding sv using k by simp
  have 5: "length ?vis = length xs" using len by simp
  have st: "(if ?vis = [] then map_end (Some m) else fst (last ?vis)) = lastp (inorder t)"
    by (simp add: lastp_def map_end_def last_map visit_def)
  have 6: "iterate_prev (nodes s) (Some m) (if ?vis = [] then map_end (Some m) else fst (last ?vis))
     = Some (rev ?vis)"
    unfolding st using iterate_prev_tree [OF t(1) d, of "inorder t" "[]" "Some m"] by simp
  have 7: "map_prev (nodes s) (map_end (Some m)) = Some (map_end (Some m))"
    by (simp add: map_prev_def map_end_def)
  show ?thesis
    by (intro exI [of _ m] exI [of _ s] exI [of _ "hdp (inorder t)"] exI [of _ ?vis]
        conjI r 1 2 3 4 5 6 7)
qed

lemma sorted_three:
  assumes "sorted_wrt (\<lambda>j k. cmp_content j k < 0) ks"
    and "set ks = {Some 1001, Some 1002, Some 1003}"
    and "length ks = 3"
  shows "ks = [Some 1001, Some 1002, Some 1003]"
proof -
  from assms(3) obtain a b c where ks: "ks = [a, b, c]"
    by (auto simp: length_Suc_conv numeral_3_eq_3)
  have lt: "cmp_content a b < 0" "cmp_content b c < 0" "cmp_content a c < 0"
    using assms(1) ks by simp_all
  have m: "a \<in> {Some 1001, Some 1002, Some 1003}" "b \<in> {Some 1001, Some 1002, Some 1003}"
    "c \<in> {Some 1001, Some 1002, Some 1003}"
    using assms(2) ks by auto
  have "a = Some 1001 \<and> b = Some 1002 \<and> c = Some 1003"
    using lt m by (auto simp: cmp_content_def cmp_nat_def split: if_splits)
  then show ?thesis using ks by simp
qed

text \<open>
  In a map that owns its keys and values: the keys 2, 1 and 3 are inserted, the nodes
  store copies of them, and the two loops visit the copies in increasing and in
  decreasing order.
\<close>

theorem iteration_sorted_both_ways_witness:
  "\<exists>m s b vis. map_create (Some cmp_content) (Some dup_copy) True (Some dup_copy) True True
       = Some own_map0 \<and>
     insert_all empty_mem own_map0 [(Some 2, Some 20, 0), (Some 1, Some 10, 1), (Some 3, Some 30, 2)]
       = Some ([1, 1, 1], m, s) \<and>
     map_begin s (Some m) = Some b \<and>
     iterate_next (nodes s) (Some m) b = Some vis \<and>
     map snd vis = [Some 1001, Some 1002, Some 1003] \<and>
     iterate_prev (nodes s) (Some m) (fst (last vis)) = Some (rev vis)"
proof -
  define xs :: "(nat option \<times> nat option \<times> addr) list" where
    "xs = [(Some 2, Some 20, 0), (Some 1, Some 10, 1), (Some 3, Some 30, 2)]"
  note cr = own_map0_ok(1)
  note dup = own_map0_ok(2)
  have dk: "distinct_keys cmp_content (map fst xs)"
    by (simp add: xs_def cmp_content_def cmp_nat_def)
  have fr: "\<forall>e \<in> set xs. nodes empty_mem (snd (snd e)) = None" by (simp add: empty_mem_def)
  have da: "distinct (map (\<lambda>e. snd (snd e)) xs)" by (simp add: xs_def)
  from iteration_sorted_both_ways [OF cr cmp_content_ok dup dk fr da] obtain m s b vis where
    r: "insert_all empty_mem own_map0 xs = Some (replicate (length xs) 1, m, s)"
    and 1: "map_begin s (Some m) = Some b"
    and 2: "iterate_next (nodes s) (Some m) b = Some vis"
    and 3: "sorted_wrt (\<lambda>j k. cmp_content j k < 0) (map snd vis)"
    and 4: "set (map snd vis) = (\<lambda>e. stored_key own_map0 (fst e)) ` set xs"
    and 5: "length vis = length xs"
    and 6: "iterate_prev (nodes s) (Some m) (if vis = [] then map_end (Some m) else fst (last vis))
       = Some (rev vis)"
    by (elim exE conjE) (rule that)
  have r': "insert_all empty_mem own_map0 [(Some 2, Some 20, 0), (Some 1, Some 10, 1), (Some 3, Some 30, 2)]
       = Some ([1, 1, 1], m, s)"
    using r by (simp add: xs_def numeral_3_eq_3)
  have "set (map snd vis) = {Some 1001, Some 1002, Some 1003}"
    unfolding 4 by (auto simp: xs_def stored_key_def own_map0_def dup_copy_def)
  moreover have "length (map snd vis) = 3" using 5 by (simp add: xs_def)
  ultimately have ks: "map snd vis = [Some 1001, Some 1002, Some 1003]" using 3 by (intro sorted_three)
  then have "vis \<noteq> []" by auto
  then have 6: "iterate_prev (nodes s) (Some m) (fst (last vis)) = Some (rev vis)" using 6 by simp
  show ?thesis
    by (intro exI [of _ m] exI [of _ s] exI [of _ b] exI [of _ vis] conjI cr r' 1 2 ks 6)
qed

text \<open>
  The map with three entries is what the inserts of its keys into the created map
  leave. The forward loop visits its three keys; from the end iterator \<^verbatim>\<open>map_prev\<close> returns
  the end iterator and the backward loop visits nothing. And in the map whose \<^verbatim>\<open>key_dup\<close>
  fails the forward loop visits the key \<^verbatim>\<open>NULL\<close> twice, which is not strictly increasing.
\<close>

definition ex_map0 :: "(nat, nat) map_t" where
  "ex_map0 = \<lparr>root = None, size_f = 0, cmp = cmp_nat, key_dup = None, key_free = False,
     val_dup = None, val_free = True\<rparr>"

lemma ex_inserts:
  "insert_all empty_mem ex_map0 [(Some 20, Some 200, 0), (Some 10, Some 100, 1), (Some 30, Some 300, 2)]
     = Some ([1, 1, 1], ex_map, ex_mem)"
proof -
  have "\<exists>s'. insert_all empty_mem ex_map0
        [(Some 20, Some 200, 0), (Some 10, Some 100, 1), (Some 30, Some 300, 2)]
      = Some ([1, 1, 1], ex_map, s') \<and>
      (\<forall>a. nodes s' a = nodes ex_mem a) \<and> key_freed s' = [] \<and> val_freed s' = []"
    by (simp add: ex_map0_def ex_map_def ex_mem_def map_insert_def insert_descend.simps node_new_def
        rebalance_loop.simps rebalance_at_def update_height_def set_child_def clear_root_parent_def
        load_def store_def node_height_def cmp_nat_def empty_mem_def)
  then show ?thesis by (auto simp: fun_eq_iff ex_mem_def)
qed

theorem iterate_prev_from_end_visits_nothing:
  "map_create (Some cmp_nat) None False None True True = Some ex_map0 \<and>
   insert_all empty_mem ex_map0 [(Some 20, Some 200, 0), (Some 10, Some 100, 1), (Some 30, Some 300, 2)]
     = Some ([1, 1, 1], ex_map, ex_mem) \<and>
   map_begin ex_mem (Some ex_map) = Some (Some 1) \<and>
   iterate_next (nodes ex_mem) (Some ex_map) (Some 1)
     = Some [(Some 1, Some 10), (Some 0, Some 20), (Some 2, Some 30)] \<and>
   map_end (Some ex_map) = None \<and>
   map_prev (nodes ex_mem) None = Some None \<and>
   iterate_prev (nodes ex_mem) (Some ex_map) None = Some [] \<and>
   iterate_prev (nodes ex_mem) (Some ex_map) (map_end (Some ex_map))
     \<noteq> map_option rev (iterate_next (nodes ex_mem) (Some ex_map) (Some 1)) \<and>
   insert_all empty_mem oom_map0 [(Some 5, Some 50, 0), (Some 7, Some 70, 1)]
     = Some ([1, 1], oom_map2, oom_mem2) \<and>
   map_begin oom_mem2 (Some oom_map2) = Some (Some 0) \<and>
   iterate_next (nodes oom_mem2) (Some oom_map2) (Some 0) = Some [(Some 0, None), (Some 1, None)] \<and>
   cmp_nat None None = 0"
proof -
  from ex_inv have t: "tree_at (nodes ex_mem) None ex_tree" "root ex_map = rootp ex_tree"
    and d: "distinct (addrs ex_tree)"
    by (simp_all add: map_inv_def)
  have 0: "map_create (Some cmp_nat) None False None True True = Some ex_map0"
    by (simp add: map_create_def ex_map0_def)
  have 1: "map_begin ex_mem (Some ex_map) = Some (Some 1)"
    using map_begin_tree [OF t] by (simp add: ex_tree_def)
  have 2: "iterate_next (nodes ex_mem) (Some ex_map) (Some 1)
     = Some [(Some 1, Some 10), (Some 0, Some 20), (Some 2, Some 30)]"
    using iterate_next_tree [OF t(1) d, of "[]" "inorder ex_tree" "Some ex_map"]
    by (simp add: ex_tree_def visit_def)
  have 3: "map_end (Some ex_map) = None" by (simp add: map_end_def)
  have 4: "map_prev (nodes ex_mem) None = Some None" by (simp add: map_prev_def)
  have 5: "iterate_prev (nodes ex_mem) (Some ex_map) None = Some []"
    by (subst iterate_prev.simps) (simp add: map_end_def)
  have 6: "iterate_prev (nodes ex_mem) (Some ex_map) (map_end (Some ex_map))
     \<noteq> map_option rev (iterate_next (nodes ex_mem) (Some ex_map) (Some 1))"
    unfolding 2 3 5 by simp
  have 7: "insert_all empty_mem oom_map0 [(Some 5, Some 50, 0), (Some 7, Some 70, 1)]
     = Some ([1, 1], oom_map2, oom_mem2)"
    using oom_steps(2,3) by simp
  have ot: "tree_at (nodes oom_mem2) None oom_tree" "root oom_map2 = rootp oom_tree"
    "distinct (addrs oom_tree)"
    by (simp_all add: oom_mem2_def oom_tree_def tree_at_Node_iff oom_map2_def oom_map0_def)
  have 8: "map_begin oom_mem2 (Some oom_map2) = Some (Some 0)"
    using map_begin_tree [OF ot(1,2)] by (simp add: oom_tree_def)
  have 9: "iterate_next (nodes oom_mem2) (Some oom_map2) (Some 0)
     = Some [(Some 0, None), (Some 1, None)]"
    using iterate_next_tree [OF ot(1,3), of "[]" "inorder oom_tree" "Some oom_map2"]
    by (simp add: oom_tree_def visit_def)
  have 10: "cmp_nat None None = 0" by (simp add: cmp_nat_def)
  show ?thesis by (intro conjI 0 ex_inserts 1 2 3 4 5 6 7 8 9 10)
qed


section \<open>The pool map\<close>

text \<open>
  The last program of the file: a map from \<^verbatim>\<open>uint32_t\<close> keys to function pointers (an
  optional reference) whose nodes are the \<^verbatim>\<open>MAX_NODES\<close> slots of the array \<^verbatim>\<open>pool\<close> in the map
  structure. A node has the fields of the dynamic node and the flag \<^verbatim>\<open>in_use\<close>; a pointer
  to a node is the index of its slot, so the array is a store with the addresses below
  \<^verbatim>\<open>MAX_NODES\<close>, and the structure is that store with the header (\<^verbatim>\<open>root\<close> and \<^verbatim>\<open>size\<close>).
\<close>

definition MAX_NODES :: nat where
  "MAX_NODES = 256"

record ('k, 'v) pnode = "('k, 'v) node" +
  in_use :: int

type_synonym 'v pool = "addr \<Rightarrow> (32 word, 'v option) pnode option"

text \<open>\<^verbatim>\<open>pool_init\<close> writes every field of the structure.\<close>

definition free_slot :: "(32 word, 'v option) pnode" where
  "free_slot = \<lparr>key = 0, value = None, left = None, right = None, parent = None, height = 0,
     in_use = 0\<rparr>"

definition pool_init :: "map_hdr \<times> 'v pool" where
  "pool_init = (\<lparr>root = None, size_f = 0\<rparr>,
     fold (\<lambda>i h. h(i \<mapsto> free_slot)) [0..<MAX_NODES] (\<lambda>a. None))"

text \<open>\<^verbatim>\<open>node_alloc\<close>: the loop over the slots from the index \<open>i\<close> on.\<close>

function node_alloc_from :: "'v pool \<Rightarrow> nat \<Rightarrow> (ptr \<times> 'v pool) option" where
  "node_alloc_from h i =
     (if i < MAX_NODES then
        (case h i of None \<Rightarrow> None
         | Some nd \<Rightarrow>
             if in_use nd = 0 then
               Some (Some i, h(i \<mapsto> nd\<lparr>in_use := 1, left := None, right := None, parent := None,
                 height := 1, value := None\<rparr>))
             else node_alloc_from h (i + 1))
      else Some (None, h))"
  by pat_completeness auto

termination
  by (relation "measure (\<lambda>(h, i). MAX_NODES - i)") auto

definition node_alloc :: "'v pool \<Rightarrow> (ptr \<times> 'v pool) option" where
  "node_alloc h = node_alloc_from h 0"

text \<open>
  \<^verbatim>\<open>node_height\<close>, \<^verbatim>\<open>update_height\<close>, \<^verbatim>\<open>rotate_right\<close>, \<^verbatim>\<open>rotate_left\<close> and \<^verbatim>\<open>set_child\<close> of the pool
  program are, statement for statement, those of the dynamic program. Its \<^verbatim>\<open>rebalance_at\<close>
  tests \<^verbatim>\<open>node\<close> first and is the same from there on.
\<close>

definition pool_rebalance_at :: "'v pool \<Rightarrow> ptr \<Rightarrow> (ptr \<times> 'v pool) option" where
  "pool_rebalance_at h node = (if node = None then Some (None, h) else rebalance_at h node)"

partial_function (option) pool_rebalance_loop :: "map_hdr \<Rightarrow> 'v pool \<Rightarrow> ptr \<Rightarrow>
    (map_hdr \<times> 'v pool) option" where
  "pool_rebalance_loop m h p =
     (if p = None then Some (m, h)
      else do {
        (new_subroot, h) \<leftarrow> pool_rebalance_at h p;
        np \<leftarrow> load h new_subroot parent;
        (m, h) \<leftarrow> set_child m h np p new_subroot;
        p \<leftarrow> load h new_subroot parent;
        pool_rebalance_loop m h p
      })"

text \<open>The descent of the pool \<^verbatim>\<open>map_insert\<close>: \<open>None\<close> when it meets the key.\<close>

partial_function (option) pool_insert_descend :: "'v pool \<Rightarrow> 32 word \<Rightarrow> ptr \<Rightarrow> ptr \<Rightarrow> int \<Rightarrow>
    (ptr \<times> int) option option" where
  "pool_insert_descend h k parent_p cur cmpv =
     (if cur = None then Some (Some (parent_p, cmpv))
      else do {
        ck \<leftarrow> load h cur key;
        if k = ck then Some None
        else if k < ck then do {
          nxt \<leftarrow> load h cur left;
          pool_insert_descend h k cur nxt (- 1)
        } else do {
          nxt \<leftarrow> load h cur right;
          pool_insert_descend h k cur nxt 1
        }
      })"

text \<open>
  The pool \<^verbatim>\<open>map_insert\<close> returns 1 (inserted), 0 (existed) or -1 (pool exhausted), with
  the structure as it leaves it.
\<close>

definition pool_map_insert :: "map_hdr \<Rightarrow> 'v pool \<Rightarrow> 32 word \<Rightarrow> 'v option \<Rightarrow>
    (int \<times> map_hdr \<times> 'v pool) option" where
  "pool_map_insert m h k v =
     (if root m = None then do {
        (n, h) \<leftarrow> node_alloc h;
        if n = None then Some (- 1, m, h)
        else do {
          h \<leftarrow> store h n (\<lambda>nd. nd\<lparr>key := k\<rparr>);
          h \<leftarrow> store h n (\<lambda>nd. nd\<lparr>value := v\<rparr>);
          Some (1, m\<lparr>root := n, size_f := 1\<rparr>, h)
        }
      } else do {
        found \<leftarrow> pool_insert_descend h k None (root m) 0;
        case found of None \<Rightarrow> Some (0, m, h)
        | Some (parent_p, cmpv) \<Rightarrow> do {
            (n, h) \<leftarrow> node_alloc h;
            if n = None then Some (- 1, m, h)
            else do {
              h \<leftarrow> store h n (\<lambda>nd. nd\<lparr>key := k\<rparr>);
              h \<leftarrow> store h n (\<lambda>nd. nd\<lparr>value := v\<rparr>);
              h \<leftarrow> store h n (\<lambda>nd. nd\<lparr>parent := parent_p\<rparr>);
              h \<leftarrow> (if cmpv < 0 then store h parent_p (\<lambda>nd. nd\<lparr>left := n\<rparr>)
                    else store h parent_p (\<lambda>nd. nd\<lparr>right := n\<rparr>));
              p \<leftarrow> load h n parent;
              (m, h) \<leftarrow> pool_rebalance_loop (m\<lparr>size_f := size_f m + 1\<rparr>) h p;
              h \<leftarrow> clear_root_parent m h;
              Some (1, m, h)
            }
          }
      })"

text \<open>A caller that inserts the entries of a list one after the other.\<close>

fun pool_insert_all :: "map_hdr \<Rightarrow> 'v pool \<Rightarrow> (32 word \<times> 'v option) list \<Rightarrow>
    (int list \<times> map_hdr \<times> 'v pool) option" where
  "pool_insert_all m h [] = Some ([], m, h)"
| "pool_insert_all m h ((k, v) # es) =
     (case pool_map_insert m h k v of None \<Rightarrow> None
      | Some (rc, m', h') \<Rightarrow>
          (case pool_insert_all m' h' es of None \<Rightarrow> None
           | Some (rcs, m'', h'') \<Rightarrow> Some (rc # rcs, m'', h'')))"

declare node_alloc_from.simps [simp del]

section \<open>Verification of the pool map\<close>

subsection \<open>The fields that the tree operations do not write\<close>

text \<open>
  \<open>same_more h h'\<close>: the stores \<open>h\<close> and \<open>h'\<close> have the same addresses, and every node has the
  same fields beyond those of the dynamic node (for a pool slot: the same \<^verbatim>\<open>in_use\<close>).
\<close>

definition same_more :: "('k, 'v, 'x) heap \<Rightarrow> ('k, 'v, 'x) heap \<Rightarrow> bool" where
  "same_more h h' \<longleftrightarrow> (\<forall>a. map_option node.more (h' a) = map_option node.more (h a))"

lemma same_more_refl [simp]: "same_more h h"
  by (simp add: same_more_def)













subsection \<open>The pool functions on trees\<close>






subsection \<open>Allocation of a slot\<close>



subsection \<open>The invariant of the pool map\<close>









lemma fold_slots:
  "fold (\<lambda>i h. h(i \<mapsto> x)) [0..<n] g a = (if a < n then Some x else g a)"
  by (induction n) auto




text \<open>A caller that initialises the map and inserts the entries of a list.\<close>

definition pool_run :: "(32 word \<times> 'v option) list \<Rightarrow> (int list \<times> map_hdr \<times> 'v pool) option" where
  "pool_run es = (case pool_init of (m, h) \<Rightarrow> pool_insert_all m h es)"




lemma pool_init_eq:
  "pool_init = (\<lparr>root = None, size_f = 0\<rparr>, \<lambda>a. if a < MAX_NODES then Some free_slot else None)"
  by (simp add: pool_init_def fold_slots fun_eq_iff)

text \<open>
  The two inserts of the example \<^verbatim>\<open>main\<close>, of the keys 10 and 20 after \<^verbatim>\<open>map_init\<close> (which
  calls \<^verbatim>\<open>pool_init\<close>), take the slots 0 and 1; the slot 2 stays free.
\<close>

lemma pool_run_example:
  "\<exists>m h. pool_run [(10, Some 1), (20, Some 2)] = Some ([1, 1], m, h) \<and> root m = Some 0 \<and>
     size_f m = 2 \<and>
     h 0 = Some \<lparr>key = 10, value = Some (1 :: nat), left = None, right = Some 1, parent = None,
       height = 2, in_use = 1\<rparr> \<and>
     h 1 = Some \<lparr>key = 20, value = Some 2, left = None, right = None, parent = Some 0,
       height = 1, in_use = 1\<rparr> \<and>
     h 2 = Some free_slot"
  by (simp add: pool_run_def pool_init_eq pool_map_insert_def node_alloc_def node_alloc_from.simps
      MAX_NODES_def free_slot_def pool_insert_descend.simps pool_rebalance_loop.simps
      pool_rebalance_at_def rebalance_at_def update_height_def set_child_def clear_root_parent_def
      load_def store_def node_height_def)

end
